(* ===== verification/Prelude.thy ===== *)
theory Prelude
  imports Main "HOL-Library.Word" "HOL-Library.Sublist" "HOL-Library.Multiset"
begin

text \<open>
  Shared material of the development: the result type of fallible operations,
  reachability and inductive invariants for the step relations, and generic facts on
  lists (rotation, stable sorting, streaks of equal booleans, removal of duplicates) used by
  several components.
\<close>

section \<open>Names shared by all components\<close>

text \<open>Go's \<open>uint64\<close>; additions on it wrap around.\<close>

type_synonym u64 = "64 word"

text \<open>A fallible operation returns \<open>Inl\<close> of its error or \<open>Inr\<close> of its result.\<close>

type_synonym ('e, 'a) res = "'e + 'a"

definition res_bind :: "('e, 'a) res \<Rightarrow> ('a \<Rightarrow> ('e, 'b) res) \<Rightarrow> ('e, 'b) res" where
  "res_bind r f = (case r of Inl e \<Rightarrow> Inl e | Inr a \<Rightarrow> f a)"

definition is_ok :: "('e, 'a) res \<Rightarrow> bool" where
  "is_ok r = (case r of Inl _ \<Rightarrow> False | Inr _ \<Rightarrow> True)"

definition map_error :: "('e \<Rightarrow> 'f) \<Rightarrow> ('e, 'a) res \<Rightarrow> ('f, 'a) res" where
  "map_error f r = (case r of Inl e \<Rightarrow> Inl (f e) | Inr a \<Rightarrow> Inr a)"

text \<open>The preservation lemmas of the heap's well-formedness, used by every step relation over it.\<close>

named_theorems wf_intros "preservation of the well-formedness of the heap"

lemma res_bind_simps [simp]:
  "res_bind (Inl e) f = Inl e"
  "res_bind (Inr a) f = f a"
  by (simp_all add: res_bind_def)

lemma res_bind_Inr_iff: "res_bind r f = Inr b \<longleftrightarrow> (\<exists>a. r = Inr a \<and> f a = Inr b)"
  by (cases r) auto

lemma res_bind_Inl_iff: "res_bind r f = Inl e \<longleftrightarrow> r = Inl e \<or> (\<exists>a. r = Inr a \<and> f a = Inl e)"
  by (cases r) auto

lemma guard_Inr_iff: "(if b then Inl e else r) = Inr a \<longleftrightarrow> \<not> b \<and> r = Inr a"
  by simp

lemma case_sum_Inr_iff: "(case r of Inl e \<Rightarrow> Inl (g e) | Inr a \<Rightarrow> f a) = Inr b \<longleftrightarrow> (\<exists>a. r = Inr a \<and> f a = Inr b)"
  by (cases r) auto

lemma case_option_error_Inr_iff: "(case x of Some e \<Rightarrow> Inl (g e) | None \<Rightarrow> r) = Inr b \<longleftrightarrow> x = None \<and> r = Inr b"
  by (cases x) auto

lemma is_ok_simps [simp]: "\<not> is_ok (Inl e)" "is_ok (Inr a)"
  by (simp_all add: is_ok_def)

lemma is_ok_iff: "is_ok r \<longleftrightarrow> (\<exists>a. r = Inr a)"
  by (cases r) auto

lemma map_error_simps [simp]:
  "map_error f (Inl e) = Inl (f e)"
  "map_error f (Inr a) = Inr a"
  by (simp_all add: map_error_def)

lemma map_error_Inr_iff [simp]: "map_error f r = Inr a \<longleftrightarrow> r = Inr a"
  by (cases r) auto


section \<open>Step relations, reachable states and inductive invariants\<close>

inductive reaches :: "('s \<Rightarrow> 's \<Rightarrow> bool) \<Rightarrow> 's \<Rightarrow> 's \<Rightarrow> bool" for step where
  here: "reaches step s s"
| further: "reaches step s t \<Longrightarrow> step t u \<Longrightarrow> reaches step s u"

lemma reaches_step: "step s t \<Longrightarrow> reaches step s t"
  by (rule reaches.further [OF reaches.here])

lemma reaches_trans: "reaches step t u \<Longrightarrow> reaches step s t \<Longrightarrow> reaches step s u"
  by (induction rule: reaches.induct) (auto intro: reaches.further)

text \<open>
  The contract between a step relation and a predicate that every step keeps. Each state machine
  of the development interprets it, and reads the invariant of its reachable states off
  \<open>reaches_inv\<close>.
\<close>

locale inductive_invariant =
  fixes step :: "'s \<Rightarrow> 's \<Rightarrow> bool"
    and inv :: "'s \<Rightarrow> bool"
  assumes inv_step: "inv s \<Longrightarrow> step s t \<Longrightarrow> inv t"
begin

lemma reaches_inv: "reaches step s t \<Longrightarrow> inv s \<Longrightarrow> inv t"
  by (induction rule: reaches.induct) (auto intro: inv_step)

end


section \<open>Streaks in a history of booleans\<close>

text \<open>
  A counter that counts equal results in a row and is reset by the opposite result reaches its
  threshold exactly when the history contains that many equal results in a row.
\<close>

fun streak_hit :: "bool \<Rightarrow> nat \<Rightarrow> nat \<Rightarrow> bool list \<Rightarrow> bool" where
  "streak_hit v n k [] = False"
| "streak_hit v n k (x # xs) =
     (if x = v then (if Suc k < n then streak_hit v n (Suc k) xs else True)
      else streak_hit v n 0 xs)"

lemma sublist_replicate_skip:
  assumes "x \<noteq> v" and "k < n"
  shows "sublist (replicate n v) (replicate k v @ x # xs) \<longleftrightarrow> sublist (replicate n v) xs"
proof
  assume "sublist (replicate n v) (replicate k v @ x # xs)"
  then obtain ps ss where e: "replicate k v @ x # xs = ps @ replicate n v @ ss"
    by (auto simp: sublist_def)
  have long: "k < length ps"
  proof (rule ccontr)
    assume short: "\<not> k < length ps"
    have "(replicate k v @ x # xs) ! k = x" by (simp add: nth_append)
    moreover have "(ps @ replicate n v @ ss) ! k = v"
      using short assms(2) by (simp add: nth_append less_diff_conv2)
    ultimately show False using e assms(1) by simp
  qed
  have "xs = drop (Suc k) (replicate k v @ x # xs)" by simp
  also have "\<dots> = drop (Suc k) ps @ replicate n v @ ss"
    using long by (simp add: e)
  finally show "sublist (replicate n v) xs" by (auto simp: sublist_def)
next
  assume "sublist (replicate n v) xs"
  then obtain ps ss where "xs = ps @ replicate n v @ ss"
    by (auto simp: sublist_def)
  then have "replicate k v @ x # xs = (replicate k v @ x # ps) @ replicate n v @ ss"
    by simp
  then show "sublist (replicate n v) (replicate k v @ x # xs)"
    unfolding sublist_def by blast
qed

lemma streak_hit_iff:
  "k < n \<Longrightarrow> streak_hit v n k xs \<longleftrightarrow> sublist (replicate n v) (replicate k v @ xs)"
proof (induction xs arbitrary: k)
  case Nil
  have "\<not> sublist (replicate n v) (replicate k v)"
    using Nil by (auto dest!: sublist_length_le)
  then show ?case by simp
next
  case (Cons x xs)
  have shift: "replicate k v @ v # xs = replicate (Suc k) v @ xs"
    by (simp add: replicate_app_Cons_same)
  consider (hit) "x = v" "\<not> Suc k < n" | (more) "x = v" "Suc k < n" | (reset) "x \<noteq> v"
    by blast
  then show ?case
  proof cases
    case hit
    with Cons.prems have "n = Suc k" by simp
    with hit show ?thesis by (simp add: shift del: replicate.simps)
  next
    case more
    with Cons.IH [of "Suc k"] show ?thesis by (simp add: shift del: replicate.simps)
  next
    case reset
    with Cons.IH [of 0] Cons.prems show ?thesis by (simp add: sublist_replicate_skip)
  qed
qed


section \<open>Lists\<close>

lemma mset_rotate [simp]: "mset (rotate n xs) = mset xs"
  by (metis add.commute append_take_drop_id mset_append rotate_drop_take)


lemma filter_neq_id: "x \<notin> set xs \<Longrightarrow> filter (\<lambda>y. y \<noteq> x) xs = xs"
  by (induction xs) auto

lemma removeAll_filter: "removeAll x xs = filter (\<lambda>y. y \<noteq> x) xs"
  by (induction xs) auto

lemma map_field_list_update:
  "(\<And>x. g (f x) = g x) \<Longrightarrow> g (xs[p := f (xs ! p)] ! q) = g (xs ! q)"
  by (cases "p < length xs") (auto simp: nth_list_update list_update_beyond)

end
