(* ===== verification/Backend.thy ===== *)
theory Backend
  imports Prelude
begin

text \<open>
  \<^verbatim>\<open>src/internal/backend/backend.go\<close>: one upstream server, its fall/rise health state machine, the
  registry of its in-flight connections and its counters.

  Go pointers are indices into three heaps of the \<open>world\<close>: \<open>bheap\<close> holds the \<open>Backend\<close> objects,
  \<open>theap\<close> the \<open>trackedConn\<close> wrappers and \<open>sheap\<close> the network connections they wrap. An object is
  never freed, as a Go object is not while something refers to it. The set
  \<open>map[net.Conn]struct{}\<close> is a list without duplicates; the order in which Go ranges over it is
  unspecified, and \<open>close_all_order\<close> shows that the outcome of a drain does not depend on it. The
  counters are \<open>uint64\<close> words. \<open>fails\<close> and \<open>rises\<close> are integers: \<open>ReportHealth_inv_keep\<close> keeps them
  below the configured thresholds, so Go's 64-bit \<open>int\<close> cannot overflow.
\<close>

section \<open>State\<close>

type_synonym bid = nat \<comment> \<open>\<open>*Backend\<close>\<close>
type_synonym tcid = nat \<comment> \<open>\<open>*trackedConn\<close>\<close>
type_synonym sockid = nat \<comment> \<open>a \<open>net.Conn\<close> as the dialer or the listener returned it\<close>

record Stats =
  ConnsTotal :: u64
  DialErrors :: u64
  CheckFailures :: u64
  Drained :: u64

record backend =
  addr :: string
  healthy :: bool
  fails :: int
  rises :: int
  conns :: "tcid list"
  stats :: Stats

record trackedConn =
  tc_Conn :: sockid
  tc_backend :: bid
  tc_once :: bool \<comment> \<open>\<open>once.Do\<close> has run\<close>

text \<open>A network connection: closed by this process or not, its write side shut down or not, whether it
  offers \<open>CloseWrite\<close> (a \<open>*net.TCPConn\<close> does), and the bytes this process has read from it and written
  to it so far.\<close>

record sock =
  closed :: bool
  write_closed :: bool
  has_CloseWrite :: bool
  received :: string
  sent :: string

record world =
  bheap :: "backend list"
  theap :: "trackedConn list"
  sheap :: "sock list"

datatype conn_error = ErrClosed | NoCloseWrite


section \<open>Operations on one backend\<close>

definition zero_Stats :: Stats where
  "zero_Stats = \<lparr>ConnsTotal = 0, DialErrors = 0, CheckFailures = 0, Drained = 0\<rparr>"

definition backend_New :: "string \<Rightarrow> backend" where
  "backend_New a = \<lparr>addr = a, healthy = True, fails = 0, rises = 0, conns = [], stats = zero_Stats\<rparr>"

definition Addr :: "backend \<Rightarrow> string" where
  "Addr b = addr b"

definition Healthy :: "backend \<Rightarrow> bool" where
  "Healthy b = healthy b"

definition ActiveConns :: "backend \<Rightarrow> nat" where
  "ActiveConns b = length (conns b)"

definition add_CheckFailure :: "backend \<Rightarrow> backend" where
  "add_CheckFailure b = b\<lparr>stats := (stats b)\<lparr>CheckFailures := CheckFailures (stats b) + 1\<rparr>\<rparr>"

definition add_DialError :: "backend \<Rightarrow> backend" where
  "add_DialError b = b\<lparr>stats := (stats b)\<lparr>DialErrors := DialErrors (stats b) + 1\<rparr>\<rparr>"

definition add_ConnTotal :: "backend \<Rightarrow> backend" where
  "add_ConnTotal b = b\<lparr>stats := (stats b)\<lparr>ConnsTotal := ConnsTotal (stats b) + 1\<rparr>\<rparr>"

definition add_Drained :: "nat \<Rightarrow> backend \<Rightarrow> backend" where
  "add_Drained n b = b\<lparr>stats := (stats b)\<lparr>Drained := Drained (stats b) + of_nat n\<rparr>\<rparr>"

definition ReportHealth :: "bool \<Rightarrow> int \<Rightarrow> int \<Rightarrow> backend \<Rightarrow> backend \<times> bool" where
  "ReportHealth ok fall rise b0 =
     (let b = (if \<not> ok then add_CheckFailure b0 else b0) in
      if healthy b then
        if ok then (b\<lparr>fails := 0\<rparr>, False)
        else
          let b = b\<lparr>fails := fails b + 1\<rparr> in
          if fails b < fall then (b, False)
          else (b\<lparr>healthy := False, fails := 0, rises := 0\<rparr>, True)
      else
        if \<not> ok then (b\<lparr>rises := 0\<rparr>, False)
        else
          let b = b\<lparr>rises := rises b + 1\<rparr> in
          if rises b < rise then (b, False)
          else (b\<lparr>healthy := True, fails := 0, rises := 0\<rparr>, True))"

text \<open>A sequence of probe results fed to one backend, with the transition flags returned.\<close>

fun ReportHealths :: "int \<Rightarrow> int \<Rightarrow> bool list \<Rightarrow> backend \<Rightarrow> backend \<times> bool list" where
  "ReportHealths fall rise [] b = (b, [])"
| "ReportHealths fall rise (ok # oks) b =
     (let (b', t) = ReportHealth ok fall rise b; (b'', ts) = ReportHealths fall rise oks b'
      in (b'', t # ts))"


section \<open>Operations on the heap\<close>

definition upd_backend :: "bid \<Rightarrow> (backend \<Rightarrow> backend) \<Rightarrow> world \<Rightarrow> world" where
  "upd_backend p f w = w\<lparr>bheap := (bheap w)[p := f (bheap w ! p)]\<rparr>"

text \<open>A TCP connection as the dialer or the listener returns it.\<close>

definition new_sock :: sock where
  "new_sock = \<lparr>closed = False, write_closed = False, has_CloseWrite = True, received = [], sent = []\<rparr>"

definition sock_Close :: "sockid \<Rightarrow> world \<Rightarrow> world \<times> conn_error option" where
  "sock_Close s w =
     (if closed (sheap w ! s) then (w, Some ErrClosed)
      else (w\<lparr>sheap := (sheap w)[s := (sheap w ! s)\<lparr>closed := True\<rparr>]\<rparr>, None))"

definition sock_CloseWrite :: "sockid \<Rightarrow> world \<Rightarrow> world \<times> conn_error option" where
  "sock_CloseWrite s w =
     (if \<not> has_CloseWrite (sheap w ! s) then (w, Some NoCloseWrite)
      else if closed (sheap w ! s) then (w, Some ErrClosed)
      else (w\<lparr>sheap := (sheap w)[s := (sheap w ! s)\<lparr>write_closed := True\<rparr>]\<rparr>, None))"

definition Track :: "bid \<Rightarrow> sockid \<Rightarrow> world \<Rightarrow> world \<times> tcid" where
  "Track p c w =
     (let w = upd_backend p add_ConnTotal w;
          tc = length (theap w);
          w = w\<lparr>theap := theap w @ [\<lparr>tc_Conn = c, tc_backend = p, tc_once = False\<rparr>]\<rparr>;
          w = upd_backend p (\<lambda>b. b\<lparr>conns := conns b @ [tc]\<rparr>) w
      in (w, tc))"

definition tc_unregister :: "tcid \<Rightarrow> world \<Rightarrow> world" where
  "tc_unregister tc w =
     (if tc_once (theap w ! tc) then w
      else
        let w = w\<lparr>theap := (theap w)[tc := (theap w ! tc)\<lparr>tc_once := True\<rparr>]\<rparr>
        in upd_backend (tc_backend (theap w ! tc)) (\<lambda>b. b\<lparr>conns := removeAll tc (conns b)\<rparr>) w)"

definition Close :: "tcid \<Rightarrow> world \<Rightarrow> world \<times> conn_error option" where
  "Close tc w = (let w = tc_unregister tc w in sock_Close (tc_Conn (theap w ! tc)) w)"

definition CloseWrite :: "tcid \<Rightarrow> world \<Rightarrow> world \<times> conn_error option" where
  "CloseWrite tc w = sock_CloseWrite (tc_Conn (theap w ! tc)) w"

text \<open>The closing loop of a drain, over the snapshot taken under the lock.\<close>

fun close_all :: "tcid list \<Rightarrow> world \<Rightarrow> world" where
  "close_all [] w = w"
| "close_all (c # cs) w = close_all cs (fst (Close c w))"

definition DrainAll :: "bid \<Rightarrow> world \<Rightarrow> world \<times> nat" where
  "DrainAll p w =
     (let cs = conns (bheap w ! p);
          w = close_all cs w;
          w = upd_backend p (add_Drained (length cs)) w
      in (w, length cs))"


section \<open>Invariants and the specification of closing\<close>

definition health_inv :: "int \<Rightarrow> int \<Rightarrow> backend \<Rightarrow> bool" where
  "health_inv fall rise b =
     (if healthy b then 0 \<le> fails b \<and> fails b < fall \<and> rises b = 0
      else fails b = 0 \<and> 0 \<le> rises b \<and> rises b < rise)"

text \<open>
  Pointers are valid, every wrapper owns its own connection, and the three places that say whether
  a tracked connection is live agree: it is in its backend's set exactly while its \<open>once\<close> has not
  run, and its connection is closed exactly when it has.
\<close>

definition wf_world :: "world \<Rightarrow> bool" where
  "wf_world w \<longleftrightarrow>
     (\<forall>p < length (bheap w). distinct (conns (bheap w ! p)) \<and>
        (\<forall>tc. tc \<in> set (conns (bheap w ! p)) \<longleftrightarrow>
           tc < length (theap w) \<and> tc_backend (theap w ! tc) = p \<and> \<not> tc_once (theap w ! tc))) \<and>
     (\<forall>tc < length (theap w).
        tc_Conn (theap w ! tc) < length (sheap w) \<and>
        tc_backend (theap w ! tc) < length (bheap w) \<and>
        (closed (sheap w ! tc_Conn (theap w ! tc)) \<longleftrightarrow> tc_once (theap w ! tc))) \<and>
     inj_on (\<lambda>tc. tc_Conn (theap w ! tc)) {..<length (theap w)}"

text \<open>What the proxy may do to the backends, seen by the other components: connections come and go and
  their counters change, but addresses and health stay.\<close>

definition health_view :: "backend \<Rightarrow> bool \<times> int \<times> int \<times> u64" where
  "health_view b = (healthy b, fails b, rises b, CheckFailures (stats b))"

definition traffic :: "world \<Rightarrow> world \<Rightarrow> bool" where
  "traffic w w' \<longleftrightarrow> wf_world w' \<and> length (bheap w') = length (bheap w) \<and>
     (\<forall>b < length (bheap w). addr (bheap w' ! b) = addr (bheap w ! b) \<and>
        health_view (bheap w' ! b) = health_view (bheap w ! b))"

text \<open>A connection is tracked once it was dialed: fresh, open and wrapped by nothing else.\<close>

definition fresh_sock :: "world \<Rightarrow> sockid \<Rightarrow> bool" where
  "fresh_sock w c \<longleftrightarrow> c < length (sheap w) \<and> \<not> closed (sheap w ! c) \<and>
     (\<forall>tc < length (theap w). tc_Conn (theap w ! tc) \<noteq> c)"

text \<open>What closing a set of tracked connections means, with no order and no loop.\<close>

definition closed_world :: "tcid set \<Rightarrow> world \<Rightarrow> world" where
  "closed_world C w = w\<lparr>
     bheap := map (\<lambda>b. b\<lparr>conns := filter (\<lambda>c. c \<notin> C) (conns b)\<rparr>) (bheap w),
     theap := map (\<lambda>i. if i \<in> C then (theap w ! i)\<lparr>tc_once := True\<rparr> else theap w ! i)
                [0..<length (theap w)],
     sheap := map (\<lambda>i. if i \<in> (\<lambda>tc. tc_Conn (theap w ! tc)) ` (C \<inter> {..<length (theap w)})
                  then (sheap w ! i)\<lparr>closed := True\<rparr> else sheap w ! i)
                [0..<length (sheap w)]\<rparr>"


text \<open>Two backends, one connection in flight to each: the state the witnesses start from.\<close>

definition example_world :: world where
  "example_world =
     (let w = \<lparr>bheap = [backend_New ''10.0.0.11:6443'', backend_New ''10.0.0.12:6443''], theap = [],
               sheap = replicate 3 \<lparr>closed = False, write_closed = False, has_CloseWrite = True, received = [], sent = []\<rparr>\<rparr>
      in fst (Track 1 2 (fst (Track 0 0 w))))"

text \<open>
  The promise of the health state machine, stated on the history of probe results instead of
  counters: the verdict flips exactly when the last \<open>fall\<close> (or \<open>rise\<close>) results since the previous
  flip all contradict it. The history is kept newest first.
\<close>

definition verdict_step :: "nat \<Rightarrow> nat \<Rightarrow> bool \<Rightarrow> bool \<times> bool list \<Rightarrow> bool \<times> bool list" where
  "verdict_step fall rise ok vh =
     (let (v, h) = vh; h' = ok # h in
      if v then (if take fall h' = replicate fall False then (False, []) else (True, h'))
      else (if take rise h' = replicate rise True then (True, []) else (False, h')))"

definition verdict_rel :: "int \<Rightarrow> int \<Rightarrow> backend \<Rightarrow> bool \<times> bool list \<Rightarrow> bool" where
  "verdict_rel fall rise b vh =
     (healthy b = fst vh \<and>
      (if healthy b then fails b = int (length (takeWhile Not (snd vh))) \<and> fails b < fall
       else rises b = int (length (takeWhile (\<lambda>ok. ok) (snd vh))) \<and> rises b < rise))"


section \<open>The fall/rise state machine\<close>

lemma ReportHealth_frame:
  "addr (fst (ReportHealth ok fall rise b)) = addr b"
  "conns (fst (ReportHealth ok fall rise b)) = conns b"
  by (simp_all add: ReportHealth_def Let_def add_CheckFailure_def)

lemma ReportHealth_cases:
  "healthy b \<Longrightarrow> ReportHealth True fall rise b = (b\<lparr>fails := 0\<rparr>, False)"
  "healthy b \<Longrightarrow> fails b + 1 < fall \<Longrightarrow>
     ReportHealth False fall rise b = ((add_CheckFailure b)\<lparr>fails := fails b + 1\<rparr>, False)"
  "healthy b \<Longrightarrow> \<not> fails b + 1 < fall \<Longrightarrow>
     ReportHealth False fall rise b =
       ((add_CheckFailure b)\<lparr>healthy := False, fails := 0, rises := 0\<rparr>, True)"
  "\<not> healthy b \<Longrightarrow> ReportHealth False fall rise b = ((add_CheckFailure b)\<lparr>rises := 0\<rparr>, False)"
  "\<not> healthy b \<Longrightarrow> rises b + 1 < rise \<Longrightarrow>
     ReportHealth True fall rise b = (b\<lparr>rises := rises b + 1\<rparr>, False)"
  "\<not> healthy b \<Longrightarrow> \<not> rises b + 1 < rise \<Longrightarrow>
     ReportHealth True fall rise b = (b\<lparr>healthy := True, fails := 0, rises := 0\<rparr>, True)"
  by (simp_all add: ReportHealth_def Let_def add_CheckFailure_def)

lemma ReportHealth_transition:
  "snd (ReportHealth ok fall rise b) \<longleftrightarrow> healthy (fst (ReportHealth ok fall rise b)) \<noteq> healthy b"
  by (auto simp: ReportHealth_def Let_def add_CheckFailure_def)

lemma ReportHealth_verdict:
  "snd (ReportHealth ok fall rise b) \<Longrightarrow> healthy (fst (ReportHealth ok fall rise b)) = ok"
  by (auto simp: ReportHealth_def Let_def add_CheckFailure_def split: if_splits)

lemma ReportHealth_inv_keep:
  "1 \<le> fall \<Longrightarrow> 1 \<le> rise \<Longrightarrow> health_inv fall rise b \<Longrightarrow>
     health_inv fall rise (fst (ReportHealth ok fall rise b))"
  by (auto simp: health_inv_def ReportHealth_def Let_def add_CheckFailure_def)

lemma backend_New_inv: "1 \<le> fall \<Longrightarrow> health_inv fall rise (backend_New a)"
  by (simp add: health_inv_def backend_New_def)

lemma ReportHealths_inv:
  "1 \<le> fall \<Longrightarrow> 1 \<le> rise \<Longrightarrow> health_inv fall rise b \<Longrightarrow>
     health_inv fall rise (fst (ReportHealths fall rise oks b))"
  by (induction oks arbitrary: b) (auto simp: Let_def split_beta ReportHealth_inv_keep)

text \<open>A healthy backend counts failures, an unhealthy one successes: both are streak counters.\<close>

lemma ReportHealths_falls_streak:
  assumes "1 \<le> fall" "healthy b" "0 \<le> fails b" "fails b < fall"
  shows "True \<in> set (snd (ReportHealths fall rise oks b)) \<longleftrightarrow>
           streak_hit False (nat fall) (nat (fails b)) oks"
  using assms
proof (induction oks arbitrary: b)
  case (Cons ok oks)
  consider (good) "ok" | (count) "\<not> ok" "fails b + 1 < fall" | (trip) "\<not> ok" "\<not> fails b + 1 < fall"
    by blast
  then show ?case
  proof cases
    case good
    with Cons.prems Cons.IH [of "b\<lparr>fails := 0\<rparr>"] show ?thesis
      by (simp add: ReportHealth_cases split_beta)
  next
    case count
    then have "Suc (nat (fails b)) < nat fall" "nat (fails b + 1) = Suc (nat (fails b))"
      using Cons.prems by linarith+
    with count Cons.prems Cons.IH [of "(add_CheckFailure b)\<lparr>fails := fails b + 1\<rparr>"] show ?thesis
      by (simp add: ReportHealth_cases split_beta add_CheckFailure_def)
  next
    case trip
    then have "\<not> Suc (nat (fails b)) < nat fall" using Cons.prems by linarith
    with trip Cons.prems show ?thesis by (simp add: ReportHealth_cases split_beta)
  qed
qed simp

lemma ReportHealths_rises_streak:
  assumes "1 \<le> rise" "\<not> healthy b" "0 \<le> rises b" "rises b < rise"
  shows "True \<in> set (snd (ReportHealths fall rise oks b)) \<longleftrightarrow>
           streak_hit True (nat rise) (nat (rises b)) oks"
  using assms
proof (induction oks arbitrary: b)
  case (Cons ok oks)
  consider (bad) "\<not> ok" | (count) "ok" "rises b + 1 < rise" | (trip) "ok" "\<not> rises b + 1 < rise"
    by blast
  then show ?case
  proof cases
    case bad
    with Cons.prems Cons.IH [of "(add_CheckFailure b)\<lparr>rises := 0\<rparr>"] show ?thesis
      by (simp add: ReportHealth_cases split_beta add_CheckFailure_def)
  next
    case count
    then have "Suc (nat (rises b)) < nat rise" "nat (rises b + 1) = Suc (nat (rises b))"
      using Cons.prems by linarith+
    with count Cons.prems Cons.IH [of "b\<lparr>rises := rises b + 1\<rparr>"] show ?thesis
      by (simp add: ReportHealth_cases split_beta)
  next
    case trip
    then have "\<not> Suc (nat (rises b)) < nat rise" using Cons.prems by linarith
    with trip Cons.prems show ?thesis by (simp add: ReportHealth_cases split_beta)
  qed
qed simp


section \<open>The connection registry\<close>

lemma wf_conns_iff:
  "wf_world w \<Longrightarrow> p < length (bheap w) \<Longrightarrow> tc \<in> set (conns (bheap w ! p)) \<longleftrightarrow>
     tc < length (theap w) \<and> tc_backend (theap w ! tc) = p \<and> \<not> tc_once (theap w ! tc)"
  by (simp add: wf_world_def)

lemma wf_distinct: "wf_world w \<Longrightarrow> p < length (bheap w) \<Longrightarrow> distinct (conns (bheap w ! p))"
  by (simp add: wf_world_def)

lemma wf_tracked:
  assumes "wf_world w" "tc < length (theap w)"
  shows "tc_Conn (theap w ! tc) < length (sheap w)" "tc_backend (theap w ! tc) < length (bheap w)"
    "closed (sheap w ! tc_Conn (theap w ! tc)) \<longleftrightarrow> tc_once (theap w ! tc)"
  using assms by (simp_all add: wf_world_def)

lemma wf_inj: "wf_world w \<Longrightarrow> inj_on (\<lambda>tc. tc_Conn (theap w ! tc)) {..<length (theap w)}"
  by (simp add: wf_world_def)

lemma length_closed_world [simp]:
  "length (bheap (closed_world C w)) = length (bheap w)"
  "length (theap (closed_world C w)) = length (theap w)"
  "length (sheap (closed_world C w)) = length (sheap w)"
  by (simp_all add: closed_world_def)

lemma nth_closed_world [simp]:
  "p < length (bheap w) \<Longrightarrow> bheap (closed_world C w) ! p =
     (bheap w ! p)\<lparr>conns := filter (\<lambda>c. c \<notin> C) (conns (bheap w ! p))\<rparr>"
  "j < length (sheap w) \<Longrightarrow> sheap (closed_world C w) ! j =
     (if j \<in> (\<lambda>tc. tc_Conn (theap w ! tc)) ` (C \<inter> {..<length (theap w)})
      then (sheap w ! j)\<lparr>closed := True\<rparr> else sheap w ! j)"
  by (simp_all add: closed_world_def)

lemma theap_closed_world:
  "i < length (theap w) \<Longrightarrow> theap (closed_world C w) ! i =
     (if i \<in> C then (theap w ! i)\<lparr>tc_once := True\<rparr> else theap w ! i)"
  by (simp add: closed_world_def)

lemma theap_closed_world_fields [simp]:
  assumes "i < length (theap w)"
  shows "tc_Conn (theap (closed_world C w) ! i) = tc_Conn (theap w ! i)"
    "tc_backend (theap (closed_world C w) ! i) = tc_backend (theap w ! i)"
    "tc_once (theap (closed_world C w) ! i) \<longleftrightarrow> i \<in> C \<or> tc_once (theap w ! i)"
  using assms by (simp_all add: theap_closed_world)

lemma world_eqI:
  assumes "length (bheap v) = length (bheap w)" "\<And>p. p < length (bheap w) \<Longrightarrow> bheap v ! p = bheap w ! p"
    and "length (theap v) = length (theap w)" "\<And>p. p < length (theap w) \<Longrightarrow> theap v ! p = theap w ! p"
    and "length (sheap v) = length (sheap w)" "\<And>p. p < length (sheap w) \<Longrightarrow> sheap v ! p = sheap w ! p"
  shows "(v :: world) = w"
  using assms by (intro world.equality) (auto intro: nth_equalityI)

lemma closed_world_empty: "closed_world {} w = w"
  by (rule world_eqI) (auto simp: theap_closed_world)

lemma closed_world_Un: "closed_world C (closed_world D w) = closed_world (C \<union> D) w"
proof (rule world_eqI)
  fix j assume j: "j < length (sheap (closed_world (C \<union> D) w))"
  have "(\<lambda>tc. tc_Conn (theap (closed_world D w) ! tc)) ` (C \<inter> {..<length (theap w)}) =
    (\<lambda>tc. tc_Conn (theap w ! tc)) ` (C \<inter> {..<length (theap w)})"
    by (intro image_cong) auto
  with j show "sheap (closed_world C (closed_world D w)) ! j = sheap (closed_world (C \<union> D) w) ! j"
    by (auto simp: Int_Un_distrib2)
qed (auto simp: theap_closed_world conj_commute)

lemma wf_closed_world:
  assumes wf: "wf_world w"
  shows "wf_world (closed_world C w)"
proof -
  let ?w = "closed_world C w"
  have own: "closed (sheap ?w ! tc_Conn (theap ?w ! tc)) \<longleftrightarrow> tc_once (theap ?w ! tc)"
    if tc: "tc < length (theap w)" for tc
  proof -
    have "tc_Conn (theap w ! tc) \<in> (\<lambda>tc. tc_Conn (theap w ! tc)) ` (C \<inter> {..<length (theap w)}) \<longleftrightarrow>
        tc \<in> C"
      using tc inj_on_image_mem_iff [OF wf_inj [OF wf], of tc "C \<inter> {..<length (theap w)}"] by auto
    with wf_tracked [OF wf tc] tc show ?thesis by auto
  qed
  have "inj_on (\<lambda>tc. tc_Conn (theap ?w ! tc)) {..<length (theap ?w)}"
    using wf_inj [OF wf] by (simp add: inj_on_def)
  moreover have "distinct (conns (bheap ?w ! p)) \<and> (tc \<in> set (conns (bheap ?w ! p)) \<longleftrightarrow>
      tc < length (theap ?w) \<and> tc_backend (theap ?w ! tc) = p \<and> \<not> tc_once (theap ?w ! tc))"
    if "p < length (bheap w)" for p tc
    using that wf_distinct [OF wf that] wf_conns_iff [OF wf that, of tc] by auto
  moreover have "tc_Conn (theap ?w ! tc) < length (sheap w) \<and>
      tc_backend (theap ?w ! tc) < length (bheap w)" if "tc < length (theap w)" for tc
    using that wf_tracked [OF wf that] by auto
  ultimately show ?thesis
    using own unfolding wf_world_def by simp
qed

text \<open>Closing one tracked connection, live or already closed, is closing its singleton.\<close>

lemma Close_closed_world:
  assumes wf: "wf_world w" and tc: "tc < length (theap w)"
  shows "fst (Close tc w) = closed_world {tc} w"
proof (cases "tc_once (theap w ! tc)")
  case True
  have "tc \<notin> set (conns (bheap w ! p))" if "p < length (bheap w)" for p
    using True wf_conns_iff [OF wf that] by simp
  then have "closed_world {tc} w = w"
    using True tc wf_tracked [OF wf tc]
    by (intro world_eqI) (auto simp: filter_neq_id theap_closed_world)
  with True tc wf_tracked [OF wf tc] show ?thesis
    by (simp add: Close_def tc_unregister_def sock_Close_def)
next
  case False
  note tracked = wf_tracked [OF wf tc]
  have other: "tc \<notin> set (conns (bheap w ! p))"
    if "p < length (bheap w)" "p \<noteq> tc_backend (theap w ! tc)" for p
    using that wf_conns_iff [OF wf that(1)] by auto
  show ?thesis
  proof (rule world_eqI)
    fix p assume "p < length (bheap (closed_world {tc} w))"
    with False tc tracked other show "bheap (fst (Close tc w)) ! p = bheap (closed_world {tc} w) ! p"
      by (cases "p = tc_backend (theap w ! tc)")
        (auto simp: Close_def tc_unregister_def sock_Close_def upd_backend_def Let_def
          removeAll_filter filter_neq_id)
  qed (use False tc tracked in
      \<open>auto simp: Close_def tc_unregister_def sock_Close_def upd_backend_def Let_def
        nth_list_update theap_closed_world\<close>)
qed

lemma close_all_closed_world:
  "wf_world w \<Longrightarrow> set cs \<subseteq> {..<length (theap w)} \<Longrightarrow> close_all cs w = closed_world (set cs) w"
  by (induction cs arbitrary: w)
    (simp_all add: closed_world_empty Close_closed_world wf_closed_world closed_world_Un)

lemma wf_conns_subset:
  "wf_world w \<Longrightarrow> p < length (bheap w) \<Longrightarrow> set (conns (bheap w ! p)) \<subseteq> {..<length (theap w)}"
  using wf_conns_iff by auto

lemma close_all_order:
  assumes "wf_world w" "p < length (bheap w)" "set cs = set (conns (bheap w ! p))"
  shows "close_all cs w = close_all (conns (bheap w ! p)) w"
  using assms wf_conns_subset [OF assms(1,2)] by (simp add: close_all_closed_world)

lemma DrainAll_closed_world:
  "wf_world w \<Longrightarrow> p < length (bheap w) \<Longrightarrow> DrainAll p w =
     (upd_backend p (add_Drained (ActiveConns (bheap w ! p)))
        (closed_world (set (conns (bheap w ! p))) w), ActiveConns (bheap w ! p))"
  using wf_conns_subset [of w p]
  by (simp add: DrainAll_def Let_def ActiveConns_def close_all_closed_world)

lemma wf_upd_backend [wf_intros]:
  assumes "wf_world w" and "\<And>b. conns (f b) = conns b"
  shows "wf_world (upd_backend p f w)"
  using assms(1) map_field_list_update [of conns f, OF assms(2)]
  by (simp add: wf_world_def upd_backend_def)

lemma wf_new_sock [wf_intros]: "wf_world w \<Longrightarrow> wf_world (w\<lparr>sheap := sheap w @ [new_sock]\<rparr>)"
  by (simp add: wf_world_def nth_append less_SucI)

lemma wf_DrainAll [wf_intros]: "wf_world w \<Longrightarrow> p < length (bheap w) \<Longrightarrow> wf_world (fst (DrainAll p w))"
  by (simp add: DrainAll_closed_world wf_upd_backend wf_closed_world add_Drained_def)


lemma take_eq_replicate_iff:
  "take n xs = replicate n v \<longleftrightarrow> n \<le> length (takeWhile (\<lambda>x. x = v) xs)"
proof (induction n arbitrary: xs)
  case (Suc n)
  then show ?case by (cases xs) auto
qed simp

lemma ReportHealth_verdict_rel:
  assumes "1 \<le> fall" "1 \<le> rise" "verdict_rel fall rise b vh"
  shows "verdict_rel fall rise (fst (ReportHealth ok fall rise b))
           (verdict_step (nat fall) (nat rise) ok vh)"
proof -
  obtain v h where vh: "vh = (v, h)" by (cases vh)
  have eqs: "takeWhile (\<lambda>x. x = False) xs = takeWhile Not xs"
    "takeWhile (\<lambda>x. x = True) xs = takeWhile (\<lambda>x. x) xs" for xs
    by (auto intro!: takeWhile_cong)
  show ?thesis
    using assms
    by (cases ok)
      (auto simp: vh verdict_rel_def verdict_step_def ReportHealth_def Let_def add_CheckFailure_def
        take_eq_replicate_iff eqs split: if_splits)
qed

lemma ReportHealths_verdict_rel:
  "1 \<le> fall \<Longrightarrow> 1 \<le> rise \<Longrightarrow> verdict_rel fall rise b vh \<Longrightarrow>
     verdict_rel fall rise (fst (ReportHealths fall rise oks b))
       (fold (verdict_step (nat fall) (nat rise)) oks vh)"
  by (induction oks arbitrary: b vh) (auto simp: split_beta Let_def ReportHealth_verdict_rel)

lemma Track_simps:
  assumes "p < length (bheap w)"
  shows "snd (Track p c w) = length (theap w)"
    "bheap (fst (Track p c w)) =
       (bheap w)[p := (add_ConnTotal (bheap w ! p))\<lparr>conns := conns (bheap w ! p) @ [length (theap w)]\<rparr>]"
    "theap (fst (Track p c w)) =
       theap w @ [\<lparr>tc_Conn = c, tc_backend = p, tc_once = False\<rparr>]"
    "sheap (fst (Track p c w)) = sheap w"
  using assms by (simp_all add: Track_def Let_def upd_backend_def add_ConnTotal_def)

lemma wf_Track [wf_intros]:
  assumes wf: "wf_world w" and p: "p < length (bheap w)" and c: "fresh_sock w c"
  shows "wf_world (fst (Track p c w))"
proof -
  let ?w = "fst (Track p c w)" and ?n = "length (theap w)"
  have old: "?n \<notin> set (conns (bheap w ! q))" if "q < length (bheap w)" for q
    using wf_conns_iff [OF wf that] by simp
  have "distinct (conns (bheap ?w ! q)) \<and> (tc \<in> set (conns (bheap ?w ! q)) \<longleftrightarrow>
      tc < length (theap ?w) \<and> tc_backend (theap ?w ! tc) = q \<and> \<not> tc_once (theap ?w ! tc))"
    if "q < length (bheap w)" for q tc
    using that p old [OF that] wf_distinct [OF wf that] wf_conns_iff [OF wf that, of tc]
    by (auto simp: Track_simps nth_list_update nth_append less_Suc_eq)
  moreover have "tc_Conn (theap ?w ! tc) < length (sheap ?w) \<and>
      tc_backend (theap ?w ! tc) < length (bheap ?w) \<and>
      (closed (sheap ?w ! tc_Conn (theap ?w ! tc)) \<longleftrightarrow> tc_once (theap ?w ! tc))"
    if "tc < length (theap ?w)" for tc
    using that p c wf_tracked [OF wf, of tc]
    by (auto simp: Track_simps nth_append fresh_sock_def less_Suc_eq)
  moreover have "inj_on (\<lambda>tc. tc_Conn (theap ?w ! tc)) {..<length (theap ?w)}"
    using wf_inj [OF wf] p c
    by (auto simp: Track_simps inj_on_def nth_append fresh_sock_def less_Suc_eq)
  ultimately show ?thesis
    using p unfolding wf_world_def by (simp add: Track_simps)
qed


lemma ReportHealths_CheckFailures:
  "CheckFailures (stats (fst (ReportHealths fall rise oks b))) =
     CheckFailures (stats b) + of_nat (count_list oks False)"
proof (induction oks arbitrary: b)
  case (Cons ok oks)
  have "CheckFailures (stats (fst (ReportHealth ok fall rise b))) =
      CheckFailures (stats b) + (if ok then 0 else 1)"
    by (simp add: ReportHealth_def Let_def add_CheckFailure_def)
  with Cons show ?case by (auto simp: split_beta)
qed simp


section \<open>The registry as an interface\<close>

text \<open>
  What the health checker and discovery rely on when they drain: the registry stays well formed,
  exactly the named backend loses its live connections, and the count is their number.
\<close>

locale conn_registry =
  fixes wf :: "'w \<Rightarrow> bool"
    and valid :: "'w \<Rightarrow> nat \<Rightarrow> bool"
    and live :: "'w \<Rightarrow> nat \<Rightarrow> nat set"
    and drain :: "nat \<Rightarrow> 'w \<Rightarrow> 'w \<times> nat"
  assumes wf_drain: "wf w \<Longrightarrow> valid w p \<Longrightarrow> wf (fst (drain p w))"
    and valid_drain: "wf w \<Longrightarrow> valid w p \<Longrightarrow> valid (fst (drain p w)) q = valid w q"
    and live_drain: "wf w \<Longrightarrow> valid w p \<Longrightarrow> valid w q \<Longrightarrow>
      live (fst (drain p w)) q = (if q = p then {} else live w q)"
    and drain_count: "wf w \<Longrightarrow> valid w p \<Longrightarrow> snd (drain p w) = card (live w p)"
begin

lemma drain_again: "wf w \<Longrightarrow> valid w p \<Longrightarrow> snd (drain p (fst (drain p w))) = 0"
  by (simp add: drain_count wf_drain valid_drain live_drain)

lemma drain_each:
  assumes "wf w" "\<forall>p \<in> set ps. valid w p"
  shows "wf (fold (\<lambda>p w. fst (drain p w)) ps w) \<and>
    (\<forall>q. valid (fold (\<lambda>p w. fst (drain p w)) ps w) q = valid w q) \<and>
    (\<forall>q. valid w q \<longrightarrow>
       live (fold (\<lambda>p w. fst (drain p w)) ps w) q = (if q \<in> set ps then {} else live w q))"
  using assms
proof (induction ps arbitrary: w)
  case (Cons p ps)
  let ?w = "fst (drain p w)"
  have "wf ?w" "\<forall>p \<in> set ps. valid ?w p"
    using Cons.prems by (simp_all add: wf_drain valid_drain)
  from Cons.IH [OF this] Cons.prems show ?case
    by (auto simp: valid_drain live_drain)
qed simp

end

lemma DrainAll_length [simp]: 
  "wf_world w \<Longrightarrow> p < length (bheap w) \<Longrightarrow> length (bheap (fst (DrainAll p w))) = length (bheap w)"
  by (simp add: DrainAll_closed_world upd_backend_def)

lemma DrainAll_count:
  "wf_world w \<Longrightarrow> p < length (bheap w) \<Longrightarrow> snd (DrainAll p w) = card (set (conns (bheap w ! p)))"
  by (simp add: DrainAll_closed_world ActiveConns_def distinct_card wf_distinct)

lemma wf_conns_disjoint:
  assumes "wf_world w" "p < length (bheap w)" "q < length (bheap w)" "q \<noteq> p"
    "c \<in> set (conns (bheap w ! q))"
  shows "c \<notin> set (conns (bheap w ! p))"
  using assms wf_conns_iff by metis

lemma DrainAll_bheap:
  assumes "wf_world w" "p < length (bheap w)" "q < length (bheap w)"
  shows "bheap (fst (DrainAll p w)) ! q =
    (if q = p then (add_Drained (ActiveConns (bheap w ! p)) (bheap w ! p))\<lparr>conns := []\<rparr>
     else bheap w ! q)"
  using assms wf_conns_disjoint [OF assms]
  by (simp add: DrainAll_closed_world upd_backend_def add_Drained_def filter_empty_conv)

interpretation reg: conn_registry wf_world "\<lambda>w p. p < length (bheap w)"
  "\<lambda>w p. set (conns (bheap w ! p))" DrainAll
  by unfold_locales (simp_all add: wf_DrainAll DrainAll_count DrainAll_bheap)


section \<open>Properties\<close>

text \<open>C2: The fall/rise counters implement the promise made on histories: after any sequence of
  probe results, a backend that started with \<open>New\<close> is healthy exactly when the specification over
  the history of results says so, for all thresholds the configuration accepts.\<close>

theorem health_refines_history:
  assumes "1 \<le> fall" and "1 \<le> rise"
  shows "Healthy (fst (ReportHealths fall rise oks (backend_New a))) =
    fst (fold (verdict_step (nat fall) (nat rise)) oks (True, []))"
proof -
  have "verdict_rel fall rise (backend_New a) (True, [])"
    using assms by (simp add: verdict_rel_def backend_New_def)
  from ReportHealths_verdict_rel [OF assms this] show ?thesis
    by (simp add: verdict_rel_def Healthy_def)
qed

theorem health_refines_history_witness:
  "Healthy (fst (ReportHealths 2 2 [False, False, True] (backend_New ''10.0.0.11:6443''))) =
     fst (fold (verdict_step (nat 2) (nat 2)) [False, False, True] (True, [])) \<and>
   \<not> fst (fold (verdict_step (nat 2) (nat 2)) [False, False, True] (True, []))"
  using health_refines_history [of 2 2 "[False, False, True]" "''10.0.0.11:6443''"]
  by (simp add: verdict_step_def numeral_2_eq_2)

text \<open>C19: A healthy backend is taken out of service by a sequence of probes exactly when \<open>fall\<close> failures in a row
  are completed in it, counting the failures in a row that came right before it (the counter); isolated
  failures, however many, never do it. Symmetrically an unhealthy one returns exactly when \<open>rise\<close> successes
  in a row are completed. \<open>health_inv\<close> holds of every backend the program can have.\<close>

theorem health_flip_iff_streak:
  assumes "1 \<le> fall" and "1 \<le> rise" and "health_inv fall rise b"
  shows "True \<in> set (snd (ReportHealths fall rise oks b)) \<longleftrightarrow>
    (if healthy b then sublist (replicate (nat fall) False) (replicate (nat (fails b)) False @ oks)
     else sublist (replicate (nat rise) True) (replicate (nat (rises b)) True @ oks))"
proof -
  have "nat (fails b) < nat fall" if "healthy b" using assms(3) that by (simp add: health_inv_def)
  moreover have "nat (rises b) < nat rise" if "\<not> healthy b" using assms(3) that by (simp add: health_inv_def)
  ultimately show ?thesis
    using assms ReportHealths_falls_streak [of fall b rise oks] ReportHealths_rises_streak [of rise b fall oks]
    by (simp add: streak_hit_iff health_inv_def)
qed

theorem health_flip_iff_streak_witness:
  "True \<in> set (snd (ReportHealths 2 2 [False] ((backend_New ''a:1'')\<lparr>fails := 1\<rparr>))) \<and>
   True \<notin> set (snd (ReportHealths 2 2 [False, True, False] (backend_New ''a:1'')))"
proof -
  have "sublist [False, False] ([False] @ [False])" by simp
  moreover have "\<not> sublist [False, False] [False, True, False]" by (simp add: sublist_Cons_right)
  ultimately show ?thesis
    using health_flip_iff_streak [of 2 2 "(backend_New ''a:1'')\<lparr>fails := 1\<rparr>" "[False]"]
      health_flip_iff_streak [of 2 2 "backend_New ''a:1''" "[False, True, False]"]
    by (simp add: backend_New_def health_inv_def numeral_2_eq_2)
qed

text \<open>C40: Whatever the probe results, the counters stay inside the thresholds (so the Go \<open>int\<close>
  counters never overflow), the inactive counter is zero, and \<open>CheckFailures\<close> has grown by the
  number of failed probes modulo \<open>2^64\<close>.\<close>

theorem health_counters_bounded:
  assumes "1 \<le> fall" and "1 \<le> rise"
  shows "health_inv fall rise (fst (ReportHealths fall rise oks (backend_New a))) \<and>
    CheckFailures (stats (fst (ReportHealths fall rise oks (backend_New a)))) =
      of_nat (count_list oks False)"
  using ReportHealths_inv [OF assms backend_New_inv [OF assms(1)]]
    ReportHealths_CheckFailures [of fall rise oks "backend_New a"]
  by (simp add: backend_New_def zero_Stats_def)

theorem health_counters_bounded_witness:
  "CheckFailures (stats (fst (ReportHealths 2 1 [False, True, False] (backend_New ''a:1'')))) = 2"
  using health_counters_bounded [of 2 1 "[False, True, False]" "''a:1''"] by simp


lemma example_world_simps:
  "bheap example_world =
     [(add_ConnTotal (backend_New ''10.0.0.11:6443''))\<lparr>conns := [0]\<rparr>,
      (add_ConnTotal (backend_New ''10.0.0.12:6443''))\<lparr>conns := [1]\<rparr>]"
  "theap example_world =
     [\<lparr>tc_Conn = 0, tc_backend = 0, tc_once = False\<rparr>, \<lparr>tc_Conn = 2, tc_backend = 1, tc_once = False\<rparr>]"
  "sheap example_world = replicate 3 \<lparr>closed = False, write_closed = False, has_CloseWrite = True, received = [], sent = []\<rparr>"
  by (simp_all add: example_world_def Let_def Track_simps backend_New_def add_ConnTotal_def)

lemma wf_example_world: "wf_world example_world"
  unfolding example_world_def Let_def
  by (intro wf_Track)
    (auto simp: wf_world_def Track_simps fresh_sock_def backend_New_def less_Suc_eq numeral_2_eq_2
      nth_Cons split: nat.splits)

text \<open>C8: Draining closes every connection that was in flight to the backend, empties its set,
  returns how many they were and adds that number to \<open>Drained\<close>; the state of every other backend
  and every connection tracked elsewhere is untouched, and the registry stays well formed.\<close>

theorem DrainAll_effect:
  assumes wf: "wf_world w" and p: "p < length (bheap w)" and d: "DrainAll p w = (w', n)"
  shows "n = ActiveConns (bheap w ! p) \<and>
    bheap w' ! p = (add_Drained n (bheap w ! p))\<lparr>conns := []\<rparr> \<and>
    (\<forall>q < length (bheap w). q \<noteq> p \<longrightarrow> bheap w' ! q = bheap w ! q) \<and>
    (\<forall>tc < length (theap w). closed (sheap w' ! tc_Conn (theap w ! tc)) \<longleftrightarrow>
       tc \<in> set (conns (bheap w ! p)) \<or> closed (sheap w ! tc_Conn (theap w ! tc))) \<and>
    wf_world w'"
proof -
  have w': "w' = fst (DrainAll p w)" and n: "n = ActiveConns (bheap w ! p)"
    using d by (auto simp: DrainAll_closed_world [OF wf p])
  have "closed (sheap w' ! tc_Conn (theap w ! tc)) \<longleftrightarrow>
      tc \<in> set (conns (bheap w ! p)) \<or> closed (sheap w ! tc_Conn (theap w ! tc))"
    if tc: "tc < length (theap w)" for tc
  proof -
    have "tc < length (theap w')" "tc_Conn (theap w' ! tc) = tc_Conn (theap w ! tc)"
      "tc_once (theap w' ! tc) \<longleftrightarrow> tc \<in> set (conns (bheap w ! p)) \<or> tc_once (theap w ! tc)"
      using tc by (simp_all add: w' DrainAll_closed_world [OF wf p] upd_backend_def)
    then show ?thesis
      using wf_tracked(3) [OF wf_DrainAll [OF wf p], of tc] wf_tracked(3) [OF wf tc] w' by simp
  qed
  then show ?thesis
    using n wf_DrainAll [OF wf p] DrainAll_bheap [OF wf p] p w' by simp
qed

theorem DrainAll_effect_witness:
  "wf_world example_world \<and> 0 < length (bheap example_world) \<and>
   snd (DrainAll 0 example_world) = 1 \<and>
   conns (bheap (fst (DrainAll 0 example_world)) ! 0) = [] \<and>
   closed (sheap (fst (DrainAll 0 example_world)) ! 0)"
proof -
  have p: "0 < length (bheap example_world)" by (simp add: example_world_simps)
  have "DrainAll 0 example_world = (fst (DrainAll 0 example_world), snd (DrainAll 0 example_world))"
    by simp
  from DrainAll_effect [OF wf_example_world p this] wf_example_world show ?thesis
    by (auto simp: example_world_simps ActiveConns_def)
qed

text \<open>Closing a tracked connection twice is harmless: the first call removes it from its
  backend's set and closes the network connection without error, the second returns \<open>ErrClosed\<close> and
  changes nothing, so the set always holds exactly the connections that are still open.\<close>

theorem Close_once:
  assumes wf: "wf_world w" and tc: "tc < length (theap w)" and live: "\<not> tc_once (theap w ! tc)"
  shows "snd (Close tc w) = None \<and>
    tc \<notin> set (conns (bheap (fst (Close tc w)) ! tc_backend (theap w ! tc))) \<and>
    closed (sheap (fst (Close tc w)) ! tc_Conn (theap w ! tc)) \<and>
    Close tc (fst (Close tc w)) = (fst (Close tc w), Some ErrClosed)"
proof -
  note t = wf_tracked [OF wf tc]
  have first: "snd (Close tc w) = None"
    using live tc t by (simp add: Close_def tc_unregister_def sock_Close_def upd_backend_def Let_def)
  have "closed (sheap (closed_world {tc} w) ! tc_Conn (theap w ! tc))"
    "tc_once (theap (closed_world {tc} w) ! tc)"
    using tc t by auto
  then have "Close tc (closed_world {tc} w) = (closed_world {tc} w, Some ErrClosed)"
    using tc by (simp add: Close_def tc_unregister_def sock_Close_def)
  with first t tc show ?thesis
    by (auto simp: Close_closed_world [OF wf tc])
qed

theorem Close_once_witness:
  "wf_world example_world \<and> Close 1 (fst (Close 1 example_world)) = (fst (Close 1 example_world), Some ErrClosed)"
  using Close_once [OF wf_example_world, of 1] wf_example_world by (simp add: example_world_simps)

end
