(* ===== verification/Pool.thy ===== *)
theory Pool
  imports Backend
begin

text \<open>
  \<^verbatim>\<open>src/internal/backend/pool.go\<close>: the current backend set, its reconciliation with a new address
  list, and the two balancing strategies behind the \<open>Picker\<close> interface.

  The pool holds pointers into \<open>bheap\<close>, so a backend that \<open>SetAddrs\<close> keeps is the same object, with
  its health and its connections, before and after. \<open>Order\<close> divides by the number of candidates and
  panics on an empty list; the model returns that panic as an error, and \<open>Candidates\<close> is shown never
  to cause it. The \<open>Picker\<close> contract of the source ("every input backend exactly once") is the locale
  \<open>picker\<close>, interpreted on both strategies and on the dispatching \<open>Order\<close>.
\<close>

section \<open>State\<close>

datatype go_panic = DivideByZero

record roundRobin =
  rr_next :: u64

record leastConn =
  rr :: roundRobin

datatype Picker = RoundRobin roundRobin | LeastConn leastConn

record Pool =
  backends :: "bid list"
  pool_picker :: Picker

datatype pool_error = UnknownBalance string


section \<open>Balancing strategies\<close>

definition newPicker :: "string \<Rightarrow> (pool_error, Picker) res" where
  "newPicker name =
     (if name = ''round-robin'' then Inr (RoundRobin \<lparr>rr_next = 0\<rparr>)
      else if name = ''least-conn'' then Inr (LeastConn \<lparr>rr = \<lparr>rr_next = 0\<rparr>\<rparr>)
      else Inl (UnknownBalance name))"

definition Picker_Name :: "Picker \<Rightarrow> string" where
  "Picker_Name p = (case p of RoundRobin _ \<Rightarrow> ''round-robin'' | LeastConn _ \<Rightarrow> ''least-conn'')"

definition roundRobin_Order :: "roundRobin \<Rightarrow> 'a list \<Rightarrow> (go_panic, roundRobin \<times> 'a list) res" where
  "roundRobin_Order r hs =
     (let n = length hs; r = r\<lparr>rr_next := rr_next r + 1\<rparr> in
      if n = 0 then Inl DivideByZero
      else
        let start = unat ((rr_next r - 1) mod of_nat n)
        in Inr (r, map (\<lambda>i. hs ! ((start + i) mod n)) [0..<n]))"

definition leastConn_Order :: "world \<Rightarrow> leastConn \<Rightarrow> bid list \<Rightarrow> (go_panic, leastConn \<times> bid list) res" where
  "leastConn_Order w l hs =
     res_bind (roundRobin_Order (rr l) hs)
       (\<lambda>(r, out). Inr (l\<lparr>rr := r\<rparr>, sort_key (\<lambda>p. ActiveConns (bheap w ! p)) out))"

definition Picker_Order :: "world \<Rightarrow> Picker \<Rightarrow> bid list \<Rightarrow> (go_panic, Picker \<times> bid list) res" where
  "Picker_Order w pk hs =
     (case pk of
        RoundRobin r \<Rightarrow> res_bind (roundRobin_Order r hs) (\<lambda>(r', out). Inr (RoundRobin r', out))
      | LeastConn l \<Rightarrow> res_bind (leastConn_Order w l hs) (\<lambda>(l', out). Inr (LeastConn l', out)))"

text \<open>The heads of \<open>k\<close> successive orders of the same candidates: who gets each connection.\<close>

fun first_picks :: "nat \<Rightarrow> roundRobin \<Rightarrow> 'a list \<Rightarrow> (go_panic, 'a list) res" where
  "first_picks 0 r hs = Inr []"
| "first_picks (Suc k) r hs =
     res_bind (roundRobin_Order r hs)
       (\<lambda>(r', out). res_bind (first_picks k r' hs) (\<lambda>ps. Inr (hd out # ps)))"


section \<open>Pool operations\<close>

definition alloc_backend :: "string \<Rightarrow> world \<Rightarrow> world \<times> bid" where
  "alloc_backend a w = (w\<lparr>bheap := bheap w @ [backend_New a]\<rparr>, length (bheap w))"

fun alloc_backends :: "string list \<Rightarrow> world \<Rightarrow> world \<times> bid list" where
  "alloc_backends [] w = (w, [])"
| "alloc_backends (a # as) w =
     (let (w, p) = alloc_backend a w; (w, ps) = alloc_backends as w in (w, p # ps))"

definition NewPool :: "string list \<Rightarrow> string \<Rightarrow> world \<Rightarrow> (pool_error, world \<times> Pool) res" where
  "NewPool addrs pickerName w =
     res_bind (newPicker pickerName)
       (\<lambda>picker. let (w, ps) = alloc_backends addrs w
                 in Inr (w, \<lparr>backends = ps, pool_picker = picker\<rparr>))"

definition Backends :: "Pool \<Rightarrow> bid list" where
  "Backends p = backends p"

definition HealthyCount :: "world \<Rightarrow> Pool \<Rightarrow> nat" where
  "HealthyCount w p = length (filter (\<lambda>b. Healthy (bheap w ! b)) (Backends p))"

definition Candidates :: "world \<Rightarrow> Pool \<Rightarrow> (go_panic, Pool \<times> bid list \<times> bool) res" where
  "Candidates w p =
     (let all = Backends p; hs = filter (\<lambda>b. Healthy (bheap w ! b)) all in
      if length hs = 0 then Inr (p, all, True)
      else res_bind (Picker_Order w (pool_picker p) hs)
             (\<lambda>(pk, order). Inr (p\<lparr>pool_picker := pk\<rparr>, order, False)))"

text \<open>The loop of \<open>SetAddrs\<close> over the new addresses: it extends \<open>next\<close> and \<open>added\<close>.\<close>

fun reconcile_addrs ::
  "(string \<rightharpoonup> bid) \<Rightarrow> string list \<Rightarrow> world \<Rightarrow> bid list \<Rightarrow> bid list \<Rightarrow> world \<times> bid list \<times> bid list" where
  "reconcile_addrs current [] w next added = (w, next, added)"
| "reconcile_addrs current (a # as) w next added =
     (case current a of
        Some b \<Rightarrow> reconcile_addrs current as w (next @ [b]) added
      | None \<Rightarrow>
          let (w, b) = alloc_backend a w
          in reconcile_addrs current as w (next @ [b]) (added @ [b]))"

definition SetAddrs :: "string list \<Rightarrow> world \<Rightarrow> Pool \<Rightarrow> world \<times> Pool \<times> bid list \<times> bid list" where
  "SetAddrs addrs w p =
     (let current = fold (\<lambda>b m. m(Addr (bheap w ! b) \<mapsto> b)) (backends p) Map.empty;
          (w', next, added) = reconcile_addrs current addrs w [] [];
          keep = (\<lambda>a. a \<in> set addrs);
          removed = filter (\<lambda>b. \<not> keep (Addr (bheap w ! b))) (backends p)
      in (w', p\<lparr>backends := next\<rparr>, added, removed))"


section \<open>Invariants and abstraction\<close>

text \<open>Pointers are valid and no address occurs twice.\<close>

definition pool_addrs :: "world \<Rightarrow> Pool \<Rightarrow> string list" where
  "pool_addrs w p = map (\<lambda>b. Addr (bheap w ! b)) (backends p)"

definition pool_inv :: "world \<Rightarrow> Pool \<Rightarrow> bool" where
  "pool_inv w p \<longleftrightarrow> set (backends p) \<subseteq> {..<length (bheap w)} \<and> distinct (pool_addrs w p)"


text \<open>Which pointer each new address gets: the current one, or the next free one.\<close>

fun assign :: "(string \<rightharpoonup> bid) \<Rightarrow> bid \<Rightarrow> string list \<Rightarrow> bid list" where
  "assign cur n [] = []"
| "assign cur n (a # as) =
     (case cur a of Some b \<Rightarrow> b # assign cur n as | None \<Rightarrow> n # assign cur (Suc n) as)"


section \<open>The picker contract\<close>

text \<open>
  "The returned slice must contain every input backend exactly once": with that, trying the
  candidates in order finds a reachable one whenever there is one, whatever the strategy.
  A Go slice has fewer than \<open>2^63\<close> elements.
\<close>

locale picker =
  fixes Order :: "'st \<Rightarrow> 'b list \<Rightarrow> ('e, 'st \<times> 'b list) res"
  assumes Order_defined: "hs \<noteq> [] \<Longrightarrow> length hs < 2 ^ 63 \<Longrightarrow> \<exists>st' out. Order st hs = Inr (st', out)"
    and Order_mset: "length hs < 2 ^ 63 \<Longrightarrow> Order st hs = Inr (st', out) \<Longrightarrow> mset out = mset hs"
begin

lemma Order_set: "length hs < 2 ^ 63 \<Longrightarrow> Order st hs = Inr (st', out) \<Longrightarrow> set out = set hs"
  by (metis Order_mset mset_eq_setD)

lemma Order_distinct:
  "length hs < 2 ^ 63 \<Longrightarrow> Order st hs = Inr (st', out) \<Longrightarrow> distinct out = distinct hs"
  by (metis Order_mset mset_eq_imp_distinct_iff)

lemma Order_finds:
  "length hs < 2 ^ 63 \<Longrightarrow> Order st hs = Inr (st', out) \<Longrightarrow>
     find reachable out = None \<longleftrightarrow> (\<forall>b \<in> set hs. \<not> reachable b)"
  by (metis Order_set find_None_iff)

end

lemma roundRobin_Order_rotate:
  assumes "hs \<noteq> []" "length hs < 2 ^ 63"
  shows "roundRobin_Order r hs =
    Inr (r\<lparr>rr_next := rr_next r + 1\<rparr>, rotate (unat (rr_next r) mod length hs) hs)"
proof -
  have "length hs < 2 ^ LENGTH(64)" using assms(2) by simp
  then have "unat (rr_next r mod of_nat (length hs)) = unat (rr_next r) mod length hs"
    by (simp only: unat_mod_distrib unat_of_nat) simp
  moreover have "map (\<lambda>i. hs ! ((s + i) mod length hs)) [0..<length hs] = rotate s hs" for s
    by (rule nth_equalityI) (simp_all add: nth_rotate)
  ultimately show ?thesis
    using assms(1) by (simp add: roundRobin_Order_def Let_def)
qed

interpretation rrp: picker "roundRobin_Order :: roundRobin \<Rightarrow> 'a list \<Rightarrow> _"
proof unfold_locales
  fix hs out :: "'a list" and st st'
  assume small: "length hs < 2 ^ 63"
  show "\<exists>st' out. roundRobin_Order st hs = Inr (st', out)" if "hs \<noteq> []"
    using roundRobin_Order_rotate [OF that small] by simp
  show "mset out = mset hs" if o: "roundRobin_Order st hs = Inr (st', out)"
  proof -
    have "hs \<noteq> []" using o by (auto simp: roundRobin_Order_def)
    with o roundRobin_Order_rotate [OF this small] show ?thesis by auto
  qed
qed

interpretation lcp: picker "leastConn_Order w" for w
proof unfold_locales
  fix hs out :: "bid list" and st st'
  assume small: "length hs < 2 ^ 63"
  show "\<exists>st' out. leastConn_Order w st hs = Inr (st', out)" if "hs \<noteq> []"
    using rrp.Order_defined [OF that small, of "rr st"] by (auto simp: leastConn_Order_def)
  show "mset out = mset hs" if "leastConn_Order w st hs = Inr (st', out)"
    using that rrp.Order_mset [OF small] by (auto simp: leastConn_Order_def res_bind_Inr_iff)
qed

interpretation pkp: picker "Picker_Order w" for w
proof unfold_locales
  fix hs out :: "bid list" and st st'
  assume small: "length hs < 2 ^ 63"
  show "\<exists>st' out. Picker_Order w st hs = Inr (st', out)" if ne: "hs \<noteq> []"
  proof (cases st)
    case (RoundRobin r)
    with rrp.Order_defined [OF ne small, of r] show ?thesis by (auto simp: Picker_Order_def)
  next
    case (LeastConn l)
    with lcp.Order_defined [OF ne small, of w l] show ?thesis by (auto simp: Picker_Order_def)
  qed
  show "mset out = mset hs" if "Picker_Order w st hs = Inr (st', out)"
    using that rrp.Order_mset [OF small] lcp.Order_mset [OF small]
    by (auto simp: Picker_Order_def res_bind_Inr_iff split: Picker.splits)
qed



section \<open>Candidates\<close>

lemma Candidates_healthy:
  assumes "length (backends p) < 2 ^ 63" "filter (\<lambda>b. Healthy (bheap w ! b)) (backends p) \<noteq> []"
  obtains pk order where "Candidates w p = Inr (p\<lparr>pool_picker := pk\<rparr>, order, False)"
    "mset order = mset (filter (\<lambda>b. Healthy (bheap w ! b)) (backends p))"
    "Picker_Order w (pool_picker p) (filter (\<lambda>b. Healthy (bheap w ! b)) (backends p)) = Inr (pk, order)"
proof -
  let ?hs = "filter (\<lambda>b. Healthy (bheap w ! b)) (backends p)"
  have small: "length ?hs < 2 ^ 63" using assms(1) length_filter_le le_less_trans by blast
  from pkp.Order_defined [OF assms(2) small, of w "pool_picker p"] obtain pk order
    where o: "Picker_Order w (pool_picker p) ?hs = Inr (pk, order)" by blast
  show ?thesis
  proof (rule that)
    show "Candidates w p = Inr (p\<lparr>pool_picker := pk\<rparr>, order, False)"
      using assms(2) o by (simp add: Candidates_def Backends_def)
    show "mset order = mset ?hs" by (rule pkp.Order_mset [OF small o])
  qed (rule o)
qed

lemma Candidates_degraded:
  "filter (\<lambda>b. Healthy (bheap w ! b)) (backends p) = [] \<Longrightarrow> Candidates w p = Inr (p, backends p, True)"
  by (simp add: Candidates_def Backends_def)

lemma HealthyCount_0_iff:
  "HealthyCount w p = 0 \<longleftrightarrow> filter (\<lambda>b. Healthy (bheap w ! b)) (backends p) = []"
  by (simp add: HealthyCount_def Backends_def)

lemma Candidates_cases:
  assumes "length (backends p) < 2 ^ 63"
  obtains pk order degraded where "Candidates w p = Inr (p\<lparr>pool_picker := pk\<rparr>, order, degraded)"
    "degraded \<longleftrightarrow> HealthyCount w p = 0" "set order \<subseteq> set (backends p)"
    "degraded \<Longrightarrow> order = backends p" 
    "\<not> degraded \<Longrightarrow> mset order = mset (filter (\<lambda>b. Healthy (bheap w ! b)) (backends p))"
proof (cases "filter (\<lambda>b. Healthy (bheap w ! b)) (backends p) = []")
  case True
  then have "Candidates w p = Inr (p\<lparr>pool_picker := pool_picker p\<rparr>, backends p, True)"
    by (simp add: Candidates_degraded)
  then show ?thesis
  proof (rule that)
    show "True \<longleftrightarrow> HealthyCount w p = 0" using True by (simp add: HealthyCount_0_iff)
  qed simp_all
next
  case False
  from Candidates_healthy [OF assms False] obtain pk order
    where c: "Candidates w p = Inr (p\<lparr>pool_picker := pk\<rparr>, order, False)"
      and m: "mset order = mset (filter (\<lambda>b. Healthy (bheap w ! b)) (backends p))" by metis
  from c show ?thesis
  proof (rule that)
    show "False \<longleftrightarrow> HealthyCount w p = 0" using False by (simp add: HealthyCount_0_iff)
    show "set order \<subseteq> set (backends p)" using mset_eq_setD [OF m] by auto
  qed (simp_all add: m)
qed


section \<open>Reconciliation\<close>

lemma fold_map_upd_Some:
  "distinct (map f bs) \<Longrightarrow>
     fold (\<lambda>b m. m(f b \<mapsto> b)) bs m a = Some b \<longleftrightarrow> (b \<in> set bs \<and> f b = a) \<or> (a \<notin> f ` set bs \<and> m a = Some b)"
  by (induction bs arbitrary: m) auto

lemma reconcile_addrs_world:
  assumes "reconcile_addrs cur as w nx ad = (w', nx', ad')"
  shows "w' = w\<lparr>bheap := bheap w @ map backend_New (filter (\<lambda>a. cur a = None) as)\<rparr>"
  using assms
proof (induction cur as w nx ad rule: reconcile_addrs.induct)
  case (2 cur a as w nx ad)
  then show ?case by (cases "cur a") (auto simp: alloc_backend_def)
qed simp

lemma reconcile_addrs_next:
  assumes "reconcile_addrs cur as w nx ad = (w', nx', ad')"
  shows "nx' = nx @ assign cur (length (bheap w)) as \<and>
    ad' = ad @ [length (bheap w)..<length (bheap w')]"
  using assms
proof (induction cur as w nx ad rule: reconcile_addrs.induct)
  case (2 cur a as w nx ad)
  have "length (bheap w) < length (bheap w')" if "cur a = None"
    using reconcile_addrs_world [OF "2.prems"] that by simp
  with 2 show ?case
    by (cases "cur a") (auto simp: alloc_backend_def upt_conv_Cons)
qed simp

lemma set_assign:
  "set (assign cur n as) =
     {b. \<exists>a \<in> set as. cur a = Some b} \<union> {n..<n + length (filter (\<lambda>a. cur a = None) as)}"
proof (induction as arbitrary: n)
  case (Cons a as)
  show ?case
  proof (cases "cur a")
    case None
    have "insert n {Suc n..<Suc n + k} = {n..<n + Suc k}" for k by auto
    with None Cons show ?thesis by auto
  next
    case (Some b)
    with Cons show ?thesis by auto
  qed
qed simp

lemma map_assign:
  assumes "\<And>a b. cur a = Some b \<Longrightarrow> f b = a"
    and "map f [n..<n + length (filter (\<lambda>a. cur a = None) as)] = filter (\<lambda>a. cur a = None) as"
  shows "map f (assign cur n as) = as"
  using assms(2)
proof (induction as arbitrary: n)
  case (Cons a as)
  show ?case
  proof (cases "cur a")
    case None
    have "[n..<n + Suc k] = n # [Suc n..<Suc n + k]" for k by (simp add: upt_conv_Cons)
    with None Cons.prems have "f n = a"
      "map f [Suc n..<Suc n + length (filter (\<lambda>a. cur a = None) as)] = filter (\<lambda>a. cur a = None) as"
      by (simp_all del: upt_Suc)
    with None Cons.IH [of "Suc n"] show ?thesis by simp
  next
    case (Some b)
    with Cons assms(1) show ?thesis by simp
  qed
qed simp


lemma pool_current:
  assumes "pool_inv w p"
  shows "fold (\<lambda>b m. m(Addr (bheap w ! b) \<mapsto> b)) (backends p) Map.empty a = Some b \<longleftrightarrow>
    b \<in> set (backends p) \<and> Addr (bheap w ! b) = a"
  using assms fold_map_upd_Some [of "\<lambda>b. Addr (bheap w ! b)" "backends p" Map.empty a b]
  by (simp add: pool_inv_def pool_addrs_def)

text \<open>Everything \<open>SetAddrs\<close> does, for a list without duplicates.\<close>

lemma SetAddrs_spec:
  assumes inv: "pool_inv w p" and dist: "distinct addrs"
    and s: "SetAddrs addrs w p = (w', p', added, removed)"
  defines "news \<equiv> filter (\<lambda>a. a \<notin> set (pool_addrs w p)) addrs"
  shows "w' = w\<lparr>bheap := bheap w @ map backend_New news\<rparr>"
    "pool_addrs w' p' = addrs"
    "set (backends p') =
       {b \<in> set (backends p). Addr (bheap w ! b) \<in> set addrs} \<union> {length (bheap w)..<length (bheap w')}"
    "added = [length (bheap w)..<length (bheap w')]"
    "removed = filter (\<lambda>b. Addr (bheap w ! b) \<notin> set addrs) (backends p)"
    "pool_picker p' = pool_picker p"
proof -
  define cur where "cur = fold (\<lambda>b m. m(Addr (bheap w ! b) \<mapsto> b)) (backends p) Map.empty"
  have cur: "cur a = Some b \<longleftrightarrow> b \<in> set (backends p) \<and> Addr (bheap w ! b) = a" for a b
    unfolding cur_def by (rule pool_current [OF inv])
  have cur_None: "cur a = None \<longleftrightarrow> a \<notin> set (pool_addrs w p)" for a
  proof -
    have "cur a \<noteq> None \<longleftrightarrow> (\<exists>b \<in> set (backends p). Addr (bheap w ! b) = a)"
      using cur [of a] by blast
    then show ?thesis by (auto simp: pool_addrs_def)
  qed
  obtain nx where r: "reconcile_addrs cur addrs w [] [] = (w', nx, added)"
    and p': "p' = p\<lparr>backends := nx\<rparr>"
    and rm: "removed = filter (\<lambda>b. Addr (bheap w ! b) \<notin> set addrs) (backends p)"
    using s by (auto simp: SetAddrs_def cur_def Let_def split: prod.splits)
  show w': "w' = w\<lparr>bheap := bheap w @ map backend_New news\<rparr>"
    using reconcile_addrs_world [OF r] by (simp add: news_def cur_None)
  note nx = reconcile_addrs_next [OF r]
  have valid: "b < length (bheap w)" if "cur a = Some b" for a b
    using that cur inv by (auto simp: pool_inv_def)
  have "map (\<lambda>b. Addr (bheap w' ! b)) nx = addrs"
  proof -
    have "Addr (bheap w' ! b) = a" if "cur a = Some b" for a b
      using cur that valid [OF that] w' by (simp add: nth_append)
    moreover have "map (\<lambda>b. Addr (bheap w' ! b)) [length (bheap w)..<length (bheap w) + length news] = news"
      by (rule nth_equalityI) (simp_all add: w' nth_append Addr_def backend_New_def)
    ultimately show ?thesis
      using nx map_assign [of cur "\<lambda>b. Addr (bheap w' ! b)" "length (bheap w)" addrs]
      by (simp add: news_def cur_None)
  qed
  then show "pool_addrs w' p' = addrs" by (simp add: pool_addrs_def p')
  show "set (backends p') = {b \<in> set (backends p). Addr (bheap w ! b) \<in> set addrs} \<union>
      {length (bheap w)..<length (bheap w')}"
    using nx by (auto simp: p' set_assign cur w' news_def cur_None)
  show "added = [length (bheap w)..<length (bheap w')]" using nx by simp
  show "removed = filter (\<lambda>b. Addr (bheap w ! b) \<notin> set addrs) (backends p)" by (rule rm)
  show "pool_picker p' = pool_picker p" by (simp add: p')
qed

lemma SetAddrs_inv:
  assumes "pool_inv w p" "distinct addrs" "SetAddrs addrs w p = (w', p', added, removed)"
  shows "pool_inv w' p'"
  using assms(1,2) SetAddrs_spec [OF assms] by (auto simp: pool_inv_def)

lemma wf_alloc [wf_intros]: "wf_world w \<Longrightarrow> wf_world (w\<lparr>bheap := bheap w @ map backend_New as\<rparr>)"
proof -
  assume wf: "wf_world w"
  have "conns ((bheap w @ map backend_New as) ! p) = []"
    if "p < length (bheap w) + length as" "\<not> p < length (bheap w)" for p
    using that by (simp add: nth_append backend_New_def)
  moreover have "tc_backend (theap w ! tc) \<noteq> p" if "tc < length (theap w)" "\<not> p < length (bheap w)" for tc p
    using that wf_tracked(2) [OF wf] by auto
  ultimately show ?thesis
    using wf unfolding wf_world_def
    by (auto simp: nth_append trans_less_add1)
qed

lemma alloc_backends_result:
  "alloc_backends as w =
     (w\<lparr>bheap := bheap w @ map backend_New as\<rparr>, [length (bheap w)..<length (bheap w) + length as])"
proof (induction as arbitrary: w)
  case (Cons a as)
  have "[n..<n + Suc k] = n # [Suc n..<Suc n + k]" for n k by (simp add: upt_conv_Cons)
  with Cons show ?case by (simp add: alloc_backend_def del: upt_Suc)
qed simp


section \<open>Rotation over many connections\<close>

lemma first_picks_map:
  assumes "hs \<noteq> []" "length hs < 2 ^ 63" "unat (rr_next r) + m < 2 ^ 64"
  shows "first_picks m r hs = Inr (map (\<lambda>j. hs ! ((unat (rr_next r) + j) mod length hs)) [0..<m])"
  using assms(3)
proof (induction m arbitrary: r)
  case (Suc m)
  let ?c = "unat (rr_next r)" and ?r = "r\<lparr>rr_next := rr_next r + 1\<rparr>"
  have next': "unat (rr_next r + 1) = Suc ?c"
    using Suc.prems by (simp add: unat_word_ariths)
  have "first_picks m ?r hs = Inr (map (\<lambda>j. hs ! ((Suc ?c + j) mod length hs)) [0..<m])"
    using Suc.IH [of ?r] Suc.prems next' by simp
  moreover have "[0..<Suc m] = 0 # map Suc [0..<m]"
    by (simp add: upt_conv_Cons map_Suc_upt del: upt_Suc)
  ultimately show ?case
    using assms(1,2) by (simp add: roundRobin_Order_rotate hd_rotate_conv_nth del: upt_Suc)
qed simp

lemma mset_rotation_block: "mset (map (\<lambda>j. hs ! ((c + j) mod length hs)) [0..<length hs]) = mset hs"
proof -
  have "map (\<lambda>j. hs ! ((c + j) mod length hs)) [0..<length hs] = rotate c hs"
    by (rule nth_equalityI) (simp_all add: nth_rotate)
  then show ?thesis by simp
qed

lemma mset_rotation_blocks:
  "mset (map (\<lambda>j. hs ! ((c + j) mod length hs)) [0..<k * length hs]) = repeat_mset k (mset hs)"
proof (induction k)
  case (Suc k)
  let ?n = "length hs"
  have split: "[0..<Suc k * ?n] = [0..<k * ?n] @ map (\<lambda>j. k * ?n + j) [0..<?n]"
    using upt_add_eq_append [of 0 "k * ?n" ?n] map_add_upt [of "k * ?n" ?n]
    by (simp add: add.commute del: upt_Suc)
  have "(c + (k * ?n + j)) mod ?n = (c + j) mod ?n" for j
    using mod_mult_self3 [of k ?n "c + j"] by (simp add: add.left_commute)
  then have "mset (map (\<lambda>j. hs ! ((c + j) mod ?n)) [0..<Suc k * ?n]) =
      repeat_mset k (mset hs) + mset (map (\<lambda>j. hs ! ((c + j) mod ?n)) [0..<?n])"
    using Suc by (simp only: split map_append mset_append map_map comp_def)
  then show ?case by (simp only: mset_rotation_block) simp
qed simp


section \<open>Properties\<close>

text \<open>C3: \<open>Candidates\<close> never panics and never loses a backend: with a healthy backend it returns
  every healthy one exactly once in the strategy's order and no unhealthy one; with none it falls
  back to all backends in list order and says so.\<close>

theorem Candidates_complete:
  assumes "length (backends p) < 2 ^ 63"
  shows "\<exists>pk order. Candidates w p = Inr (p\<lparr>pool_picker := pk\<rparr>, order, HealthyCount w p = 0) \<and>
    (if HealthyCount w p = 0 then order = backends p
     else mset order = mset (filter (\<lambda>b. Healthy (bheap w ! b)) (backends p)))"
  by (rule Candidates_cases [OF assms, of w]) auto

theorem Candidates_complete_witness:
  "\<exists>pk order. Candidates example_world \<lparr>backends = [0, 1], pool_picker = RoundRobin \<lparr>rr_next = 1\<rparr>\<rparr> =
     Inr (\<lparr>backends = [0, 1], pool_picker = pk\<rparr>, order, False) \<and> mset order = {#0, 1#}"
  using Candidates_complete [of "\<lparr>backends = [0, 1], pool_picker = RoundRobin \<lparr>rr_next = 1\<rparr>\<rparr>" example_world]
  by (auto simp: HealthyCount_def Backends_def Healthy_def example_world_simps backend_New_def
      add_ConnTotal_def)

text \<open>C20: Round robin is fair: over \<open>k\<close> full rounds of connections to the same \<open>n\<close> candidates, from
  any position of the counter that does not wrap around \<open>2^64\<close> on the way, each candidate is tried
  first exactly \<open>k\<close> times.\<close>

theorem roundRobin_fair:
  assumes "hs \<noteq> []" and "length hs < 2 ^ 63" and "unat (rr_next r) + k * length hs < 2 ^ 64"
  shows "\<exists>ps. first_picks (k * length hs) r hs = Inr ps \<and> mset ps = repeat_mset k (mset hs)"
  using first_picks_map [OF assms] mset_rotation_blocks by blast

theorem roundRobin_fair_witness:
  "\<exists>ps. first_picks (2 * length [10, 11, 12 :: nat]) \<lparr>rr_next = 7\<rparr> [10, 11, 12 :: nat] = Inr ps \<and>
     mset ps = repeat_mset 2 {#10, 11, 12#}"
  using roundRobin_fair [of "[10, 11, 12 :: nat]" "\<lparr>rr_next = 7\<rparr>" 2] by simp

text \<open>C21: Least-conn orders the candidates by the number of in-flight connections, and backends with
  equally many connections keep the order of the round-robin rotation, so that they share a burst.
  The strategy is defined for every counter value, also where the \<open>uint64\<close> counter wraps.\<close>

theorem leastConn_sorted_stable:
  assumes "hs \<noteq> []" and "length hs < 2 ^ 63"
  shows "\<exists>out. leastConn_Order w l hs = Inr (\<lparr>rr = \<lparr>rr_next = rr_next (rr l) + 1\<rparr>\<rparr>, out) \<and>
    sorted (map (\<lambda>p. ActiveConns (bheap w ! p)) out) \<and> mset out = mset hs \<and>
    (\<forall>k. filter (\<lambda>p. ActiveConns (bheap w ! p) = k) out =
         filter (\<lambda>p. ActiveConns (bheap w ! p) = k)
           (rotate (unat (rr_next (rr l)) mod length hs) hs))"
  using roundRobin_Order_rotate [OF assms, of "rr l"]
  by (simp add: leastConn_Order_def sort_key_stable)

theorem leastConn_sorted_stable_witness:
  "\<exists>out. leastConn_Order example_world \<lparr>rr = \<lparr>rr_next = - 1\<rparr>\<rparr> [0, 1] = Inr (\<lparr>rr = \<lparr>rr_next = 0\<rparr>\<rparr>, out) \<and>
     mset out = {#0, 1#}"
  using leastConn_sorted_stable [of "[0, 1]" example_world "\<lparr>rr = \<lparr>rr_next = - 1\<rparr>\<rparr>"] by auto

text \<open>C15: \<open>SetAddrs\<close> makes the pool hold exactly the new addresses, in their order, and keeps its
  invariant. A backend whose address stays is the same object with its whole state; no existing
  object, in the pool or not, is modified. \<open>removed\<close> is exactly what left the pool, \<open>added\<close> exactly
  what entered it, and each added backend is in its initial state.\<close>

theorem SetAddrs_reconciles:
  assumes inv: "pool_inv w p" and dist: "distinct addrs"
    and s: "SetAddrs addrs w p = (w', p', added, removed)"
  shows "pool_addrs w' p' = addrs \<and> pool_inv w' p' \<and>
    (\<forall>b < length (bheap w). bheap w' ! b = bheap w ! b) \<and>
    (\<forall>b \<in> set (backends p). b \<in> set (backends p') \<longleftrightarrow> Addr (bheap w ! b) \<in> set addrs) \<and>
    set removed = set (backends p) - set (backends p') \<and>
    set added = set (backends p') - set (backends p) \<and>
    (\<forall>b \<in> set added. bheap w' ! b = backend_New (Addr (bheap w' ! b)))"
proof -
  note spec = SetAddrs_spec [OF assms]
  have valid: "b \<notin> {length (bheap w)..<length (bheap w')}" if "b \<in> set (backends p)" for b
    using that inv by (auto simp: pool_inv_def)
  then have "set (backends p) - set (backends p') = {b \<in> set (backends p). Addr (bheap w ! b) \<notin> set addrs}"
    "set (backends p') - set (backends p) = {length (bheap w)..<length (bheap w')}"
    "\<forall>b \<in> set (backends p). b \<in> set (backends p') \<longleftrightarrow> Addr (bheap w ! b) \<in> set addrs"
    unfolding spec(3) by blast+
  moreover have "bheap w' ! b = backend_New (Addr (bheap w' ! b))" if "b \<in> set added" for b
    using that by (auto simp: spec(1,4) nth_append Addr_def backend_New_def)
  moreover have "bheap w' ! b = bheap w ! b" if "b < length (bheap w)" for b
    using that by (simp add: spec(1) nth_append)
  ultimately show ?thesis
    using spec(2) SetAddrs_inv [OF assms] by (simp add: spec(4,5))
qed

theorem SetAddrs_reconciles_witness:
  "pool_addrs (fst (SetAddrs [''10.0.0.12:6443'', ''10.0.0.13:6443''] example_world
      \<lparr>backends = [0, 1], pool_picker = RoundRobin \<lparr>rr_next = 0\<rparr>\<rparr>))
    (fst (snd (SetAddrs [''10.0.0.12:6443'', ''10.0.0.13:6443''] example_world
      \<lparr>backends = [0, 1], pool_picker = RoundRobin \<lparr>rr_next = 0\<rparr>\<rparr>))) =
   [''10.0.0.12:6443'', ''10.0.0.13:6443'']"
proof -
  let ?p = "\<lparr>backends = [0, 1], pool_picker = RoundRobin \<lparr>rr_next = 0\<rparr>\<rparr>"
  obtain w' p' ad rm where s:
    "SetAddrs [''10.0.0.12:6443'', ''10.0.0.13:6443''] example_world ?p = (w', p', ad, rm)"
    by (metis prod_cases4)
  have "pool_inv example_world ?p"
    by (simp add: pool_inv_def pool_addrs_def example_world_simps Addr_def backend_New_def
        add_ConnTotal_def)
  from SetAddrs_reconciles [OF this _ s]
  have "pool_addrs w' p' = [''10.0.0.12:6443'', ''10.0.0.13:6443'']" by simp
  then show ?thesis by (simp only: s fst_conv snd_conv)
qed

end
