(* ===== verification/Prober.thy ===== *)
theory Prober
  imports Prelude
begin

text \<open>
  \<^verbatim>\<open>src/internal/health/prober.go\<close>: the two ways of probing a backend.

  What the network, the file system and \<open>crypto/x509\<close> answer is a record of functions, \<open>probe_env\<close>:
  the dialer, the HTTPS client, reading a file, parsing and verifying certificates. The client is a
  function of the TLS settings the prober builds, so that the peer-verification hook of the source
  is a value of the model and not an assumption; the documented contract of \<open>crypto/tls\<close> that the
  theorems use (a handshake whose \<open>VerifyPeerCertificate\<close> hook fails does not yield a response) is
  the predicate \<open>tls_contract\<close>. The client follows redirects, as \<open>http.Client\<close> does by default:
  \<open>env_Do\<close> stands for the whole call, its status is that of the last response, and \<open>presented\<close> in
  \<open>tls_contract\<close> is the chain of the server of the requested URL, which every call contacts first.
\<close>

section \<open>Environment\<close>

type_synonym raw_cert = string
type_synonym cert_pool = "string list" \<comment> \<open>the certificates of an \<open>x509.CertPool\<close>\<close>

text \<open>\<open>x509.VerifyOptions\<close>, with the fields the program could set.\<close>

datatype ext_key_usage = ExtKeyUsageAny | ExtKeyUsageServerAuth | ExtKeyUsageClientAuth

record verify_options =
  Roots :: cert_pool
  Intermediates :: cert_pool
  KeyUsages :: "ext_key_usage list"
  DNSName :: string

record tls_settings =
  InsecureSkip :: bool
  VerifyPeerCertificate :: "(raw_cert list \<Rightarrow> string option) option"
  DisableKeepAlives :: bool

record probe_env =
  env_Dial :: "string \<Rightarrow> (string, unit) res" \<comment> \<open>\<open>DialContext(ctx, tcp, addr)\<close>\<close>
  env_CloseErr :: "string \<Rightarrow> string option" \<comment> \<open>the error of closing that connection\<close>
  env_NewRequest :: "string \<Rightarrow> string option" \<comment> \<open>the error of building a GET request\<close>
  env_Do :: "tls_settings \<Rightarrow> string \<Rightarrow> (string, int) res" \<comment> \<open>the status of the last response, redirects followed\<close>
  env_ReadFile :: "string \<Rightarrow> (string, string) res"
  env_AppendCertsFromPEM :: "string \<Rightarrow> cert_pool" \<comment> \<open>the certificates found, none if it fails\<close>
  env_ParseCertificate :: "raw_cert \<Rightarrow> (string, string) res"
  env_Verify :: "string \<Rightarrow> verify_options \<Rightarrow> string option"


section \<open>Probers\<close>

datatype Prober = TCPProber | ReadyzProber tls_settings

datatype prober_error =
    UnknownMode string
  | CAFileRead string
  | CAFileNoPEM string

datatype probe_error =
    DialFailed string
  | CloseFailed string
  | BadRequest string
  | DoFailed string
  | BadStatus int

definition loadCAPool :: "probe_env \<Rightarrow> string \<Rightarrow> (prober_error, cert_pool) res" where
  "loadCAPool env path =
     (case env_ReadFile env path of
        Inl e \<Rightarrow> Inl (CAFileRead e)
      | Inr pemData \<Rightarrow>
          let pool = env_AppendCertsFromPEM env pemData in
          if pool = [] then Inl (CAFileNoPEM path) else Inr pool)"

text \<open>The parsing loop over the presented certificates: the first failure ends it.\<close>

fun parse_certs :: "probe_env \<Rightarrow> raw_cert list \<Rightarrow> (string, string list) res" where
  "parse_certs env [] = Inr []"
| "parse_certs env (raw # raws) =
     res_bind (env_ParseCertificate env raw)
       (\<lambda>c. res_bind (parse_certs env raws) (\<lambda>cs. Inr (c # cs)))"

definition verifyChainWithoutHostname :: "probe_env \<Rightarrow> raw_cert list \<Rightarrow> cert_pool \<Rightarrow> string option" where
  "verifyChainWithoutHostname env rawCerts roots =
     (if length rawCerts = 0 then Some ''server presented no certificates''
      else
        (case parse_certs env rawCerts of
           Inl e \<Rightarrow> Some (''parsing server certificate: '' @ e)
         | Inr certs \<Rightarrow>
             env_Verify env (certs ! 0)
               \<lparr>Roots = roots, Intermediates = drop 1 certs, KeyUsages = [ExtKeyUsageServerAuth], DNSName = []\<rparr>))"

definition NewTCPProber :: Prober where
  "NewTCPProber = TCPProber"

definition NewReadyzProber :: "probe_env \<Rightarrow> string \<Rightarrow> (prober_error, Prober) res" where
  "NewReadyzProber env caFile =
     (let tlsCfg = \<lparr>InsecureSkip = True, VerifyPeerCertificate = None, DisableKeepAlives = True\<rparr> in
      if caFile \<noteq> [] then
        res_bind (loadCAPool env caFile)
          (\<lambda>roots. Inr (ReadyzProber (tlsCfg\<lparr>VerifyPeerCertificate :=
             Some (\<lambda>rawCerts. verifyChainWithoutHostname env rawCerts roots)\<rparr>)))
      else Inr (ReadyzProber tlsCfg))"

definition NewProber :: "probe_env \<Rightarrow> string \<Rightarrow> string \<Rightarrow> (prober_error, Prober) res" where
  "NewProber env mode caFile =
     (if mode = ''tcp'' then Inr NewTCPProber
      else if mode = ''readyz'' then NewReadyzProber env caFile
      else Inl (UnknownMode mode))"

definition TCPProber_Probe :: "probe_env \<Rightarrow> string \<Rightarrow> probe_error option" where
  "TCPProber_Probe env addr =
     (case env_Dial env addr of
        Inl e \<Rightarrow> Some (DialFailed e)
      | Inr _ \<Rightarrow> map_option CloseFailed (env_CloseErr env addr))"

definition ReadyzProber_Probe :: "probe_env \<Rightarrow> tls_settings \<Rightarrow> string \<Rightarrow> probe_error option" where
  "ReadyzProber_Probe env tls addr =
     (let url = ''https://'' @ addr @ ''/readyz'' in
      case env_NewRequest env url of
        Some e \<Rightarrow> Some (BadRequest e)
      | None \<Rightarrow>
          (case env_Do env tls url of
             Inl e \<Rightarrow> Some (DoFailed e)
           | Inr status \<Rightarrow> if status \<noteq> 200 then Some (BadStatus status) else None))"

definition Probe :: "probe_env \<Rightarrow> Prober \<Rightarrow> string \<Rightarrow> probe_error option" where
  "Probe env p addr =
     (case p of TCPProber \<Rightarrow> TCPProber_Probe env addr | ReadyzProber tls \<Rightarrow> ReadyzProber_Probe env tls addr)"


section \<open>The TLS contract\<close>

text \<open>
  \<open>crypto/tls\<close>: with \<open>InsecureSkipVerify\<close> the standard verification is off, and a call for \<open>url\<close>
  returns a response only if the raw certificates the server at \<open>url\<close> sends, \<open>presented url\<close>, passed the
  hook.
\<close>

definition tls_contract :: "probe_env \<Rightarrow> (string \<Rightarrow> raw_cert list) \<Rightarrow> bool" where
  "tls_contract env presented \<longleftrightarrow>
     (\<forall>tls url status hook. env_Do env tls url = Inr status \<longrightarrow> VerifyPeerCertificate tls = Some hook \<longrightarrow>
        hook (presented url) = None)"

text \<open>An environment in which one server presents a good chain and answers 200, another a bad one.\<close>

definition example_env :: probe_env where
  "example_env =
     \<lparr>env_Dial = (\<lambda>a. Inr ()), env_CloseErr = (\<lambda>a. None), env_NewRequest = (\<lambda>u. None),
      env_Do = (\<lambda>tls url.
        case VerifyPeerCertificate tls of
          None \<Rightarrow> Inr 200
        | Some hook \<Rightarrow> (case hook [url] of None \<Rightarrow> Inr 200 | Some e \<Rightarrow> Inl e)),
      env_ReadFile = (\<lambda>p. Inr ''pem''), env_AppendCertsFromPEM = (\<lambda>pem. [pem]),
      env_ParseCertificate = (\<lambda>raw. Inr raw),
      env_Verify = (\<lambda>c opts. if c = ''https://good:6443/readyz'' then None else Some ''unknown authority'')\<rparr>"


section \<open>Lemmas\<close>

lemma parse_certs_Inr_iff:
  "parse_certs env raws = Inr certs \<longleftrightarrow> list_all2 (\<lambda>raw c. env_ParseCertificate env raw = Inr c) raws certs"
  by (induction raws arbitrary: certs) (auto simp: res_bind_Inr_iff list_all2_Cons1)

lemma verifyChain_None_iff:
  "verifyChainWithoutHostname env raws roots = None \<longleftrightarrow>
     (\<exists>leaf rest. list_all2 (\<lambda>raw c. env_ParseCertificate env raw = Inr c) raws (leaf # rest) \<and>
        env_Verify env leaf \<lparr>Roots = roots, Intermediates = rest, KeyUsages = [ExtKeyUsageServerAuth], DNSName = []\<rparr> = None)"
proof (cases "parse_certs env raws")
  case (Inl e)
  then have "\<nexists>certs. list_all2 (\<lambda>raw c. env_ParseCertificate env raw = Inr c) raws certs"
    by (simp flip: parse_certs_Inr_iff)
  with Inl show ?thesis by (simp add: verifyChainWithoutHostname_def)
next
  case (Inr certs)
  then have p: "list_all2 (\<lambda>raw c. env_ParseCertificate env raw = Inr c) raws cs \<longleftrightarrow> cs = certs" for cs
    by (auto simp flip: parse_certs_Inr_iff)
  from p [of certs] have "length raws = length certs" by (auto dest: list_all2_lengthD)
  with Inr show ?thesis
    by (cases certs) (auto simp: verifyChainWithoutHostname_def p)
qed

lemma ReadyzProber_Probe_None_iff:
  "ReadyzProber_Probe env tls addr = None \<longleftrightarrow>
     env_NewRequest env (''https://'' @ addr @ ''/readyz'') = None \<and>
     env_Do env tls (''https://'' @ addr @ ''/readyz'') = Inr 200"
  by (auto simp: ReadyzProber_Probe_def Let_def split: option.splits sum.splits)

lemma example_env_contract: "tls_contract example_env (\<lambda>url. [url])"
  by (auto simp: tls_contract_def example_env_def split: option.splits)


section \<open>Properties\<close>

text \<open>C30: with a CA file, a readyz probe that reports success has got status 200 (after any redirects) and
  has contacted a server at the probed address whose whole chain parses and whose leaf certificate verifies
  for server authentication against exactly the certificates of that file, with the remaining certificates
  as intermediates and no host name.\<close>

theorem readyz_success_verified:
  assumes tls: "tls_contract env presented" and ca: "caFile \<noteq> []"
    and new: "NewProber env ''readyz'' caFile = Inr p" and ok: "Probe env p addr = None"
  shows "\<exists>tls pem leaf rest.
    p = ReadyzProber tls \<and> env_Do env tls (''https://'' @ addr @ ''/readyz'') = Inr 200 \<and>
    env_ReadFile env caFile = Inr pem \<and> env_AppendCertsFromPEM env pem \<noteq> [] \<and>
    list_all2 (\<lambda>raw c. env_ParseCertificate env raw = Inr c)
      (presented (''https://'' @ addr @ ''/readyz'')) (leaf # rest) \<and>
    env_Verify env leaf \<lparr>Roots = env_AppendCertsFromPEM env pem, Intermediates = rest,
      KeyUsages = [ExtKeyUsageServerAuth], DNSName = []\<rparr> = None"
proof -
  from new ca obtain pem where pem: "env_ReadFile env caFile = Inr pem" "env_AppendCertsFromPEM env pem \<noteq> []"
    and p: "p = ReadyzProber \<lparr>InsecureSkip = True,
      VerifyPeerCertificate = Some (\<lambda>raws. verifyChainWithoutHostname env raws (env_AppendCertsFromPEM env pem)),
      DisableKeepAlives = True\<rparr>" (is "p = ReadyzProber ?tls")
    by (auto simp: NewProber_def NewReadyzProber_def loadCAPool_def Let_def split: sum.splits if_splits)
  from ok have do_ok: "env_Do env ?tls (''https://'' @ addr @ ''/readyz'') = Inr 200"
    by (simp add: p Probe_def ReadyzProber_Probe_None_iff)
  with tls have "verifyChainWithoutHostname env (presented (''https://'' @ addr @ ''/readyz''))
      (env_AppendCertsFromPEM env pem) = None"
    unfolding tls_contract_def by (metis tls_settings.select_convs(2))
  with pem p do_ok show ?thesis
    unfolding verifyChain_None_iff by blast
qed

theorem readyz_success_verified_witness:
  "\<exists>p tls pem leaf rest.
    NewProber example_env ''readyz'' ''ca.crt'' = Inr p \<and> Probe example_env p ''good:6443'' = None \<and>
    p = ReadyzProber tls \<and> env_ReadFile example_env ''ca.crt'' = Inr pem \<and>
    env_Verify example_env leaf \<lparr>Roots = env_AppendCertsFromPEM example_env pem, Intermediates = rest,
      KeyUsages = [ExtKeyUsageServerAuth], DNSName = []\<rparr> = None"
proof -
  obtain p where p: "NewProber example_env ''readyz'' ''ca.crt'' = Inr p" "Probe example_env p ''good:6443'' = None"
    by (simp add: NewProber_def NewReadyzProber_def loadCAPool_def example_env_def Probe_def
        ReadyzProber_Probe_def verifyChainWithoutHostname_def)
  from readyz_success_verified [OF example_env_contract _ p] p show ?thesis by blast
qed

end
