(* ===== verification/Checker.thy ===== *)
theory Checker
  imports Pool Prober
begin

text \<open>
  \<^verbatim>\<open>src/internal/health/checker.go\<close>: the supervisor that keeps one monitor goroutine per pool member,
  probes, drains and tracks best-effort mode.

  Two views of the same code. The operations \<open>reconcile\<close>, \<open>probeOnce\<close>, \<open>updateDegraded\<close> and the
  shutdown branch of \<open>Run\<close> are functions that execute without interruption. The relation \<open>hstep\<close>
  cuts them where another goroutine can run in between (after the pool snapshot of \<open>reconcile\<close>, after
  \<open>Probe\<close>, the cancellation check, \<open>ReportHealth\<close>, \<open>Healthy\<close>, \<open>DrainAll\<close> and \<open>HealthyCount\<close>) and
  interleaves them with discovery's \<open>SetAddrs\<close>, the traffic of the proxy and the cancellation
  of the root context; \<open>DrainAll\<close> and \<open>HealthyCount\<close> themselves are single steps. A context is an index into \<open>cancelled\<close>; it is done when it or
  the root context was cancelled, as a child of \<open>context.WithCancel\<close> is. Which map element Go's
  \<open>range\<close> visits first is unspecified; the model ranges in pool order, and \<open>reconcile_spec\<close> states
  the outcome without an order.
\<close>

section \<open>State\<close>

record Options =
  Interval :: int
  Timeout :: int
  OFall :: int
  ORise :: int

datatype health_log =
    LogProbeFailed bid probe_error
  | LogHealthy bid
  | LogUnhealthy bid "probe_error option"
  | LogDrained bid nat
  | LogEnterBestEffort
  | LogLeaveBestEffort

type_synonym ctxid = nat

record Checker =
  monitors :: "bid \<rightharpoonup> ctxid" \<comment> \<open>the cancel function of a monitor, by the context it cancels\<close>
  ck_degraded :: bool

text \<open>Where a monitor goroutine stands: inside \<open>Probe\<close>, past the cancellation check with the probe's
  answer, past a transition reported by \<open>ReportHealth\<close>, before the drain, before and inside
  \<open>updateDegraded\<close> (with the value computed before its lock), in \<open>select\<close>, or returned.\<close>

datatype mon_pc =
    Probing
  | Checked "probe_error option"
  | Reported "probe_error option"
  | Draining
  | Updating
  | Writing bool
  | Waiting
  | Stopped

record mon =
  m_ctx :: ctxid
  m_b :: bid
  m_pc :: mon_pc

record hstate =
  hw :: world
  hpool :: Pool
  chk :: Checker
  root_done :: bool
  cancelled :: "bool list"
  snap :: "bid list option" \<comment> \<open>\<open>reconcile\<close> took this snapshot of the pool\<close>
  mons :: "mon list" \<comment> \<open>every monitor goroutine ever started\<close>
  running :: bool \<comment> \<open>\<open>Run\<close> has not returned\<close>
  hlog :: "health_log list"


section \<open>Operations\<close>

definition NewChecker :: Checker where
  "NewChecker = \<lparr>monitors = Map.empty, ck_degraded = False\<rparr>"

definition ctx_Err :: "hstate \<Rightarrow> ctxid \<Rightarrow> bool" where
  "ctx_Err s c \<longleftrightarrow> root_done s \<or> cancelled s ! c"

text \<open>The locked part of \<open>updateDegraded\<close> and the logging after it.\<close>

definition set_degraded :: "bool \<Rightarrow> Checker \<Rightarrow> Checker \<times> health_log list" where
  "set_degraded d c =
     (c\<lparr>ck_degraded := d\<rparr>,
      if d = ck_degraded c then [] else if d then [LogEnterBestEffort] else [LogLeaveBestEffort])"

definition updateDegraded :: "world \<Rightarrow> Pool \<Rightarrow> Checker \<Rightarrow> Checker \<times> health_log list" where
  "updateDegraded w p c = set_degraded (HealthyCount w p = 0) c"

definition drain_log :: "bid \<Rightarrow> nat \<Rightarrow> health_log list" where
  "drain_log b n = (if n > 0 then [LogDrained b n] else [])"

text \<open>The branch after a transition: log it, and drain an unhealthy backend.\<close>

definition on_transition :: "bid \<Rightarrow> probe_error option \<Rightarrow> world \<Rightarrow> world \<times> health_log list" where
  "on_transition b err w =
     (if Healthy (bheap w ! b) then (w, [LogHealthy b])
      else let (w, drained) = DrainAll b w in (w, LogUnhealthy b err # drain_log b drained))"

text \<open>\<open>err\<close> is the answer of \<open>Probe\<close>, \<open>ctx_done\<close> that of \<open>ctx.Err()\<close> after it.\<close>

definition probeOnce ::
  "Options \<Rightarrow> Pool \<Rightarrow> bool \<Rightarrow> probe_error option \<Rightarrow> bid \<Rightarrow> world \<Rightarrow> Checker \<Rightarrow> world \<times> Checker \<times> health_log list" where
  "probeOnce opts pool ctx_done err b w c =
     (if ctx_done then (w, c, [])
      else
        let l1 = (case err of Some e \<Rightarrow> [LogProbeFailed b e] | None \<Rightarrow> []);
            (b', transitioned) = ReportHealth (err = None) (OFall opts) (ORise opts) (bheap w ! b);
            w = upd_backend b (\<lambda>_. b') w
        in
        if \<not> transitioned then (w, c, l1)
        else
          let (w, l2) = on_transition b err w; (c, l3) = updateDegraded w pool c
          in (w, c, l1 @ l2 @ l3))"

text \<open>The two loops of \<open>reconcile\<close> over the snapshot \<open>current\<close>: monitors whose backend left are
  cancelled and forgotten, then each backend without a monitor gets one, with a fresh context.\<close>

definition stop_gone :: "bid list \<Rightarrow> hstate \<Rightarrow> hstate" where
  "stop_gone current s =
     s\<lparr>cancelled := map (\<lambda>i. cancelled s ! i \<or>
           (\<exists>b < length (bheap (hw s)). b \<notin> set current \<and> monitors (chk s) b = Some i)) [0..<length (cancelled s)],
       chk := (chk s)\<lparr>monitors := monitors (chk s) |` set current\<rparr>\<rparr>"

definition start_monitor :: "bid \<Rightarrow> hstate \<Rightarrow> hstate" where
  "start_monitor b s =
     (if monitors (chk s) b \<noteq> None then s
      else
        let mctx = length (cancelled s) in
        s\<lparr>cancelled := cancelled s @ [False],
          chk := (chk s)\<lparr>monitors := (monitors (chk s))(b \<mapsto> mctx)\<rparr>,
          mons := mons s @ [\<lparr>m_ctx = mctx, m_b = b, m_pc = Probing\<rparr>]\<rparr>)"

definition reconcile_with :: "bid list \<Rightarrow> hstate \<Rightarrow> hstate" where
  "reconcile_with current s = fold start_monitor current (stop_gone current s)"

definition reconcile :: "hstate \<Rightarrow> hstate" where
  "reconcile s = reconcile_with (Backends (hpool s)) s"

text \<open>The \<open>ctx.Done()\<close> branch of \<open>Run\<close>: cancel every monitor, clear the map, return.\<close>

definition Run_stop :: "hstate \<Rightarrow> hstate" where
  "Run_stop s =
     s\<lparr>cancelled := map (\<lambda>i. cancelled s ! i \<or> (\<exists>b < length (bheap (hw s)). monitors (chk s) b = Some i))
         [0..<length (cancelled s)],
       chk := (chk s)\<lparr>monitors := Map.empty\<rparr>, running := False\<rparr>"


section \<open>Interleavings\<close>

definition set_pc :: "nat \<Rightarrow> mon_pc \<Rightarrow> hstate \<Rightarrow> hstate" where
  "set_pc i pc s = s\<lparr>mons := (mons s)[i := (mons s ! i)\<lparr>m_pc := pc\<rparr>]\<rparr>"

text \<open>The pieces of \<open>probeOnce\<close> in monitor \<open>i\<close>: \<open>Probe\<close> returned \<open>err\<close> and the context is checked; the
  result is reported; the new verdict is read.\<close>

definition checks :: "nat \<Rightarrow> probe_error option \<Rightarrow> hstate \<Rightarrow> hstate" where
  "checks i err s =
     (if ctx_Err s (m_ctx (mons s ! i)) then set_pc i Waiting s else set_pc i (Checked err) s)"

definition reports :: "Options \<Rightarrow> nat \<Rightarrow> probe_error option \<Rightarrow> hstate \<Rightarrow> hstate" where
  "reports opts i err s =
     (let b = m_b (mons s ! i);
          l1 = (case err of Some e \<Rightarrow> [LogProbeFailed b e] | None \<Rightarrow> []);
          (b', transitioned) = ReportHealth (err = None) (OFall opts) (ORise opts) (bheap (hw s) ! b);
          s = s\<lparr>hw := upd_backend b (\<lambda>_. b') (hw s), hlog := hlog s @ l1\<rparr>
      in set_pc i (if transitioned then Reported err else Waiting) s)"

definition reads :: "nat \<Rightarrow> probe_error option \<Rightarrow> hstate \<Rightarrow> hstate" where
  "reads i err s =
     (let b = m_b (mons s ! i) in
      if Healthy (bheap (hw s) ! b) then set_pc i Updating (s\<lparr>hlog := hlog s @ [LogHealthy b]\<rparr>)
      else set_pc i Draining (s\<lparr>hlog := hlog s @ [LogUnhealthy b err]\<rparr>))"

definition drains :: "nat \<Rightarrow> hstate \<Rightarrow> hstate" where
  "drains i s =
     (let b = m_b (mons s ! i); (w, n) = DrainAll b (hw s)
      in set_pc i Updating (s\<lparr>hw := w, hlog := hlog s @ drain_log b n\<rparr>))"

definition counts :: "nat \<Rightarrow> hstate \<Rightarrow> hstate" where
  "counts i s = set_pc i (Writing (HealthyCount (hw s) (hpool s) = 0)) s"

definition writes :: "nat \<Rightarrow> bool \<Rightarrow> hstate \<Rightarrow> hstate" where
  "writes i d s =
     (let (c, l) = set_degraded d (chk s) in set_pc i Waiting (s\<lparr>chk := c, hlog := hlog s @ l\<rparr>))"

text \<open>Discovery replacing the pool's addresses; it drains what was removed afterwards.\<close>

definition discovery_sets :: "string list \<Rightarrow> hstate \<Rightarrow> hstate" where
  "discovery_sets addrs s =
     (let (w, p, added, removed) = SetAddrs addrs (hw s) (hpool s) in s\<lparr>hw := w, hpool := p\<rparr>)"

inductive hstep :: "Options \<Rightarrow> hstate \<Rightarrow> hstate \<Rightarrow> bool" for opts where
  h_snapshot: "running s \<Longrightarrow> hstep opts s (s\<lparr>snap := Some (Backends (hpool s))\<rparr>)"
| h_reconcile: "running s \<Longrightarrow> snap s = Some bs \<Longrightarrow> hstep opts s (reconcile_with bs s\<lparr>snap := None\<rparr>)"
| h_cancel: "hstep opts s (s\<lparr>root_done := True\<rparr>)"
| h_stop: "running s \<Longrightarrow> snap s = None \<Longrightarrow> root_done s \<Longrightarrow> hstep opts s (Run_stop s)"
| h_check: "i < length (mons s) \<Longrightarrow> m_pc (mons s ! i) = Probing \<Longrightarrow> hstep opts s (checks i err s)"
| h_report: "i < length (mons s) \<Longrightarrow> m_pc (mons s ! i) = Checked err \<Longrightarrow> hstep opts s (reports opts i err s)"
| h_read: "i < length (mons s) \<Longrightarrow> m_pc (mons s ! i) = Reported err \<Longrightarrow> hstep opts s (reads i err s)"
| h_drain: "i < length (mons s) \<Longrightarrow> m_pc (mons s ! i) = Draining \<Longrightarrow> hstep opts s (drains i s)"
| h_count: "i < length (mons s) \<Longrightarrow> m_pc (mons s ! i) = Updating \<Longrightarrow> hstep opts s (counts i s)"
| h_write: "i < length (mons s) \<Longrightarrow> m_pc (mons s ! i) = Writing d \<Longrightarrow> hstep opts s (writes i d s)"
| h_wake: "i < length (mons s) \<Longrightarrow> m_pc (mons s ! i) = Waiting \<Longrightarrow> hstep opts s (set_pc i Probing s)"
| h_exit: "i < length (mons s) \<Longrightarrow> m_pc (mons s ! i) = Waiting \<Longrightarrow> ctx_Err s (m_ctx (mons s ! i)) \<Longrightarrow>
    hstep opts s (set_pc i Stopped s)"
| h_discover: "addrs \<noteq> [] \<Longrightarrow> distinct addrs \<Longrightarrow> hstep opts s (discovery_sets addrs s)"
| h_drain_removed: "b < length (bheap (hw s)) \<Longrightarrow> hstep opts s (s\<lparr>hw := fst (DrainAll b (hw s))\<rparr>)"
| h_traffic: "traffic (hw s) w \<Longrightarrow> backends p = backends (hpool s) \<Longrightarrow> hstep opts s (s\<lparr>hw := w, hpool := p\<rparr>)"

inductive_cases hstepE: "hstep opts s t"

text \<open>The state \<open>main\<close> starts the checker in.\<close>

definition hinit :: "world \<Rightarrow> Pool \<Rightarrow> hstate" where
  "hinit w p = \<lparr>hw = w, hpool = p, chk = NewChecker, root_done = False, cancelled = [], snap = None, mons = [],
     running = True, hlog = []\<rparr>"


text \<open>A sequence of probes run to completion one after the other: which backend, and the answer.\<close>

fun probe_seq :: "Options \<Rightarrow> Pool \<Rightarrow> (bid \<times> probe_error option) list \<Rightarrow> world \<Rightarrow> Checker \<Rightarrow> world \<times> Checker \<times> health_log list" where
  "probe_seq opts pool [] w c = (w, c, [])"
| "probe_seq opts pool ((b, err) # evs) w c =
     (let (w, c, l) = probeOnce opts pool False err b w c; (w, c, l') = probe_seq opts pool evs w c
      in (w, c, l @ l'))"

text \<open>The mode a reader of the log infers, and that entries and exits alternate.\<close>

fun mode_after :: "bool \<Rightarrow> health_log list \<Rightarrow> bool" where
  "mode_after d [] = d"
| "mode_after d (LogEnterBestEffort # l) = mode_after True l"
| "mode_after d (LogLeaveBestEffort # l) = mode_after False l"
| "mode_after d (_ # l) = mode_after d l"

fun alternates :: "bool \<Rightarrow> health_log list \<Rightarrow> bool" where
  "alternates d [] = True"
| "alternates d (LogEnterBestEffort # l) = (\<not> d \<and> alternates True l)"
| "alternates d (LogLeaveBestEffort # l) = (d \<and> alternates False l)"
| "alternates d (_ # l) = alternates d l"

text \<open>Schedules: an action of the interleaving as a value, executed when its guard holds.\<close>

datatype hact =
    ASnapshot
  | AReconcile
  | ACancel
  | AStop
  | AMon nat "probe_error option" \<comment> \<open>the next step of a monitor; the answer is that of \<open>Probe\<close>\<close>
  | AExit nat
  | ADiscover "string list"

definition mon_next :: "Options \<Rightarrow> nat \<Rightarrow> probe_error option \<Rightarrow> hstate \<Rightarrow> hstate option" where
  "mon_next opts i err s =
     (case m_pc (mons s ! i) of
        Probing \<Rightarrow> Some (checks i err s)
      | Checked e \<Rightarrow> Some (reports opts i e s)
      | Reported e \<Rightarrow> Some (reads i e s)
      | Draining \<Rightarrow> Some (drains i s)
      | Updating \<Rightarrow> Some (counts i s)
      | Writing d \<Rightarrow> Some (writes i d s)
      | Waiting \<Rightarrow> Some (set_pc i Probing s)
      | Stopped \<Rightarrow> None)"

definition hexec :: "Options \<Rightarrow> hact \<Rightarrow> hstate \<Rightarrow> hstate option" where
  "hexec opts a s =
     (case a of
        ASnapshot \<Rightarrow> if running s then Some (s\<lparr>snap := Some (Backends (hpool s))\<rparr>) else None
      | AReconcile \<Rightarrow> (case snap s of None \<Rightarrow> None
          | Some bs \<Rightarrow> if running s then Some (reconcile_with bs s\<lparr>snap := None\<rparr>) else None)
      | ACancel \<Rightarrow> Some (s\<lparr>root_done := True\<rparr>)
      | AStop \<Rightarrow> if running s \<and> snap s = None \<and> root_done s then Some (Run_stop s) else None
      | AMon i err \<Rightarrow> if i < length (mons s) then mon_next opts i err s else None
      | AExit i \<Rightarrow> if i < length (mons s) \<and> m_pc (mons s ! i) = Waiting \<and> ctx_Err s (m_ctx (mons s ! i))
          then Some (set_pc i Stopped s) else None
      | ADiscover addrs \<Rightarrow> if addrs \<noteq> [] \<and> distinct addrs then Some (discovery_sets addrs s) else None)"

fun hexecs :: "Options \<Rightarrow> hact list \<Rightarrow> hstate \<Rightarrow> hstate option" where
  "hexecs opts [] s = Some s"
| "hexecs opts (a # as) s = (case hexec opts a s of None \<Rightarrow> None | Some t \<Rightarrow> hexecs opts as t)"

text \<open>Two fresh backends, thresholds of one.\<close>

definition two_backends :: hstate where
  "two_backends = hinit \<lparr>bheap = [backend_New ''10.0.0.1:6443'', backend_New ''10.0.0.2:6443''], theap = [], sheap = []\<rparr>
     \<lparr>backends = [0, 1], pool_picker = RoundRobin \<lparr>rr_next = 0\<rparr>\<rparr>"

definition opts1 :: Options where
  "opts1 = \<lparr>Interval = 3000000000, Timeout = 3000000000, OFall = 1, ORise = 1\<rparr>"

text \<open>Monitor 1 computes that no backend is healthy and is delayed before it takes the lock; backend 0
  recovers and its monitor leaves best-effort mode; then monitor 1 writes its stale value.\<close>

definition race_schedule :: "hact list" where
  "race_schedule =
     [ASnapshot, AReconcile] @
     replicate 6 (AMon 0 (Some (DialFailed ''refused''))) @
     replicate 5 (AMon 1 (Some (DialFailed ''refused''))) @
     replicate 6 (AMon 0 None) @ [AMon 1 None]"


section \<open>Invariant\<close>

text \<open>The supervised goroutines by context and backend.\<close>

definition mon_ids :: "hstate \<Rightarrow> (ctxid \<times> bid) list" where
  "mon_ids s = map (\<lambda>m. (m_ctx m, m_b m)) (mons s)"

definition world_ok :: "Options \<Rightarrow> world \<Rightarrow> bool" where
  "world_ok opts w \<longleftrightarrow> wf_world w \<and> (\<forall>b < length (bheap w). health_inv (OFall opts) (ORise opts) (bheap w ! b))"

text \<open>
  No two goroutines share a backend; each is registered under its backend or cancelled, and the
  backend of one that is no longer registered is gone from the pool for good.
\<close>

definition mon_inv :: "hstate \<Rightarrow> ctxid \<Rightarrow> bid \<Rightarrow> bool" where
  "mon_inv s c b \<longleftrightarrow>
     b < length (bheap (hw s)) \<and> c < length (cancelled s) \<and>
     (monitors (chk s) b = Some c \<or> monitors (chk s) b = None \<and> cancelled s ! c) \<and>
     (running s \<and> monitors (chk s) b = None \<longrightarrow>
        b \<notin> set (backends (hpool s)) \<and> (\<forall>bs. snap s = Some bs \<longrightarrow> b \<notin> set bs)) \<and>
     (\<forall>bs. snap s = Some bs \<longrightarrow> b \<in> set (backends (hpool s)) \<longrightarrow> b \<in> set bs)"

definition sup_inv :: "hstate \<Rightarrow> bool" where
  "sup_inv s \<longleftrightarrow>
     distinct (map snd (mon_ids s)) \<and>
     (\<forall>b. monitors (chk s) b \<noteq> None \<longrightarrow> b \<in> snd ` set (mon_ids s)) \<and>
     (\<forall>c b. (c, b) \<in> set (mon_ids s) \<longrightarrow> mon_inv s c b) \<and>
     (\<forall>bs. snap s = Some bs \<longrightarrow> set bs \<subseteq> {..<length (bheap (hw s))})"

definition hinv :: "Options \<Rightarrow> hstate \<Rightarrow> bool" where
  "hinv opts s \<longleftrightarrow> 1 \<le> OFall opts \<and> 1 \<le> ORise opts \<and> world_ok opts (hw s) \<and>
     pool_inv (hw s) (hpool s) \<and> sup_inv s"


section \<open>Preservation\<close>

lemma set_pc_simps [simp]:
  "hw (set_pc i pc s) = hw s" "hpool (set_pc i pc s) = hpool s" "chk (set_pc i pc s) = chk s"
  "root_done (set_pc i pc s) = root_done s" "cancelled (set_pc i pc s) = cancelled s"
  "snap (set_pc i pc s) = snap s" "running (set_pc i pc s) = running s" "hlog (set_pc i pc s) = hlog s"
  "length (mons (set_pc i pc s)) = length (mons s)"
  by (simp_all add: set_pc_def)

lemma mon_ids_set_pc [simp]: "mon_ids (set_pc i pc s) = mon_ids s"
  using map_field_list_update [of m_ctx "\<lambda>m. m\<lparr>m_pc := pc\<rparr>" "mons s" i]
    map_field_list_update [of m_b "\<lambda>m. m\<lparr>m_pc := pc\<rparr>" "mons s" i]
  by (simp add: mon_ids_def set_pc_def list_eq_iff_nth_eq)

lemma hinv_set_pc [simp]: "hinv opts (set_pc i pc s) = hinv opts s"
  by (simp add: hinv_def sup_inv_def mon_inv_def)

lemma hinv_log [simp]: "hinv opts (s\<lparr>hlog := l\<rparr>) = hinv opts s"
  by (simp add: hinv_def sup_inv_def mon_ids_def mon_inv_def)

text \<open>A step that only touches backend and connection state.\<close>

lemma hinv_world:
  assumes "hinv opts s" "world_ok opts w" "map addr (bheap w) = map addr (bheap (hw s))"
  shows "hinv opts (s\<lparr>hw := w\<rparr>)"
proof -
  have len: "length (bheap w) = length (bheap (hw s))" using assms(3) by (metis length_map)
  have "addr (bheap w ! b) = addr (bheap (hw s) ! b)" if "b < length (bheap w)" for b
    using assms(3) that len by (metis nth_map)
  then have "pool_addrs w (hpool s) = pool_addrs (hw s) (hpool s)"
    using assms(1) len by (auto simp: pool_addrs_def Addr_def hinv_def pool_inv_def)
  with assms len show ?thesis
    by (simp add: hinv_def pool_inv_def sup_inv_def mon_ids_def mon_inv_def)
qed

lemma map_addr_upd [simp]: "map addr (bheap (upd_backend b (\<lambda>_. fst (ReportHealth ok f r (bheap w ! b))) w)) = map addr (bheap w)"
  using list_update_id [of "map addr (bheap w)" b]
  by (cases "b < length (bheap w)")
    (simp_all add: upd_backend_def map_update ReportHealth_frame list_update_beyond)

lemma world_ok_report:
  assumes "world_ok opts w" "b < length (bheap w)" "1 \<le> OFall opts" "1 \<le> ORise opts"
  shows "world_ok opts (upd_backend b (\<lambda>_. fst (ReportHealth ok (OFall opts) (ORise opts) (bheap w ! b))) w)"
proof -
  have "wf_world (upd_backend b (\<lambda>x. fst (ReportHealth ok (OFall opts) (ORise opts) x)) w)"
    using assms(1) by (intro wf_upd_backend) (simp_all add: world_ok_def ReportHealth_frame)
  moreover have "upd_backend b (\<lambda>x. fst (ReportHealth ok (OFall opts) (ORise opts) x)) w =
      upd_backend b (\<lambda>_. fst (ReportHealth ok (OFall opts) (ORise opts) (bheap w ! b))) w"
    by (simp add: upd_backend_def)
  ultimately show ?thesis
    using assms by (auto simp: world_ok_def upd_backend_def nth_list_update ReportHealth_inv_keep)
qed

lemma world_ok_Drain:
  assumes "world_ok opts w" "b < length (bheap w)"
  shows "world_ok opts (fst (DrainAll b w)) \<and> map addr (bheap (fst (DrainAll b w))) = map addr (bheap w)"
  using assms
  by (auto simp: world_ok_def wf_DrainAll DrainAll_bheap add_Drained_def health_inv_def intro!: nth_equalityI)

lemma hinv_traffic:
  assumes "hinv opts s" "traffic (hw s) w" "backends p = backends (hpool s)"
  shows "hinv opts (s\<lparr>hw := w, hpool := p\<rparr>)"
proof -
  have "world_ok opts w" "map addr (bheap w) = map addr (bheap (hw s))"
    using assms(1,2) by (auto simp: traffic_def world_ok_def hinv_def health_inv_def health_view_def intro!: nth_equalityI)
  from hinv_world [OF assms(1) this] assms(3) show ?thesis
    by (simp add: hinv_def pool_inv_def pool_addrs_def sup_inv_def mon_ids_def mon_inv_def)
qed

text \<open>The supervisor's own steps.\<close>

lemma start_monitor_frame [simp]:
  "hw (start_monitor b s) = hw s" "hpool (start_monitor b s) = hpool s" "snap (start_monitor b s) = snap s"
  "running (start_monitor b s) = running s" "root_done (start_monitor b s) = root_done s"
  "hlog (start_monitor b s) = hlog s" "ck_degraded (chk (start_monitor b s)) = ck_degraded (chk s)"
  by (simp_all add: start_monitor_def Let_def)

lemma stop_gone_frame [simp]:
  "hw (stop_gone bs s) = hw s" "hpool (stop_gone bs s) = hpool s" "snap (stop_gone bs s) = snap s"
  "running (stop_gone bs s) = running s" "root_done (stop_gone bs s) = root_done s" "mons (stop_gone bs s) = mons s"
  "hlog (stop_gone bs s) = hlog s" "ck_degraded (chk (stop_gone bs s)) = ck_degraded (chk s)"
  by (simp_all add: stop_gone_def)

lemma mon_ids_supervisor [simp]:
  "mon_ids (stop_gone bs s) = mon_ids s" "mon_ids (s\<lparr>snap := x\<rparr>) = mon_ids s"
  "mon_ids (Run_stop s) = mon_ids s"
  by (simp_all add: mon_ids_def Run_stop_def)

lemma sup_inv_mon: "sup_inv s \<Longrightarrow> (c, b) \<in> set (mon_ids s) \<Longrightarrow> mon_inv s c b"
  by (simp add: sup_inv_def)

lemma mon_inv_stop_gone:
  assumes "mon_inv s c b" "snap s = Some bs"
  shows "mon_inv (stop_gone bs s) c b"
  using assms by (auto simp: mon_inv_def stop_gone_def restrict_map_def)

lemma sup_inv_stop_gone:
  assumes "sup_inv s" "snap s = Some bs"
  shows "sup_inv (stop_gone bs s)"
  unfolding sup_inv_def
  using assms mon_inv_stop_gone [OF sup_inv_mon [OF assms(1)] assms(2)]
  by (auto simp: sup_inv_def stop_gone_def [of bs s] mon_ids_def restrict_map_def)

lemma sup_inv_start_monitor:
  assumes inv: "sup_inv s" and bs: "snap s = Some bs" and b: "b \<in> set bs" and r: "running s"
  shows "sup_inv (start_monitor b s)"
proof (cases "monitors (chk s) b")
  case None
  let ?c = "length (cancelled s)"
  have fresh: "b \<notin> snd ` set (mon_ids s)"
    using None sup_inv_mon [OF inv] bs b r by (auto simp: mon_inv_def)
  have ids: "mon_ids (start_monitor b s) = mon_ids s @ [(?c, b)]"
    and mo: "monitors (chk (start_monitor b s)) = (monitors (chk s))(b \<mapsto> ?c)"
    and ca: "cancelled (start_monitor b s) = cancelled s @ [False]"
    using None by (simp_all add: start_monitor_def mon_ids_def Let_def)
  have old: "mon_inv (start_monitor b s) c b'" if "(c, b') \<in> set (mon_ids s)" for c b'
  proof -
    have "b' \<noteq> b" using fresh that by force
    with sup_inv_mon [OF inv that] show ?thesis
      unfolding mon_inv_def mo ca by (simp add: nth_append)
  qed
  have new: "mon_inv (start_monitor b s) ?c b"
    using inv bs b unfolding mon_inv_def mo ca by (auto simp: sup_inv_def)
  show ?thesis
    using inv old new fresh unfolding sup_inv_def ids mo by auto
next
  case (Some c)
  with inv show ?thesis by (simp add: start_monitor_def)
qed

lemma fold_start_monitor_frame [simp]:
  "hw (fold start_monitor bs s) = hw s" "hpool (fold start_monitor bs s) = hpool s"
  "snap (fold start_monitor bs s) = snap s" "running (fold start_monitor bs s) = running s"
  by (induction bs arbitrary: s) simp_all

lemma sup_inv_fold_start:
  "sup_inv s \<Longrightarrow> snap s = Some bs \<Longrightarrow> set bs' \<subseteq> set bs \<Longrightarrow> running s \<Longrightarrow> sup_inv (fold start_monitor bs' s)"
  by (induction bs' arbitrary: s) (simp_all add: sup_inv_start_monitor)

lemma sup_inv_unsnap: "sup_inv s \<Longrightarrow> sup_inv (s\<lparr>snap := None\<rparr>)"
  by (auto simp: sup_inv_def mon_inv_def)

lemma hinv_reconcile_with:
  assumes "hinv opts s" "snap s = Some bs" "running s"
  shows "hinv opts (reconcile_with bs s\<lparr>snap := None\<rparr>)"
  using assms sup_inv_unsnap [OF sup_inv_fold_start [OF sup_inv_stop_gone, of s bs bs]]
  by (simp add: hinv_def reconcile_with_def)

lemma hinv_snapshot: "hinv opts s \<Longrightarrow> hinv opts (s\<lparr>snap := Some (Backends (hpool s))\<rparr>)"
  by (auto simp: hinv_def sup_inv_def mon_inv_def Backends_def pool_inv_def)

lemma hinv_stop:
  assumes "hinv opts s" "snap s = None"
  shows "hinv opts (Run_stop s)"
proof -
  have "mon_inv (Run_stop s) c b" if "mon_inv s c b" for c b
    using that assms(2) by (auto simp: mon_inv_def Run_stop_def)
  with assms show ?thesis
    by (auto simp: hinv_def sup_inv_def Run_stop_def mon_ids_def)
qed

lemma hinv_discover:
  assumes inv: "hinv opts s" and dist: "distinct addrs"
  shows "hinv opts (discovery_sets addrs s)"
proof -
  obtain w' p' ad rm where s: "SetAddrs addrs (hw s) (hpool s) = (w', p', ad, rm)"
    by (metis prod_cases4)
  have pool: "pool_inv (hw s) (hpool s)" using inv by (simp add: hinv_def)
  note spec = SetAddrs_spec [OF pool dist s]
  have ok: "world_ok opts w'"
    using inv spec(1) wf_alloc
    by (auto simp: hinv_def world_ok_def nth_append backend_New_inv)
  have len: "length (bheap (hw s)) \<le> length (bheap w')" using spec(1) by simp
  have "b \<in> set (backends (hpool s))" if "b \<in> set (backends p')" "b < length (bheap (hw s))" for b
    using that spec(3) by auto
  then have "mon_inv (s\<lparr>hw := w', hpool := p'\<rparr>) c b" if "mon_inv s c b" for c b
    using that len unfolding mon_inv_def by auto
  with inv ok len SetAddrs_inv [OF pool dist s] show ?thesis
    by (force simp: discovery_sets_def s hinv_def sup_inv_def mon_ids_def)
qed

lemma hinv_monitor_bound:
  assumes "hinv opts s" "i < length (mons s)"
  shows "m_b (mons s ! i) < length (bheap (hw s))"
proof -
  have "(m_ctx (mons s ! i), m_b (mons s ! i)) \<in> set (mon_ids s)"
    using assms(2) by (force simp: mon_ids_def)
  with assms(1) show ?thesis by (auto simp: hinv_def dest: sup_inv_mon simp: mon_inv_def)
qed

lemma hinv_parts:
  assumes "hinv opts s"
  shows "world_ok opts (hw s)" "pool_inv (hw s) (hpool s)" "sup_inv s" "1 \<le> OFall opts" "1 \<le> ORise opts"
  using assms by (simp_all add: hinv_def)

lemma hinv_reports:
  assumes "hinv opts s" "i < length (mons s)"
  shows "hinv opts (reports opts i err s)"
  using assms hinv_monitor_bound [OF assms] hinv_parts [OF assms(1)]
  by (simp add: reports_def Let_def split_beta hinv_world world_ok_report)

lemma hinv_drains:
  assumes "hinv opts s" "i < length (mons s)"
  shows "hinv opts (drains i s)"
  using assms hinv_monitor_bound [OF assms] world_ok_Drain [of opts "hw s" "m_b (mons s ! i)"]
    hinv_parts [OF assms(1)]
  by (simp add: drains_def Let_def split_beta hinv_world)

lemma hinv_degraded: "hinv opts (s\<lparr>chk := (chk s)\<lparr>ck_degraded := d\<rparr>\<rparr>) = hinv opts s"
  by (simp add: hinv_def sup_inv_def mon_ids_def mon_inv_def)

lemma hinv_writes: "hinv opts s \<Longrightarrow> hinv opts (writes i d s)"
  by (simp add: writes_def set_degraded_def hinv_degraded)

interpretation hsm: inductive_invariant "hstep opts" "hinv opts" for opts
proof unfold_locales
  fix s t
  assume inv: "hinv opts s" and "hstep opts s t"
  from this(2) show "hinv opts t"
  proof cases
    case (h_check i err)
    with inv show ?thesis by (simp add: checks_def)
  next
    case (h_read i err)
    with inv show ?thesis by (simp add: reads_def Let_def)
  next
    case h_cancel
    with inv show ?thesis by (simp add: hinv_def sup_inv_def mon_ids_def mon_inv_def)
  next
    case (h_drain_removed b)
    with inv world_ok_Drain [of opts "hw s" b] show ?thesis by (simp add: hinv_world hinv_def [of opts s])
  next
    case (h_traffic w p)
    with inv hinv_traffic show ?thesis by simp
  qed (use inv in \<open>simp_all add: hinv_snapshot hinv_reconcile_with hinv_stop hinv_reports hinv_drains
      counts_def hinv_writes hinv_discover\<close>)
qed

lemma hinv_hinit:
  assumes "1 \<le> OFall opts" "1 \<le> ORise opts" "world_ok opts w" "pool_inv w p"
  shows "hinv opts (hinit w p)"
  using assms by (simp add: hinv_def hinit_def sup_inv_def mon_ids_def NewChecker_def)


section \<open>Schedules\<close>

lemma hexec_hstep: "hexec opts a s = Some t \<Longrightarrow> hstep opts s t"
  by (cases a)
    (auto simp: hexec_def mon_next_def intro: hstep.intros split: if_splits option.splits mon_pc.splits)

lemma hexecs_reaches: "hexecs opts as s = Some t \<Longrightarrow> reaches (hstep opts) s t"
proof (induction as arbitrary: s)
  case (Cons a as)
  then obtain u where "hexec opts a s = Some u" "hexecs opts as u = Some t"
    by (auto split: option.splits)
  with Cons.IH hexec_hstep reaches_step reaches_trans show ?case by metis
qed (simp add: reaches.here)

lemma race_computed:
  "map_option (\<lambda>t. (map m_pc (mons t), HealthyCount (hw t) (hpool t), ck_degraded (chk t)))
     (hexecs opts1 race_schedule two_backends) = Some ([Waiting, Waiting], 1, True)"
  by code_simp

lemma race_outcome:
  obtains s where "hexecs opts1 race_schedule two_backends = Some s" "map m_pc (mons s) = [Waiting, Waiting]"
    "HealthyCount (hw s) (hpool s) = 1" "ck_degraded (chk s)"
proof -
  obtain s where s: "hexecs opts1 race_schedule two_backends = Some s"
    and "(map m_pc (mons s), HealthyCount (hw s) (hpool s), ck_degraded (chk s)) = ([Waiting, Waiting], 1, True)"
    using map_option_eq_Some [THEN iffD1, OF race_computed] by (elim exE conjE)
  then show thesis by (intro that [OF s]) (simp_all only: prod.inject)
qed


section \<open>Uninterrupted probes\<close>

lemma mode_after_append [simp]: "mode_after d (l @ l') = mode_after (mode_after d l) l'"
  by (induction d l rule: mode_after.induct) simp_all

lemma alternates_append [simp]: "alternates d (l @ l') \<longleftrightarrow> alternates d l \<and> alternates (mode_after d l) l'"
  by (induction d l rule: alternates.induct) auto

lemma HealthyCount_report:
  assumes "\<not> snd (ReportHealth ok f r (bheap w ! b))"
  shows "HealthyCount (upd_backend b (\<lambda>_. fst (ReportHealth ok f r (bheap w ! b))) w) p = HealthyCount w p"
proof -
  have "Healthy (bheap (upd_backend b (\<lambda>_. fst (ReportHealth ok f r (bheap w ! b))) w) ! q) = Healthy (bheap w ! q)" for q
    using assms unfolding ReportHealth_transition
    by (cases "b < length (bheap w)") (auto simp: upd_backend_def Healthy_def nth_list_update list_update_beyond)
  then show ?thesis by (simp add: HealthyCount_def)
qed

lemma set_degraded_log:
  "set_degraded d c = (c', l) \<Longrightarrow> alternates (ck_degraded c) l \<and> mode_after (ck_degraded c) l = d \<and> ck_degraded c' = d"
  by (auto simp: set_degraded_def split: if_splits)

lemma on_transition_log [simp]:
  "alternates d (snd (on_transition b err w))" "mode_after d (snd (on_transition b err w)) = d"
  by (simp_all add: on_transition_def drain_log_def split_beta)

lemma updateDegraded_log [simp]:
  "alternates (ck_degraded c) (snd (updateDegraded w p c))"
  "mode_after (ck_degraded c) (snd (updateDegraded w p c)) = (HealthyCount w p = 0)"
  "ck_degraded (fst (updateDegraded w p c)) = (HealthyCount w p = 0)"
  using set_degraded_log [of "HealthyCount w p = 0" c "fst (updateDegraded w p c)" "snd (updateDegraded w p c)"]
  by (simp_all only: updateDegraded_def prod.collapse)

lemma probeOnce_unfold:
  fixes opts :: Options
  defines "rh \<equiv> \<lambda>err b w. ReportHealth (err = None) (OFall opts) (ORise opts) (bheap w ! b)"
  defines "w1 \<equiv> \<lambda>err b w. upd_backend b (\<lambda>_. fst (rh err b w)) w"
  defines "l1 \<equiv> \<lambda>err b. case err of Some e \<Rightarrow> [LogProbeFailed b e] | None \<Rightarrow> []"
  shows "\<not> snd (rh err b w) \<Longrightarrow> probeOnce opts p False err b w c = (w1 err b w, c, l1 err b)"
    "snd (rh err b w) \<Longrightarrow> probeOnce opts p False err b w c =
       (let wl = on_transition b err (w1 err b w); u = updateDegraded (fst wl) p c
        in (fst wl, fst u, l1 err b @ snd wl @ snd u))"
  by (simp_all add: probeOnce_def Let_def split_beta assms)

lemma probeOnce_mode:
  assumes "ck_degraded c \<longleftrightarrow> HealthyCount w p = 0" "probeOnce opts p ctx_done err b w c = (w', c', l)"
  shows "(ck_degraded c' \<longleftrightarrow> HealthyCount w' p = 0) \<and> alternates (ck_degraded c) l \<and>
    mode_after (ck_degraded c) l = ck_degraded c'"
proof (cases ctx_done)
  case True
  with assms show ?thesis by (auto simp: probeOnce_def)
next
  case False
  have l1: "alternates d (case err of Some e \<Rightarrow> [LogProbeFailed b e] | None \<Rightarrow> [])"
    "mode_after d (case err of Some e \<Rightarrow> [LogProbeFailed b e] | None \<Rightarrow> []) = d" for d
    by (simp_all split: option.split)
  show ?thesis
  proof (cases "snd (ReportHealth (err = None) (OFall opts) (ORise opts) (bheap w ! b))")
    case True
    define wl where "wl = on_transition b err
      (upd_backend b (\<lambda>_. fst (ReportHealth (err = None) (OFall opts) (ORise opts) (bheap w ! b))) w)"
    define u where "u = updateDegraded (fst wl) p c"
    have "w' = fst wl \<and> c' = fst u \<and> l = (case err of Some e \<Rightarrow> [LogProbeFailed b e] | None \<Rightarrow> []) @ snd wl @ snd u"
      using assms(2) False probeOnce_unfold(2) [where opts = opts, OF True, of p c]
      by (auto simp: Let_def wl_def u_def)
    moreover have "alternates d (snd wl)" "mode_after d (snd wl) = d" for d
      by (simp_all add: wl_def)
    ultimately show ?thesis using l1 by (simp add: u_def)
  next
    case tr: False
    then have "w' = upd_backend b (\<lambda>_. fst (ReportHealth (err = None) (OFall opts) (ORise opts) (bheap w ! b))) w \<and>
        c' = c \<and> l = (case err of Some e \<Rightarrow> [LogProbeFailed b e] | None \<Rightarrow> [])"
      using assms(2) False probeOnce_unfold(1) [where opts = opts, OF tr, of p c] by simp
    with assms(1) l1 HealthyCount_report [OF tr] show ?thesis by simp
  qed
qed

lemma probe_seq_mode:
  "probe_seq opts p evs w c = (w', c', l) \<Longrightarrow> (ck_degraded c \<longleftrightarrow> HealthyCount w p = 0) \<Longrightarrow>
     (ck_degraded c' \<longleftrightarrow> HealthyCount w' p = 0) \<and> alternates (ck_degraded c) l \<and>
     mode_after (ck_degraded c) l = ck_degraded c'"
proof (induction evs arbitrary: w c w' c' l)
  case (Cons ev evs)
  obtain b err where ev: "ev = (b, err)" by (cases ev)
  obtain w1 c1 l1 where p: "probeOnce opts p False err b w c = (w1, c1, l1)" by (metis prod_cases3)
  obtain w2 c2 l2 where q: "probe_seq opts p evs w1 c1 = (w2, c2, l2)" by (metis prod_cases3)
  have "(w', c', l) = (w2, c2, l1 @ l2)" using Cons.prems(1) by (simp add: ev p q)
  with probeOnce_mode [OF Cons.prems(2) p] Cons.IH [OF q] show ?case by simp
qed simp





section \<open>What one reconciliation does\<close>

lemma fold_start_monitor:
  assumes "distinct bs"
  defines "news \<equiv> \<lambda>s. filter (\<lambda>b. monitors (chk s) b = None) bs"
  shows "map m_b (mons (fold start_monitor bs s)) = map m_b (mons s) @ news s \<and>
    take (length (mons s)) (mons (fold start_monitor bs s)) = mons s \<and>
    dom (monitors (chk (fold start_monitor bs s))) = dom (monitors (chk s)) \<union> set bs \<and>
    (\<forall>b c. monitors (chk s) b = Some c \<longrightarrow> monitors (chk (fold start_monitor bs s)) b = Some c) \<and>
    (\<exists>fs. cancelled (fold start_monitor bs s) = cancelled s @ fs)"
  using assms(1) unfolding news_def
proof (induction bs arbitrary: s)
  case (Cons b bs)
  let ?s = "start_monitor b s"
  have ih: "map m_b (mons (fold start_monitor bs ?s)) = map m_b (mons ?s) @ filter (\<lambda>b. monitors (chk ?s) b = None) bs"
    "take (length (mons ?s)) (mons (fold start_monitor bs ?s)) = mons ?s"
    "dom (monitors (chk (fold start_monitor bs ?s))) = dom (monitors (chk ?s)) \<union> set bs"
    "\<forall>b c. monitors (chk ?s) b = Some c \<longrightarrow> monitors (chk (fold start_monitor bs ?s)) b = Some c"
    "\<exists>fs. cancelled (fold start_monitor bs ?s) = cancelled ?s @ fs"
    using Cons.IH [of ?s] Cons.prems by auto
  show ?case
  proof (cases "monitors (chk s) b = None")
    case True
    then have st: "mons ?s = mons s @ [\<lparr>m_ctx = length (cancelled s), m_b = b, m_pc = Probing\<rparr>]"
      "monitors (chk ?s) = (monitors (chk s))(b \<mapsto> length (cancelled s))" "cancelled ?s = cancelled s @ [False]"
      by (simp_all add: start_monitor_def Let_def)
    have "filter (\<lambda>b'. monitors (chk ?s) b' = None) bs = filter (\<lambda>b. monitors (chk s) b = None) bs"
      using Cons.prems by (intro filter_cong) (auto simp: st)
    moreover have "take (length (mons s)) (mons (fold start_monitor bs ?s)) = mons s"
      using arg_cong [OF ih(2), of "take (length (mons s))"] by (simp add: st min_def)
    moreover have "monitors (chk (fold start_monitor bs ?s)) b' = Some c" if "monitors (chk s) b' = Some c" for b' c
    proof -
      have "b' \<noteq> b" using that True by auto
      with that ih(4) show ?thesis by (simp add: st)
    qed
    ultimately show ?thesis using ih True by (auto simp: st)
  next
    case False
    then have "?s = s" by (simp add: start_monitor_def)
    with ih False show ?thesis by auto
  qed
qed simp


section \<open>Monitors that run\<close>

text \<open>Contexts are numbered like the goroutines they belong to; a registered backend has a goroutine of its
  own whose context is not cancelled, and a goroutine returns only when its context is done.\<close>

definition live_inv :: "hstate \<Rightarrow> bool" where
  "live_inv s \<longleftrightarrow>
     length (cancelled s) = length (mons s) \<and>
     (\<forall>i < length (mons s). m_ctx (mons s ! i) = i \<and> (m_pc (mons s ! i) = Stopped \<longrightarrow> ctx_Err s i)) \<and>
     (\<forall>b c. monitors (chk s) b = Some c \<longrightarrow> c < length (mons s) \<and> m_b (mons s ! c) = b \<and> \<not> cancelled s ! c)"

lemma live_set_pc:
  assumes "live_inv s" "pc = Stopped \<Longrightarrow> ctx_Err s (m_ctx (mons s ! i))"
  shows "live_inv (set_pc i pc s)"
proof -
  have "m_ctx (mons (set_pc i pc s) ! j) = m_ctx (mons s ! j) \<and> m_b (mons (set_pc i pc s) ! j) = m_b (mons s ! j)" for j
    by (cases "i = j"; cases "i < length (mons s)") (simp_all add: set_pc_def list_update_beyond)
  moreover have "m_pc (mons (set_pc i pc s) ! j) = (if i = j then pc else m_pc (mons s ! j))" if "j < length (mons s)" for j
    using that by (simp add: set_pc_def nth_list_update)
  ultimately show ?thesis using assms by (auto simp: live_inv_def ctx_Err_def)
qed

lemma live_frame [simp]:
  "live_inv (s\<lparr>hw := w\<rparr>) = live_inv s" "live_inv (s\<lparr>hpool := p\<rparr>) = live_inv s" "live_inv (s\<lparr>snap := x\<rparr>) = live_inv s"
  "live_inv (s\<lparr>hlog := l\<rparr>) = live_inv s" "live_inv (s\<lparr>chk := (chk s)\<lparr>ck_degraded := d\<rparr>\<rparr>) = live_inv s"
  by (simp_all add: live_inv_def ctx_Err_def)

lemma live_stop_gone:
  assumes "live_inv s"
  shows "live_inv (stop_gone bs s)"
proof -
  have "b = b'" if "monitors (chk s) b = Some c" "monitors (chk s) b' = Some c" for b b' c
    using assms that unfolding live_inv_def by blast
  with assms show ?thesis
    by (auto simp: live_inv_def stop_gone_def ctx_Err_def restrict_map_def split: if_splits)
qed

lemma live_start_monitor: "live_inv s \<Longrightarrow> live_inv (start_monitor b s)"
  by (auto simp: live_inv_def start_monitor_def Let_def ctx_Err_def nth_append less_Suc_eq)

lemma live_reconcile: "live_inv s \<Longrightarrow> live_inv (reconcile_with bs s)"
proof -
  have "live_inv (fold start_monitor cs u)" if "live_inv u" for cs u
    using that by (induction cs arbitrary: u) (simp_all add: live_start_monitor)
  then show "live_inv s \<Longrightarrow> live_inv (reconcile_with bs s)" by (simp add: reconcile_with_def live_stop_gone)
qed

interpretation hlive: inductive_invariant "hstep opts" live_inv for opts
proof unfold_locales
  fix s t
  assume l: "live_inv s" and "hstep opts s t"
  from this(2) show "live_inv t"
  proof cases
    case h_cancel
    with l show ?thesis by (simp add: live_inv_def ctx_Err_def)
  next
    case h_stop
    with l show ?thesis by (simp add: live_inv_def Run_stop_def ctx_Err_def)
  qed (use l in \<open>auto intro!: live_set_pc simp: live_reconcile checks_def reports_def reads_def drains_def counts_def writes_def
      set_degraded_def discovery_sets_def Let_def split_beta split: if_splits\<close>)
qed

lemma live_hinit: "live_inv (hinit w p)"
  by (simp add: live_inv_def hinit_def NewChecker_def)


section \<open>After cancellation\<close>

text \<open>The health state of the first backends is \<open>hs\<close>, the root context is done and no monitor stands
  between its cancellation check and its report.\<close>

definition no_checked :: "hstate \<Rightarrow> bool" where
  "no_checked s \<longleftrightarrow> (\<forall>m \<in> set (mons s). \<forall>e. m_pc m \<noteq> Checked e)"

definition frozen :: "Options \<Rightarrow> (bool \<times> int \<times> int \<times> u64) list \<Rightarrow> hstate \<Rightarrow> bool" where
  "frozen opts hs s \<longleftrightarrow> hinv opts s \<and> root_done s \<and>
     no_checked s \<and> length hs \<le> length (bheap (hw s)) \<and> (\<forall>b < length hs. health_view (bheap (hw s) ! b) = hs ! b)"

lemma health_view_Drain:
  "wf_world w \<Longrightarrow> p < length (bheap w) \<Longrightarrow> b < length (bheap w) \<Longrightarrow>
     health_view (bheap (fst (DrainAll p w)) ! b) = health_view (bheap w ! b)"
  by (simp add: health_view_def DrainAll_bheap add_Drained_def)

lemma no_checked_set_pc:
  "no_checked s \<Longrightarrow> (\<And>e. pc \<noteq> Checked e) \<Longrightarrow> no_checked (set_pc i pc s)"
  using set_update_subset_insert [of "mons s" i "(mons s ! i)\<lparr>m_pc := pc\<rparr>"]
  by (fastforce simp: no_checked_def set_pc_def)

lemma no_checked_start: "no_checked s \<Longrightarrow> no_checked (start_monitor b s)"
  by (simp add: no_checked_def start_monitor_def Let_def)

lemma no_checked_fold_start: "no_checked s \<Longrightarrow> no_checked (fold start_monitor bs s)"
  by (induction bs arbitrary: s) (simp_all add: no_checked_start)

lemma no_checked_frame [simp]:
  "no_checked (s\<lparr>hw := w\<rparr>) = no_checked s" "no_checked (s\<lparr>hpool := p\<rparr>) = no_checked s"
  "no_checked (s\<lparr>snap := x\<rparr>) = no_checked s" "no_checked (s\<lparr>root_done := r\<rparr>) = no_checked s"
  "no_checked (s\<lparr>hlog := l\<rparr>) = no_checked s" "no_checked (s\<lparr>chk := c\<rparr>) = no_checked s"
  "no_checked (stop_gone bs s) = no_checked s" "no_checked (Run_stop s) = no_checked s"
  by (simp_all add: no_checked_def Run_stop_def)

lemma fold_start_monitor_root [simp]: "root_done (fold start_monitor bs s) = root_done s"
  by (induction bs arbitrary: s) simp_all

interpretation hfrozen: inductive_invariant "hstep opts" "frozen opts hs" for opts hs
proof unfold_locales
  fix s t
  assume fr: "frozen opts hs s" and st: "hstep opts s t"
  have inv: "hinv opts t" using fr hsm.inv_step st unfolding frozen_def by blast
  note parts = hinv_parts [of opts s]
  have wf: "wf_world (hw s)" and h: "hinv opts s" and r: "root_done s" and nc: "no_checked s"
    and len: "length hs \<le> length (bheap (hw s))" and hv: "\<forall>b < length hs. health_view (bheap (hw s) ! b) = hs ! b"
    using fr parts(1) by (simp_all add: frozen_def world_ok_def)
  have "root_done t \<and> no_checked t \<and> length hs \<le> length (bheap (hw t)) \<and>
      (\<forall>b < length hs. health_view (bheap (hw t) ! b) = hs ! b)"
    using st
  proof cases
    case (h_reconcile bs)
    with r nc len hv show ?thesis by (simp add: reconcile_with_def no_checked_fold_start)
  next
    case h_stop
    with r nc len hv show ?thesis by (simp add: Run_stop_def no_checked_def)
  next
    case (h_check i err)
    with r nc len hv show ?thesis by (simp add: checks_def ctx_Err_def no_checked_set_pc)
  next
    case (h_report i err)
    with nc show ?thesis by (auto simp: no_checked_def)
  next
    case (h_read i err)
    with r nc len hv show ?thesis by (simp add: reads_def Let_def no_checked_set_pc)
  next
    case (h_drain i)
    with r nc len hv wf hinv_monitor_bound [OF h, of i] show ?thesis
      by (simp add: drains_def split_beta Let_def no_checked_set_pc health_view_Drain)
  next
    case (h_count i)
    with r nc len hv show ?thesis by (simp add: counts_def no_checked_set_pc)
  next
    case (h_write i d)
    with r nc len hv show ?thesis by (simp add: writes_def set_degraded_def no_checked_set_pc)
  next
    case (h_discover addrs)
    obtain w' p' ad rm where s: "SetAddrs addrs (hw s) (hpool s) = (w', p', ad, rm)" by (metis prod_cases4)
    from SetAddrs_spec(1) [OF parts(2) [OF h] h_discover(3) s] h_discover r nc len hv s show ?thesis
      by (simp add: discovery_sets_def nth_append)
  next
    case (h_traffic w p)
    with r nc len hv show ?thesis by (simp add: traffic_def)
  qed (use r nc len hv wf in \<open>simp_all add: no_checked_set_pc health_view_Drain\<close>)
  with inv show "frozen opts hs t" by (simp add: frozen_def)
qed

lemma two_backends_inv: "hinv opts1 two_backends"
  unfolding two_backends_def
  by (rule hinv_hinit)
    (simp_all add: opts1_def world_ok_def wf_world_def pool_inv_def pool_addrs_def Addr_def backend_New_def
      health_inv_def less_Suc_eq)


section \<open>Properties\<close>

text \<open>C10: however probes, reconciliations, discovery, connection traffic and cancellation interleave, no
  backend is ever monitored by two goroutines; a backend in the map of monitors has a goroutine, started with
  the registered context, not cancelled, and returned only when the root context is done; every other
  goroutine has a cancelled context (none is leaked); and the pool, the connection registry and the fall/rise
  counters keep their invariants.\<close>

theorem supervisor_invariant:
  assumes "1 \<le> OFall opts" and "1 \<le> ORise opts" and "world_ok opts w" and "pool_inv w p"
    and "reaches (hstep opts) (hinit w p) s"
  shows "distinct (map m_b (mons s)) \<and>
    (\<forall>m \<in> set (mons s). monitors (chk s) (m_b m) = Some (m_ctx m) \<or>
       monitors (chk s) (m_b m) = None \<and> cancelled s ! m_ctx m) \<and>
    (\<forall>b c. monitors (chk s) b = Some c \<longrightarrow>
       (\<exists>m \<in> set (mons s). m_b m = b \<and> m_ctx m = c \<and> \<not> cancelled s ! c \<and> (m_pc m = Stopped \<longrightarrow> root_done s))) \<and>
    pool_inv (hw s) (hpool s) \<and> wf_world (hw s) \<and>
    (\<forall>b < length (bheap (hw s)). health_inv (OFall opts) (ORise opts) (bheap (hw s) ! b))"
proof -
  have "live_inv s" using hlive.reaches_inv [OF assms(5) live_hinit] .
  then have live: "\<exists>m \<in> set (mons s). m_b m = b \<and> m_ctx m = c \<and> \<not> cancelled s ! c \<and> (m_pc m = Stopped \<longrightarrow> root_done s)"
    if "monitors (chk s) b = Some c" for b c
    using that by (intro bexI [of _ "mons s ! c"]) (auto simp: live_inv_def ctx_Err_def)
  have inv: "hinv opts s" using assms hinv_hinit hsm.reaches_inv by blast
  have "(m_ctx m, m_b m) \<in> set (mon_ids s)" if "m \<in> set (mons s)" for m
    using that by (force simp: mon_ids_def)
  with hinv_parts [OF inv] live show ?thesis
    by (auto simp: world_ok_def sup_inv_def mon_inv_def mon_ids_def comp_def)
qed

theorem supervisor_invariant_witness:
  "\<exists>s. hexecs opts1 race_schedule two_backends = Some s \<and> mons s \<noteq> [] \<and> distinct (map m_b (mons s))"
proof -
  obtain s where s: "hexecs opts1 race_schedule two_backends = Some s" and m: "map m_pc (mons s) = [Waiting, Waiting]"
    by (rule race_outcome)
  from s have r: "reaches (hstep opts1) (hinit (hw two_backends) (hpool two_backends)) s"
    by (simp add: two_backends_def hinit_def hexecs_reaches)
  from hinv_parts [OF two_backends_inv] supervisor_invariant [OF _ _ _ _ r] have "distinct (map m_b (mons s))" by blast
  with s m show ?thesis by force
qed

text \<open>C22: one \<open>reconcile\<close> makes the monitored set exactly the pool: it starts one monitor for each backend
  that had none and no other, leaves the registration of the others as it is, and cancels the context
  of every monitor whose backend left.\<close>

theorem reconcile_exact:
  assumes "pool_inv (hw s) (hpool s)" and "sup_inv s"
  shows "dom (monitors (chk (reconcile s))) = set (Backends (hpool s)) \<and>
    map m_b (mons (reconcile s)) = map m_b (mons s) @
      filter (\<lambda>b. monitors (chk s) b = None) (Backends (hpool s)) \<and>
    take (length (mons s)) (mons (reconcile s)) = mons s \<and>
    (\<forall>b \<in> set (Backends (hpool s)). \<forall>c. monitors (chk s) b = Some c \<longrightarrow> monitors (chk (reconcile s)) b = Some c) \<and>
    (\<forall>b c. monitors (chk s) b = Some c \<and> b \<notin> set (Backends (hpool s)) \<longrightarrow> cancelled (reconcile s) ! c)"
proof -
  let ?bs = "Backends (hpool s)" and ?s = "stop_gone (Backends (hpool s)) s"
  have dist: "distinct ?bs"
    using assms(1) by (auto simp: pool_inv_def pool_addrs_def Backends_def distinct_map)
  have mo: "monitors (chk ?s) b = (if b \<in> set ?bs then monitors (chk s) b else None)" for b
    by (simp add: stop_gone_def)
  have news: "filter (\<lambda>b. monitors (chk ?s) b = None) ?bs = filter (\<lambda>b. monitors (chk s) b = None) ?bs"
    by (intro filter_cong) (simp_all add: mo)
  note f = fold_start_monitor [OF dist, of ?s]
  have canc: "cancelled (reconcile s) ! c" if c: "monitors (chk s) b = Some c" "b \<notin> set ?bs" for b c
  proof -
    have "b \<in> snd ` set (mon_ids s)" using assms(2) c(1) by (auto simp: sup_inv_def)
    then obtain c' where "(c', b) \<in> set (mon_ids s)" by force
    from sup_inv_mon [OF assms(2) this] c(1) have "b < length (bheap (hw s))" "c < length (cancelled s)"
      by (auto simp: mon_inv_def)
    with c have "c < length (cancelled ?s)" "cancelled ?s ! c" by (auto simp: stop_gone_def)
    with f show ?thesis by (auto simp: reconcile_def reconcile_with_def nth_append)
  qed
  have "dom (monitors (chk ?s)) \<subseteq> set ?bs" by (auto simp: mo split: if_splits)
  with f canc mo news show ?thesis by (auto simp: reconcile_def reconcile_with_def)
qed

theorem reconcile_exact_witness:
  "dom (monitors (chk (reconcile two_backends))) = {0, 1} \<and> map m_b (mons (reconcile two_backends)) = [0, 1]"
  using reconcile_exact [of two_backends] hinv_parts [OF two_backends_inv]
  by (simp add: two_backends_def hinit_def Backends_def NewChecker_def)

text \<open>C34: when probes run one after the other over a fixed pool, the degraded flag is always "no
  backend of the pool is healthy", and the log enters and leaves best-effort mode in strict
  alternation, exactly once per change, ending in the current mode.\<close>

theorem best_effort_log_exact:
  assumes "probe_seq opts p evs w NewChecker = (w', c', l)" and "HealthyCount w p \<noteq> 0"
  shows "(ck_degraded c' \<longleftrightarrow> HealthyCount w' p = 0) \<and> alternates False l \<and> (mode_after False l \<longleftrightarrow> HealthyCount w' p = 0)"
  using probe_seq_mode [OF assms(1)] assms(2) by (simp add: NewChecker_def)

theorem best_effort_log_exact_witness:
  "\<exists>w' c' l. probe_seq opts1 (hpool two_backends) [(0, Some (BadStatus 500)), (1, Some (BadStatus 500)), (0, None)]
      (hw two_backends) NewChecker = (w', c', l) \<and> alternates False l \<and> LogEnterBestEffort \<in> set l \<and> LogLeaveBestEffort \<in> set l"
proof -
  let ?evs = "[(0, Some (BadStatus 500)), (1, Some (BadStatus 500)), (0, None)]"
  obtain w' c' l where p: "probe_seq opts1 (hpool two_backends) ?evs (hw two_backends) NewChecker = (w', c', l)"
    by (metis prod_cases3)
  have "HealthyCount (hw two_backends) (hpool two_backends) \<noteq> 0" by code_simp
  moreover have "{LogEnterBestEffort, LogLeaveBestEffort} \<subseteq>
      set (snd (snd (probe_seq opts1 (hpool two_backends) ?evs (hw two_backends) NewChecker)))"
    by code_simp
  ultimately show ?thesis using best_effort_log_exact [OF p] p by auto
qed

text \<open>the flag is computed before the lock is taken, so concurrent monitors can overwrite a newer
  value with an older one: from the initial state a quiescent state is reachable in which a backend
  is healthy, every monitor is waiting for its next tick, and the checker still says (and has logged
  last) that none is.\<close>

theorem degraded_race:
  "\<exists>s. reaches (hstep opts1) two_backends s \<and> HealthyCount (hw s) (hpool s) = 1 \<and> ck_degraded (chk s) \<and>
     map m_pc (mons s) = [Waiting, Waiting]"
proof (rule race_outcome)
  fix s
  assume s: "hexecs opts1 race_schedule two_backends = Some s" and *: "map m_pc (mons s) = [Waiting, Waiting]"
    "HealthyCount (hw s) (hpool s) = 1" "ck_degraded (chk s)"
  show ?thesis by (intro exI [of _ s] conjI hexecs_reaches [OF s] *)
qed

text \<open>C23: a probe that was aborted by shutdown is not a health signal: once the root context is done
  and no monitor is past its check, no later step of any component changes the verdict, a counter or
  the failure count of a backend that exists.\<close>

theorem no_health_change_after_cancel:
  assumes "hinv opts s" and "root_done s" and "no_checked s" and "reaches (hstep opts) s t"
    and "b < length (bheap (hw s))"
  shows "health_view (bheap (hw t) ! b) = health_view (bheap (hw s) ! b)"
proof -
  let ?hs = "map health_view (bheap (hw s))"
  have "frozen opts ?hs s" using assms(1-3) by (simp add: frozen_def)
  from hfrozen.reaches_inv [OF assms(4) this] assms(5) show ?thesis by (simp add: frozen_def)
qed

theorem no_health_change_after_cancel_witness:
  "\<exists>t. hexecs opts1 [ASnapshot, AReconcile, AMon 0 (Some (BadStatus 500)), AStop, AExit 0] (two_backends\<lparr>root_done := True\<rparr>) = Some t \<and>
     health_view (bheap (hw t) ! 0) = (True, 0, 0, 0)"
proof -
  let ?s = "two_backends\<lparr>root_done := True\<rparr>"
  have "hexecs opts1 [ASnapshot, AReconcile, AMon 0 (Some (BadStatus 500)), AStop, AExit 0] ?s \<noteq> None" by code_simp
  then obtain t where t: "hexecs opts1 [ASnapshot, AReconcile, AMon 0 (Some (BadStatus 500)), AStop, AExit 0] ?s = Some t" by auto
  have inv: "hinv opts1 ?s" using two_backends_inv by (simp add: hinv_def sup_inv_def mon_ids_def mon_inv_def)
  have "no_checked ?s" "0 < length (bheap (hw ?s))" by (simp_all add: no_checked_def two_backends_def hinit_def)
  from no_health_change_after_cancel [OF inv _ this(1) hexecs_reaches [OF t] this(2)] t show ?thesis
    by (simp add: two_backends_def hinit_def health_view_def backend_New_def zero_Stats_def)
qed



text \<open>The interleaving contains the code as written: a monitor that runs from \<open>Probe\<close> to \<open>select\<close>
  without another goroutine in between does exactly what \<open>probeOnce\<close> does to the backends, the
  checker and the log, in each of its branches.\<close>

lemma probeOnce_runs:
  assumes i: "i < length (mons s)" and pc: "m_pc (mons s ! i) = Probing"
    and run: "probeOnce opts (hpool s) (ctx_Err s (m_ctx (mons s ! i))) err (m_b (mons s ! i)) (hw s) (chk s) = (w', c', l)"
  shows "\<exists>n \<le> 6. hexecs opts (replicate n (AMon i err)) s = Some (set_pc i Waiting (s\<lparr>hw := w', chk := c', hlog := hlog s @ l\<rparr>))"
proof -
  let ?b = "m_b (mons s ! i)"
  let ?rh = "ReportHealth (err = None) (OFall opts) (ORise opts) (bheap (hw s) ! ?b)"
  let ?w1 = "upd_backend ?b (\<lambda>_. fst ?rh) (hw s)"
  let ?l1 = "case err of Some e \<Rightarrow> [LogProbeFailed ?b e] | None \<Rightarrow> []"
  note simps = hexec_def mon_next_def set_pc_def Let_def split_beta
  have chain: "\<exists>n \<le> 6. hexecs opts (replicate n (AMon i err)) s = Some t"
    if "hexecs opts (replicate n (AMon i err)) s = Some t" "n \<le> 6" for n t
    using that by blast
  consider (cancelled) "ctx_Err s (m_ctx (mons s ! i))"
    | (same) "\<not> ctx_Err s (m_ctx (mons s ! i))" "\<not> snd ?rh"
    | (up) "\<not> ctx_Err s (m_ctx (mons s ! i))" "snd ?rh" "Healthy (bheap ?w1 ! ?b)"
    | (down) "\<not> ctx_Err s (m_ctx (mons s ! i))" "snd ?rh" "\<not> Healthy (bheap ?w1 ! ?b)" by blast
  then show ?thesis
  proof cases
    case cancelled
    with run i pc show ?thesis
      by (intro chain [of 1]) (simp_all add: probeOnce_def checks_def simps)
  next
    case same
    with run have "w' = ?w1 \<and> c' = chk s \<and> l = ?l1" by (auto simp: probeOnce_unfold(1))
    with same i pc show ?thesis
      by (intro chain [of 2]) (simp_all add: checks_def reports_def simps numeral_2_eq_2)
  next
    case up
    then have tr: "on_transition ?b err ?w1 = (?w1, [LogHealthy ?b])" by (simp add: on_transition_def)
    let ?u = "updateDegraded ?w1 (hpool s) (chk s)"
    have "w' = ?w1 \<and> c' = fst ?u \<and> l = ?l1 @ [LogHealthy ?b] @ snd ?u"
      using run up tr by (auto simp: probeOnce_unfold(2) Let_def)
    with up i pc show ?thesis
      by (intro chain [of 5]) (simp_all add: checks_def reports_def reads_def counts_def writes_def updateDegraded_def
          simps eval_nat_numeral)
  next
    case down
    let ?d = "DrainAll ?b ?w1"
    let ?l2 = "LogUnhealthy ?b err # drain_log ?b (snd ?d)"
    let ?u = "updateDegraded (fst ?d) (hpool s) (chk s)"
    from down have tr: "on_transition ?b err ?w1 = (fst ?d, ?l2)" by (simp add: on_transition_def split_beta)
    have "w' = fst ?d \<and> c' = fst ?u \<and> l = ?l1 @ ?l2 @ snd ?u"
      using run down tr by (auto simp: probeOnce_unfold(2) Let_def)
    with down i pc show ?thesis
      by (intro chain [of 6]) (simp_all add: checks_def reports_def reads_def drains_def counts_def writes_def updateDegraded_def
          simps eval_nat_numeral)
  qed
qed

end
