(* ===== verification/GoStrings.thy ===== *)
theory GoStrings
  imports Prelude
begin

text \<open>
  The parts of Go's \<open>strings\<close> and \<open>strconv\<close> packages the program uses. A Go string is a sequence of
  bytes, and so is an Isabelle \<open>string\<close> (\<open>char\<close> has 256 values). Functions whose Go result is \<open>-1\<close>
  for "not found" return an option. \<open>TrimSpace\<close> removes the white space of \<open>unicode.IsSpace\<close>, in its
  UTF-8 encoding.
\<close>

section \<open>Characters\<close>

abbreviation code :: "char \<Rightarrow> nat" where
  "code c \<equiv> of_char c"

abbreviation chr :: "nat \<Rightarrow> char" where
  "chr n \<equiv> char_of n"

definition is_digit :: "char \<Rightarrow> bool" where
  "is_digit c \<longleftrightarrow> 48 \<le> code c \<and> code c \<le> 57"

definition digit_val :: "char \<Rightarrow> nat" where
  "digit_val c = code c - 48"


section \<open>Package strings\<close>

definition TrimPrefix :: "string \<Rightarrow> string \<Rightarrow> string" where
  "TrimPrefix s p = (if prefix p s then drop (length p) s else s)"

fun IndexByte :: "string \<Rightarrow> char \<Rightarrow> nat option" where
  "IndexByte [] c = None"
| "IndexByte (x # xs) c = (if x = c then Some 0 else map_option Suc (IndexByte xs c))"

definition LastIndexByte :: "string \<Rightarrow> char \<Rightarrow> nat option" where
  "LastIndexByte s c = map_option (\<lambda>i. length s - 1 - i) (IndexByte (rev s) c)"

fun Index :: "string \<Rightarrow> string \<Rightarrow> nat option" where
  "Index [] sub = (if sub = [] then Some 0 else None)"
| "Index (x # xs) sub = (if prefix sub (x # xs) then Some 0 else map_option Suc (Index xs sub))"

definition Contains :: "string \<Rightarrow> string \<Rightarrow> bool" where
  "Contains s sub \<longleftrightarrow> Index s sub \<noteq> None"

text \<open>\<open>Split\<close> with a separator of one byte.\<close>

fun Split :: "string \<Rightarrow> char \<Rightarrow> string list" where
  "Split [] c = [[]]"
| "Split (x # xs) c =
     (if x = c then [] # Split xs c
      else (case Split xs c of [] \<Rightarrow> [[x]] | p # ps \<Rightarrow> (x # p) # ps))"

definition TrimLeft :: "string \<Rightarrow> string \<Rightarrow> string" where
  "TrimLeft s cutset = dropWhile (\<lambda>c. c \<in> set cutset) s"

definition TrimRight :: "string \<Rightarrow> string \<Rightarrow> string" where
  "TrimRight s cutset = rev (dropWhile (\<lambda>c. c \<in> set cutset) (rev s))"

text \<open>The number of bytes of the white-space character a string starts with, or 0.\<close>

fun space_len :: "nat list \<Rightarrow> nat" where
  "space_len (a # bs) =
     (if a \<in> {9, 10, 11, 12, 13, 32} then 1
      else (case bs of
        b # cs \<Rightarrow>
          if a = 194 \<and> b \<in> {133, 160} then 2
          else (case cs of
            c # _ \<Rightarrow>
              if (a = 225 \<and> b = 154 \<and> c = 128) \<or>
                 (a = 226 \<and> b = 128 \<and> (128 \<le> c \<and> c \<le> 138 \<or> c \<in> {168, 169, 175})) \<or>
                 (a = 226 \<and> b = 129 \<and> c = 159) \<or>
                 (a = 227 \<and> b = 128 \<and> c = 128)
              then 3 else 0
          | [] \<Rightarrow> 0)
      | [] \<Rightarrow> 0))"
| "space_len [] = 0"

text \<open>The same at the end: \<open>z\<close> is the string read backwards.\<close>

fun space_len_rev :: "nat list \<Rightarrow> nat" where
  "space_len_rev (z # ys) =
     (if z \<in> {9, 10, 11, 12, 13, 32} then 1
      else (case ys of
        y # xs \<Rightarrow>
          if space_len [y, z] = 2 then 2
          else (case xs of x # _ \<Rightarrow> if space_len [x, y, z] = 3 then 3 else 0 | [] \<Rightarrow> 0)
      | [] \<Rightarrow> 0))"
| "space_len_rev [] = 0"

function TrimLeftSpace :: "string \<Rightarrow> string" where
  "TrimLeftSpace s =
     (if space_len (map code s) = 0 then s else TrimLeftSpace (drop (space_len (map code s)) s))"
  by pat_completeness auto
termination
proof (relation "measure length")
  fix s assume "space_len (map code s) \<noteq> 0"
  then show "(drop (space_len (map code s)) s, s) \<in> measure length" by (cases s) simp_all
qed simp

function TrimRevSpace :: "string \<Rightarrow> string" where
  "TrimRevSpace z =
     (if space_len_rev (map code z) = 0 then z
      else TrimRevSpace (drop (space_len_rev (map code z)) z))"
  by pat_completeness auto
termination
proof (relation "measure length")
  fix z assume "space_len_rev (map code z) \<noteq> 0"
  then show "(drop (space_len_rev (map code z)) z, z) \<in> measure length" by (cases z) simp_all
qed simp

declare TrimLeftSpace.simps [simp del] TrimRevSpace.simps [simp del]

definition TrimRightSpace :: "string \<Rightarrow> string" where
  "TrimRightSpace s = rev (TrimRevSpace (rev s))"

definition TrimSpace :: "string \<Rightarrow> string" where
  "TrimSpace s = TrimRightSpace (TrimLeftSpace s)"


section \<open>Package strconv\<close>

fun nat_digits :: "nat \<Rightarrow> string" where
  "nat_digits n = (if n < 10 then [chr (48 + n)] else nat_digits (n div 10) @ [chr (48 + n mod 10)])"

declare nat_digits.simps [simp del]

definition Itoa :: "int \<Rightarrow> string" where
  "Itoa i = (if i < 0 then CHR ''-'' # nat_digits (nat (- i)) else nat_digits (nat i))"

definition digits_val :: "string \<Rightarrow> int" where
  "digits_val s = foldl (\<lambda>n c. n * 10 + int (digit_val c)) 0 s"

text \<open>\<open>Atoi\<close> into Go's 64-bit \<open>int\<close>; \<open>None\<close> stands for a syntax or a range error.\<close>

definition Atoi :: "string \<Rightarrow> int option" where
  "Atoi s =
     (let (neg, ds) =
        (case s of
           c # cs \<Rightarrow> if c = CHR ''-'' then (True, cs) else if c = CHR ''+'' then (False, cs) else (False, s)
         | [] \<Rightarrow> (False, []))
      in if ds = [] \<or> \<not> list_all is_digit ds then None
         else
           let n = digits_val ds in
           if neg then (if n \<le> 2 ^ 63 then Some (- n) else None)
           else (if n < 2 ^ 63 then Some n else None))"


section \<open>Searching and splitting\<close>

lemma IndexByte_None_iff: "IndexByte s c = None \<longleftrightarrow> c \<notin> set s"
  by (induction s) auto

lemma IndexByte_append:
  "IndexByte (s @ t) c =
     (case IndexByte s c of Some i \<Rightarrow> Some i | None \<Rightarrow> map_option (\<lambda>i. length s + i) (IndexByte t c))"
proof (induction s)
  case Nil
  show ?case by (cases "IndexByte t c") simp_all
next
  case (Cons x s)
  then show ?case by (cases "IndexByte s c"; cases "IndexByte t c") simp_all
qed

lemma IndexByte_Some_iff:
  "IndexByte s c = Some i \<longleftrightarrow> i < length s \<and> s ! i = c \<and> c \<notin> set (take i s)"
proof (induction s arbitrary: i)
  case (Cons x xs)
  show ?case by (cases i) (auto simp: Cons)
qed simp

lemma LastIndexByte_None_iff: "LastIndexByte s c = None \<longleftrightarrow> c \<notin> set s"
  by (simp add: LastIndexByte_def IndexByte_None_iff)

lemma LastIndexByte_last: "c \<notin> set t \<Longrightarrow> LastIndexByte (s @ c # t) c = Some (length s)"
  by (simp add: LastIndexByte_def IndexByte_append IndexByte_None_iff [THEN iffD2])

lemma Split_nonempty [simp]: "Split s c \<noteq> []"
  by (induction s) (auto split: list.splits)

lemma Split_parts: "p \<in> set (Split s c) \<Longrightarrow> c \<notin> set p"
  by (induction s arbitrary: p) (force split: if_splits list.splits)+

lemma Split_no_sep: "c \<notin> set s \<Longrightarrow> Split s c = [s]"
  by (induction s) auto

lemma Split_append: "c \<notin> set s \<Longrightarrow> Split (s @ c # t) c = s # Split t c"
  by (induction s) auto

lemma Split_set: "p \<in> set (Split s c) \<Longrightarrow> set p \<subseteq> set s"
proof (induction s arbitrary: p)
  case (Cons x xs)
  then show ?case by (fastforce split: if_splits list.splits)
qed simp

lemma Index_single: "Index s [c] = IndexByte s c"
  by (induction s) auto

lemma Contains_single: "Contains s [c] \<longleftrightarrow> c \<in> set s"
  by (simp add: Contains_def Index_single IndexByte_None_iff)


section \<open>Trimming\<close>

lemma TrimLeftSpace_suffix: "suffix (TrimLeftSpace s) s"
proof (induction s rule: TrimLeftSpace.induct)
  case (1 s)
  then show ?case
    using TrimLeftSpace.simps [of s] suffix_drop suffix_order.trans by (cases "space_len (map code s) = 0") fastforce+
qed

lemma TrimRevSpace_suffix: "suffix (TrimRevSpace s) s"
proof (induction s rule: TrimRevSpace.induct)
  case (1 s)
  then show ?case
    using TrimRevSpace.simps [of s] suffix_drop suffix_order.trans by (cases "space_len_rev (map code s) = 0") fastforce+
qed

lemma TrimRightSpace_prefix: "prefix (TrimRightSpace s) s"
  using TrimRevSpace_suffix [of "rev s"] by (simp add: TrimRightSpace_def suffix_to_prefix)

lemma TrimSpace_set: "set (TrimSpace s) \<subseteq> set s"
  using set_mono_suffix [OF TrimLeftSpace_suffix [of s]]
    set_mono_prefix [OF TrimRightSpace_prefix [of "TrimLeftSpace s"]]
  by (simp add: TrimSpace_def)

lemma TrimSpace_length: "length (TrimSpace s) \<le> length s"
  using suffix_length_le [OF TrimLeftSpace_suffix [of s]]
    prefix_length_le [OF TrimRightSpace_prefix [of "TrimLeftSpace s"]]
  by (simp add: TrimSpace_def)

lemma space_len_multi:
  "space_len [y, z] = 2 \<Longrightarrow> 128 \<le> z"
  "space_len [x, y, z] = 3 \<Longrightarrow> 128 \<le> z"
  by (auto split: if_splits)

lemma space_len_rev_ascii:
  assumes "33 \<le> z" "z \<le> 127"
  shows "space_len_rev (z # ys) = 0"
proof -
  have "space_len [y, z] \<noteq> 2" "space_len [x, y, z] \<noteq> 3" for x y
    using assms space_len_multi(1) [of y z] space_len_multi(2) [of x y z] by linarith+
  moreover have "z \<notin> {9, 10, 11, 12, 13, 32}" using assms by auto
  ultimately show ?thesis
    by (simp del: space_len.simps split: list.splits)
qed

text \<open>A string that starts and ends with printable ASCII is not changed.\<close>

lemma TrimSpace_id:
  assumes "s = [] \<or> (code (hd s) \<in> {33..127} \<and> code (last s) \<in> {33..127})"
  shows "TrimSpace s = s"
proof (cases s rule: rev_cases)
  case Nil
  then show ?thesis
    by (simp add: TrimSpace_def TrimRightSpace_def TrimLeftSpace.simps TrimRevSpace.simps)
next
  case (snoc t z)
  have hd: "code (hd s) \<in> {33..127}" and last: "code z \<in> {33..127}" using assms snoc by auto
  have "s \<noteq> []" using snoc by simp
  then obtain a u where s: "s = a # u" by (cases s) simp_all
  have "space_len (map code s) = 0"
    using hd unfolding s by (auto split: list.splits)
  then have l: "TrimLeftSpace s = s" by (simp add: TrimLeftSpace.simps)
  have "space_len_rev (map code (z # rev t)) = 0"
    using last space_len_rev_ascii [of "code z" "map code (rev t)"] by simp
  then have "TrimRevSpace (rev s) = rev s" by (simp add: snoc TrimRevSpace.simps)
  with l show ?thesis by (simp add: TrimSpace_def TrimRightSpace_def)
qed


section \<open>Numbers\<close>

lemma of_char_digit: "n < 10 \<Longrightarrow> code (chr (48 + n)) = 48 + n"
  by simp

lemma is_digit_chr [simp]: "n < 10 \<Longrightarrow> is_digit (chr (48 + n))"
  unfolding is_digit_def by (simp add: of_char_digit)

lemma digit_val_chr [simp]: "n < 10 \<Longrightarrow> digit_val (chr (48 + n)) = n"
  unfolding digit_val_def by (simp add: of_char_digit)

lemma digits_val_snoc: "digits_val (s @ [c]) = digits_val s * 10 + int (digit_val c)"
  by (simp add: digits_val_def)

lemma nat_digits_ok: "nat_digits n \<noteq> [] \<and> list_all is_digit (nat_digits n) \<and> digits_val (nat_digits n) = int n"
proof (induction n rule: nat_digits.induct)
  case (1 n)
  show ?case
  proof (cases "n < 10")
    case True
    then show ?thesis by (subst (1 2 3) nat_digits.simps) (simp add: digits_val_def)
  next
    case False
    have "int (n div 10) * 10 + int (n mod 10) = int n"
      by (metis div_mult_mod_eq of_nat_add of_nat_mult of_nat_numeral)
    with 1 False show ?thesis
      by (subst (1 2 3) nat_digits.simps) (simp add: digits_val_snoc)
  qed
qed

lemma digit_not_sign: "is_digit c \<Longrightarrow> c \<noteq> CHR ''-'' \<and> c \<noteq> CHR ''+'' \<and> c \<noteq> CHR '':'' \<and> c \<noteq> CHR ''['' \<and> c \<noteq> CHR '']''"
  by (auto simp: is_digit_def)

lemma nat_digits_cases: "\<exists>c cs. nat_digits n = c # cs \<and> is_digit c"
  using nat_digits_ok [of n] by (cases "nat_digits n") auto

lemma Atoi_nat_digits: "n < 2 ^ 63 \<Longrightarrow> Atoi (nat_digits n) = Some (int n)"
  using nat_digits_cases [of n] nat_digits_ok [of n] digit_not_sign
  by (auto simp: Atoi_def)

lemma Atoi_Itoa:
  assumes "- (2 ^ 63) \<le> i" "i < 2 ^ 63"
  shows "Atoi (Itoa i) = Some i"
proof (cases "i < 0")
  case True
  with assms(1) nat_digits_ok [of "nat (- i)"] show ?thesis
    by (simp add: Itoa_def Atoi_def)
next
  case False
  with assms Atoi_nat_digits [of "nat i"] show ?thesis
    by (simp add: Itoa_def nat_less_iff)
qed

lemma nat_digits_set: "c \<in> set (nat_digits n) \<Longrightarrow> is_digit c"
  using nat_digits_ok [of n] by (auto simp: list_all_iff)

lemma Itoa_set: "c \<in> set (Itoa i) \<Longrightarrow> is_digit c \<or> c = CHR ''-''"
  using nat_digits_set by (auto simp: Itoa_def split: if_splits)

end
