(* ===== verification/Config.thy ===== *)
theory Config
  imports GoStrings
begin

text \<open>
  \<^verbatim>\<open>src/internal/config/config.go\<close>: the configuration record, the splitting of the server list and
  the query for explicitly set flags. Durations are Go's \<open>time.Duration\<close> in nanoseconds.
\<close>

section \<open>State\<close>

record Config =
  Listen :: string
  Servers :: "string list"
  Balance :: string
  HealthCheckMode :: string
  HealthInterval :: int
  HealthTimeout :: int
  Fall :: int
  Rise :: int
  DialTimeout :: int
  CAFile :: string
  InsecureSkipVerify :: bool
  KeepalivePeriod :: int
  MetricsListen :: string
  LogLevel :: string
  LogFormat :: string
  AllowNonLoopback :: bool
  ShutdownGrace :: int
  ShowVersion :: bool
  DiscoveryKubeconfig :: string
  DiscoveryInterval :: int
  StateFile :: string
  explicit :: "string list" \<comment> \<open>the names mapped to \<open>true\<close>\<close>


section \<open>Operations\<close>

definition Explicit :: "Config \<Rightarrow> string \<Rightarrow> bool" where
  "Explicit c name \<longleftrightarrow> name \<in> set (explicit c)"

definition splitServers :: "string \<Rightarrow> string list" where
  "splitServers csv = filter (\<lambda>s. s \<noteq> []) (map TrimSpace (Split csv CHR '',''))"


section \<open>Lemmas\<close>

lemma splitServers_entries: "s \<in> set (splitServers csv) \<Longrightarrow> s \<noteq> [] \<and> CHR '','' \<notin> set s"
  using TrimSpace_set Split_parts by (fastforce simp: splitServers_def)

end
