(* ===== verification/GoNet.thy ===== *)
theory GoNet
  imports GoStrings
begin

text \<open>
  The address handling of Go's \<open>net\<close> package the program uses: \<open>SplitHostPort\<close>, \<open>JoinHostPort\<close>,
  \<open>ParseIP\<close> (through \<open>netip.ParseAddr\<close>), \<open>IP.To4\<close>, \<open>IP.Equal\<close> and \<open>IP.IsLoopback\<close>. An IP is its list
  of bytes, 4 or 16 of them; an IPv4 literal parses to its 16-byte form.
\<close>

section \<open>host:port\<close>

datatype addr_error =
    MissingPort string
  | TooManyColons string
  | MissingBracket string
  | UnexpectedOpen string
  | UnexpectedClose string

definition SplitHostPort :: "string \<Rightarrow> (addr_error, string \<times> string) res" where
  "SplitHostPort hp =
     (case LastIndexByte hp CHR '':'' of
        None \<Rightarrow> Inl (MissingPort hp)
      | Some i \<Rightarrow>
          let rest =
            (\<lambda>host j k.
               if CHR ''['' \<in> set (drop j hp) then Inl (UnexpectedOpen hp)
               else if CHR '']'' \<in> set (drop k hp) then Inl (UnexpectedClose hp)
               else Inr (host, drop (i + 1) hp))
          in
          if hp ! 0 = CHR ''['' then
            (case IndexByte hp CHR '']'' of
               None \<Rightarrow> Inl (MissingBracket hp)
             | Some end \<Rightarrow>
                 if end + 1 = length hp then Inl (MissingPort hp)
                 else if end + 1 = i then rest (drop 1 (take end hp)) 1 (end + 1)
                 else if hp ! (end + 1) = CHR '':'' then Inl (TooManyColons hp)
                 else Inl (MissingPort hp))
          else
            let host = take i hp in
            if CHR '':'' \<in> set host then Inl (TooManyColons hp) else rest host 0 0)"

definition JoinHostPort :: "string \<Rightarrow> string \<Rightarrow> string" where
  "JoinHostPort host port =
     (if CHR '':'' \<in> set host then ''['' @ host @ '']:'' @ port else host @ '':'' @ port)"


section \<open>IP addresses\<close>

type_synonym IP = "nat list"

definition To4 :: "IP \<Rightarrow> IP option" where
  "To4 ip =
     (if length ip = 4 then Some ip
      else if length ip = 16 \<and> take 10 ip = replicate 10 0 \<and> ip ! 10 = 255 \<and> ip ! 11 = 255
      then Some (drop 12 ip)
      else None)"

definition IP_Equal :: "IP \<Rightarrow> IP \<Rightarrow> bool" where
  "IP_Equal ip x =
     (if length ip = length x then ip = x
      else if length ip = 4 \<and> length x = 16 then
        take 12 x = replicate 10 0 @ [255, 255] \<and> ip = drop 12 x
      else if length ip = 16 \<and> length x = 4 then
        take 12 ip = replicate 10 0 @ [255, 255] \<and> drop 12 ip = x
      else False)"

definition IPv6loopback :: IP where
  "IPv6loopback = replicate 15 0 @ [1]"

definition IsLoopback :: "IP \<Rightarrow> bool" where
  "IsLoopback ip =
     (case To4 ip of Some ip4 \<Rightarrow> ip4 ! 0 = 127 | None \<Rightarrow> IP_Equal ip IPv6loopback)"

text \<open>The field loop of \<open>parseIPv4Fields\<close>: \<open>val\<close> and \<open>digLen\<close> of the current octet, the octets done.\<close>

fun parseIPv4Fields :: "nat \<Rightarrow> nat \<Rightarrow> nat list \<Rightarrow> string \<Rightarrow> nat list option" where
  "parseIPv4Fields val digLen fields [] = (if length fields < 3 then None else Some (fields @ [val]))"
| "parseIPv4Fields val digLen fields (c # cs) =
     (if is_digit c then
        if digLen = 1 \<and> val = 0 then None
        else
          let val = val * 10 + digit_val c in
          if val > 255 then None else parseIPv4Fields val (digLen + 1) fields cs
      else if c = CHR ''.'' then
        if digLen = 0 \<or> cs = [] then None
        else if length fields = 3 then None
        else parseIPv4Fields 0 0 (fields @ [val]) cs
      else None)"

definition hex_val :: "char \<Rightarrow> nat option" where
  "hex_val c =
     (let n = code c in
      if 48 \<le> n \<and> n \<le> 57 then Some (n - 48)
      else if 97 \<le> n \<and> n \<le> 102 then Some (n - 97 + 10)
      else if 65 \<le> n \<and> n \<le> 70 then Some (n - 65 + 10)
      else None)"

definition hex_num :: "string \<Rightarrow> nat" where
  "hex_num s = foldl (\<lambda>a c. a * 16 + the (hex_val c)) 0 s"

text \<open>
  The loop of \<open>parseIPv6\<close> over the 16-bit groups. \<open>ip\<close> holds the bytes parsed so far, \<open>ell\<close> the
  position of the ellipsis; the result adds what is left of the input.
\<close>

function parseIPv6_loop :: "nat list \<Rightarrow> nat option \<Rightarrow> string \<Rightarrow> (nat list \<times> nat option \<times> string) option" where
  "parseIPv6_loop ip ell s =
     (if 16 \<le> length ip then Some (ip, ell, s)
      else
        let h = takeWhile (\<lambda>c. hex_val c \<noteq> None) s; r = dropWhile (\<lambda>c. hex_val c \<noteq> None) s in
        if 4 < length h then None
        else if h = [] then None
        else if r \<noteq> [] \<and> hd r = CHR ''.'' then
          if ell = None \<and> length ip \<noteq> 12 then None
          else if 16 < length ip + 4 then None
          else (case parseIPv4Fields 0 0 [] s of None \<Rightarrow> None | Some v4 \<Rightarrow> Some (ip @ v4, ell, []))
        else
          let ip = ip @ [hex_num h div 256, hex_num h mod 256] in
          if r = [] then Some (ip, ell, [])
          else if hd r \<noteq> CHR '':'' then None
          else if length r = 1 then None
          else
            let s = tl r in
            if hd s = CHR '':'' then
              if ell \<noteq> None then None
              else if tl s = [] then Some (ip, Some (length ip), [])
              else parseIPv6_loop ip (Some (length ip)) (tl s)
            else parseIPv6_loop ip ell s)"
  by pat_completeness auto
termination
  by (relation "measure (\<lambda>(ip, ell, s). 16 - length ip)") auto

declare parseIPv6_loop.simps [simp del]

definition parseIPv6 :: "string \<Rightarrow> IP option" where
  "parseIPv6 s0 =
     (let lead = prefix ''::'' s0; s = (if lead then drop 2 s0 else s0) in
      if lead \<and> s = [] then Some (replicate 16 0)
      else
        (case parseIPv6_loop [] (if lead then Some 0 else None) s of
           None \<Rightarrow> None
         | Some (ip, ell, rest) \<Rightarrow>
             if rest \<noteq> [] then None
             else if length ip < 16 then
               (case ell of
                  None \<Rightarrow> None
                | Some e \<Rightarrow> Some (take e ip @ replicate (16 - length ip) 0 @ drop e ip))
             else if ell \<noteq> None then None
             else Some ip))"

text \<open>\<open>ParseIP\<close>: the first of \<open>.\<close>, \<open>:\<close> and \<open>%\<close> in the text decides; an address with a zone is refused.\<close>

definition ParseIP :: "string \<Rightarrow> IP option" where
  "ParseIP s =
     (case find (\<lambda>c. c \<in> set ''.:%'') s of
        None \<Rightarrow> None
      | Some c \<Rightarrow>
          if c = CHR ''.'' then
            map_option (\<lambda>v4. replicate 10 0 @ [255, 255] @ v4) (parseIPv4Fields 0 0 [] s)
          else if c = CHR '':'' then (if CHR ''%'' \<in> set s then None else parseIPv6 s)
          else None)"


section \<open>Facts\<close>

lemma Split_Join_HostPort:
  assumes h: "CHR ''['' \<notin> set h" "CHR '']'' \<notin> set h"
    and p: "CHR '':'' \<notin> set p" "CHR ''['' \<notin> set p" "CHR '']'' \<notin> set p"
  shows "SplitHostPort (JoinHostPort h p) = Inr (h, p)"
proof (cases "CHR '':'' \<in> set h")
  case True
  let ?hp = "CHR ''['' # h @ CHR '']'' # CHR '':'' # p"
  have last: "LastIndexByte ?hp CHR '':'' = Some (length h + 2)"
    using LastIndexByte_last [OF p(1), of "CHR ''['' # h @ '']''"] by simp
  have close: "IndexByte ?hp CHR '']'' = Some (length h + 1)"
    using h(2) by (simp add: IndexByte_append IndexByte_None_iff [THEN iffD2])
  from True last close h p show ?thesis
    by (simp add: JoinHostPort_def SplitHostPort_def)
next
  case False
  have last: "LastIndexByte (h @ CHR '':'' # p) CHR '':'' = Some (length h)"
    by (rule LastIndexByte_last [OF p(1)])
  have "(h @ CHR '':'' # p) ! 0 \<noteq> CHR ''[''"
    using h(1) by (cases h) auto
  with False last h p show ?thesis
    by (simp add: JoinHostPort_def SplitHostPort_def)
qed

lemma SplitHostPort_port:
  assumes "SplitHostPort hp = Inr (h, p)"
  shows "CHR '':'' \<notin> set p" "CHR ''['' \<notin> set p" "CHR '']'' \<notin> set p"
proof -
  obtain i where i: "LastIndexByte hp CHR '':'' = Some i" and p: "p = drop (i + 1) hp"
    using assms by (auto simp: SplitHostPort_def Let_def split: option.splits if_splits)
  from i obtain j where j: "IndexByte (rev hp) CHR '':'' = Some j" and "i = length hp - 1 - j"
    by (auto simp: LastIndexByte_def)
  then have "p = rev (take j (rev hp))"
    using j p by (auto simp: IndexByte_Some_iff take_rev Suc_diff_Suc)
  with j show "CHR '':'' \<notin> set p" by (simp add: IndexByte_Some_iff)
  have "CHR ''['' \<notin> set hp \<and> CHR '']'' \<notin> set hp \<or>
      CHR ''['' \<notin> set (drop 1 hp) \<and> CHR '']'' \<notin> set (drop i hp)"
    using assms i by (simp add: SplitHostPort_def Let_def split: option.splits if_splits)
  then show "CHR ''['' \<notin> set p" "CHR '']'' \<notin> set p"
    using set_drop_subset_set_drop [of 1 "i + 1" hp] set_drop_subset_set_drop [of i "i + 1" hp]
      set_drop_subset [of "i + 1" hp]
    unfolding p by auto
qed

lemma parseIPv4Fields_length:
  "parseIPv4Fields v d fs s = Some ip \<Longrightarrow> length fs \<le> 3 \<Longrightarrow> length ip = 4"
  by (induction v d fs s rule: parseIPv4Fields.induct)
    (auto simp: Let_def split: if_splits)

lemma IsLoopback_v4: "length v4 = 4 \<Longrightarrow> IsLoopback (replicate 10 0 @ [255, 255] @ v4) \<longleftrightarrow> v4 ! 0 = 127"
  by (simp add: IsLoopback_def To4_def nth_append)

lemma IP_Equal_refl [simp]: "IP_Equal ip ip"
  by (simp add: IP_Equal_def)

lemma IP_Equal_sym: "IP_Equal ip x = IP_Equal x ip"
  by (auto simp: IP_Equal_def)

end
