(* ===== verification/Validate.thy ===== *)
theory Validate
  imports Config GoNet
begin

text \<open>
  \<^verbatim>\<open>src/internal/config/validate.go\<close>: validation of the effective configuration and of server
  lists, at startup and for every discovered list.

  The resolver (\<open>LookupFunc\<close>, or \<open>net.LookupIP\<close> where the source passes \<open>nil\<close>) and the outcome of
  opening the CA file are arguments: \<open>lookup\<close> maps a host to its addresses or to an error text,
  \<open>open_err\<close> maps a path to the error of \<open>os.Open\<close>, if any. Errors are values in the order the
  source checks them; the first problem is returned.
\<close>

section \<open>Errors\<close>

type_synonym lookup_fn = "string \<Rightarrow> (string, IP list) res"

datatype hostport_error =
    NotHostPort addr_error
  | EmptyHost string
  | InvalidPort string

datatype server_error =
    ServersEmpty
  | ServerDuplicate string
  | ServerHostPort string hostport_error
  | ServerResolve string string string
  | ServerLoopback string IP
  | ServerIsListen string string
  | ListenHostPort hostport_error
  | ListenResolve string string

datatype config_error =
    BadBalance string
  | BadHealthCheckMode string
  | BadLogLevel string
  | BadLogFormat string
  | BadFall int
  | BadRise int
  | BadDuration string int
  | StateFileNeedsDiscovery
  | BadKeepalive int
  | NonLoopbackListen string
  | BadServers server_error
  | BadListen server_error
  | BadMetricsListen hostport_error
  | CAContradiction
  | CAFileOpen string
  | SkipVerifyNeedsCA


section \<open>Hosts and ports\<close>

definition validateHostPort :: "string \<Rightarrow> (hostport_error, string) res" where
  "validateHostPort s =
     (case SplitHostPort s of
        Inl e \<Rightarrow> Inl (NotHostPort e)
      | Inr (host, port) \<Rightarrow>
          if host = [] then Inl (EmptyHost s)
          else
            (case Atoi port of
               None \<Rightarrow> Inl (InvalidPort port)
             | Some n \<Rightarrow> if n < 1 \<or> n > 65535 then Inl (InvalidPort port) else Inr host))"

definition resolveHost :: "string \<Rightarrow> lookup_fn \<Rightarrow> (string, IP list) res" where
  "resolveHost host lookup = (case ParseIP host of Some ip \<Rightarrow> Inr [ip] | None \<Rightarrow> lookup host)"

text \<open>\<open>_, port, _ := net.SplitHostPort(s)\<close>: the port, empty on an error.\<close>

definition port_of :: "string \<Rightarrow> string" where
  "port_of s = (case SplitHostPort s of Inl _ \<Rightarrow> [] | Inr (_, port) \<Rightarrow> port)"


section \<open>Server lists\<close>

text \<open>The inner loop over the addresses a server resolves to.\<close>

fun check_ips :: "string \<Rightarrow> string \<Rightarrow> string \<Rightarrow> string \<Rightarrow> IP list \<Rightarrow> IP list \<Rightarrow> (server_error, unit) res" where
  "check_ips s listen port listenPort listenIPs [] = Inr ()"
| "check_ips s listen port listenPort listenIPs (ip # ips) =
     (if IsLoopback ip then Inl (ServerLoopback s ip)
      else if port = listenPort \<and> (\<exists>lip \<in> set listenIPs. IP_Equal ip lip)
      then Inl (ServerIsListen s listen)
      else check_ips s listen port listenPort listenIPs ips)"

definition check_server ::
  "string \<Rightarrow> string \<Rightarrow> IP list \<Rightarrow> lookup_fn \<Rightarrow> string \<Rightarrow> (server_error, unit) res" where
  "check_server listen listenPort listenIPs lookup s =
     (case validateHostPort s of
        Inl e \<Rightarrow> Inl (ServerHostPort s e)
      | Inr host \<Rightarrow>
          (case resolveHost host lookup of
             Inl e \<Rightarrow> Inl (ServerResolve s host e)
           | Inr ips \<Rightarrow> check_ips s listen (port_of s) listenPort listenIPs ips))"

fun check_servers ::
  "string \<Rightarrow> string \<Rightarrow> IP list \<Rightarrow> lookup_fn \<Rightarrow> string set \<Rightarrow> string list \<Rightarrow> (server_error, unit) res" where
  "check_servers listen listenPort listenIPs lookup seen [] = Inr ()"
| "check_servers listen listenPort listenIPs lookup seen (s # ss) =
     (if s \<in> seen then Inl (ServerDuplicate s)
      else
        (case check_server listen listenPort listenIPs lookup s of
           Inl e \<Rightarrow> Inl e
         | Inr _ \<Rightarrow> check_servers listen listenPort listenIPs lookup (insert s seen) ss))"

definition validateServers ::
  "string list \<Rightarrow> string \<Rightarrow> IP list \<Rightarrow> lookup_fn \<Rightarrow> (server_error, unit) res" where
  "validateServers servers listen listenIPs lookup =
     (if length servers = 0 then Inl ServersEmpty
      else check_servers listen (port_of listen) listenIPs lookup {} servers)"

definition ValidateServers :: "string list \<Rightarrow> string \<Rightarrow> lookup_fn \<Rightarrow> (server_error, unit) res" where
  "ValidateServers servers listen lookup =
     (case validateHostPort listen of
        Inl e \<Rightarrow> Inl (ListenHostPort e)
      | Inr listenHost \<Rightarrow>
          (case resolveHost listenHost lookup of
             Inl e \<Rightarrow> Inl (ListenResolve listenHost e)
           | Inr listenIPs \<Rightarrow> validateServers servers listen listenIPs lookup))"


section \<open>The configuration\<close>

definition checked_durations :: "Config \<Rightarrow> (string \<times> int) list" where
  "checked_durations c =
     [(''health-interval'', HealthInterval c), (''health-timeout'', HealthTimeout c),
      (''dial-timeout'', DialTimeout c), (''shutdown-grace'', ShutdownGrace c),
      (''discovery-interval'', DiscoveryInterval c)]"

text \<open>The enumerated options and the numeric bounds, up to \<open>--keepalive-period\<close>.\<close>

definition check_options :: "Config \<Rightarrow> (config_error, unit) res" where
  "check_options c =
     (if Balance c \<notin> {''round-robin'', ''least-conn''} then Inl (BadBalance (Balance c))
      else if HealthCheckMode c \<notin> {''readyz'', ''tcp''} then Inl (BadHealthCheckMode (HealthCheckMode c))
      else if LogLevel c \<notin> {''debug'', ''info'', ''warn'', ''error''} then Inl (BadLogLevel (LogLevel c))
      else if LogFormat c \<notin> {''text'', ''json''} then Inl (BadLogFormat (LogFormat c))
      else if Fall c < 1 then Inl (BadFall (Fall c))
      else if Rise c < 1 then Inl (BadRise (Rise c))
      else
        (case find (\<lambda>(name, val). val \<le> 0) (checked_durations c) of
           Some (name, val) \<Rightarrow> Inl (BadDuration name val)
         | None \<Rightarrow>
             if StateFile c \<noteq> [] \<and> DiscoveryKubeconfig c = [] then Inl StateFileNeedsDiscovery
             else if KeepalivePeriod c < 0 then Inl (BadKeepalive (KeepalivePeriod c))
             else Inr ()))"

text \<open>The CA file and its side effect on \<open>InsecureSkipVerify\<close>.\<close>

definition check_ca :: "(string \<Rightarrow> string option) \<Rightarrow> Config \<Rightarrow> (config_error, Config) res" where
  "check_ca open_err c =
     (if CAFile c \<noteq> [] then
        if Explicit c ''insecure-skip-verify'' \<and> InsecureSkipVerify c then Inl CAContradiction
        else
          (case open_err (CAFile c) of
             Some e \<Rightarrow> Inl (CAFileOpen e)
           | None \<Rightarrow> Inr (c\<lparr>InsecureSkipVerify := False\<rparr>))
      else if Explicit c ''insecure-skip-verify'' \<and> \<not> InsecureSkipVerify c then Inl SkipVerifyNeedsCA
      else Inr c)"

definition Validate :: "lookup_fn \<Rightarrow> (string \<Rightarrow> string option) \<Rightarrow> Config \<Rightarrow> (config_error, Config) res" where
  "Validate lookup open_err c =
     res_bind (check_options c) (\<lambda>_.
     res_bind (map_error (\<lambda>e. BadListen (ListenHostPort e)) (validateHostPort (Listen c))) (\<lambda>listenHost.
     res_bind (map_error (\<lambda>e. BadListen (ListenResolve listenHost e)) (resolveHost listenHost lookup)) (\<lambda>listenIPs.
     if \<not> AllowNonLoopback c \<and> (\<exists>ip \<in> set listenIPs. \<not> IsLoopback ip)
     then Inl (NonLoopbackListen (Listen c))
     else
       res_bind (map_error BadServers (validateServers (Servers c) (Listen c) listenIPs lookup)) (\<lambda>_.
       res_bind (if MetricsListen c \<noteq> [] then map_error BadMetricsListen (validateHostPort (MetricsListen c))
                 else Inr []) (\<lambda>_.
       check_ca open_err c)))))"


section \<open>Specification of what is accepted\<close>

text \<open>What one entry must satisfy, with no order and no error reporting.\<close>

definition server_ok :: "string \<Rightarrow> IP list \<Rightarrow> lookup_fn \<Rightarrow> string \<Rightarrow> bool" where
  "server_ok listen listenIPs lookup s \<longleftrightarrow>
     (\<exists>host ips. validateHostPort s = Inr host \<and> resolveHost host lookup = Inr ips \<and>
        (\<forall>ip \<in> set ips. \<not> IsLoopback ip \<and>
           \<not> (port_of s = port_of listen \<and> (\<exists>lip \<in> set listenIPs. IP_Equal ip lip))))"

definition servers_ok :: "string list \<Rightarrow> string \<Rightarrow> IP list \<Rightarrow> lookup_fn \<Rightarrow> bool" where
  "servers_ok servers listen listenIPs lookup \<longleftrightarrow>
     servers \<noteq> [] \<and> distinct servers \<and> (\<forall>s \<in> set servers. server_ok listen listenIPs lookup s)"

definition options_ok :: "Config \<Rightarrow> bool" where
  "options_ok c \<longleftrightarrow>
     Balance c \<in> {''round-robin'', ''least-conn''} \<and>
     HealthCheckMode c \<in> {''readyz'', ''tcp''} \<and>
     LogLevel c \<in> {''debug'', ''info'', ''warn'', ''error''} \<and>
     LogFormat c \<in> {''text'', ''json''} \<and>
     1 \<le> Fall c \<and> 1 \<le> Rise c \<and>
     0 < HealthInterval c \<and> 0 < HealthTimeout c \<and> 0 < DialTimeout c \<and> 0 < ShutdownGrace c \<and>
     0 < DiscoveryInterval c \<and> 0 \<le> KeepalivePeriod c \<and>
     (StateFile c = [] \<or> DiscoveryKubeconfig c \<noteq> [])"

definition ca_ok :: "(string \<Rightarrow> string option) \<Rightarrow> Config \<Rightarrow> bool" where
  "ca_ok open_err c \<longleftrightarrow>
     (if CAFile c \<noteq> [] then \<not> (Explicit c ''insecure-skip-verify'' \<and> InsecureSkipVerify c) \<and>
        open_err (CAFile c) = None
      else \<not> (Explicit c ''insecure-skip-verify'' \<and> \<not> InsecureSkipVerify c))"

definition config_ok :: "lookup_fn \<Rightarrow> (string \<Rightarrow> string option) \<Rightarrow> Config \<Rightarrow> bool" where
  "config_ok lookup open_err c \<longleftrightarrow>
     options_ok c \<and>
     (\<exists>host ips. validateHostPort (Listen c) = Inr host \<and> resolveHost host lookup = Inr ips \<and>
        (AllowNonLoopback c \<or> (\<forall>ip \<in> set ips. IsLoopback ip)) \<and>
        servers_ok (Servers c) (Listen c) ips lookup) \<and>
     (MetricsListen c = [] \<or> is_ok (validateHostPort (MetricsListen c))) \<and>
     ca_ok open_err c"

text \<open>The configuration \<open>Validate\<close> leaves behind.\<close>

definition effective :: "Config \<Rightarrow> Config" where
  "effective c = (if CAFile c \<noteq> [] then c\<lparr>InsecureSkipVerify := False\<rparr> else c)"


text \<open>The configuration of the documented deployment, with a CA bundle.\<close>

definition example_config :: Config where
  "example_config =
     \<lparr>Listen = ''127.0.0.1:6443'', Servers = [''10.0.0.1:6443'', ''10.0.0.2:6443''], Balance = ''round-robin'',
      HealthCheckMode = ''readyz'', HealthInterval = 3000000000, HealthTimeout = 3000000000, Fall = 2, Rise = 2,
      DialTimeout = 3000000000, CAFile = ''/etc/kubernetes/pki/ca.crt'', InsecureSkipVerify = True,
      KeepalivePeriod = 30000000000, MetricsListen = [], LogLevel = ''info'', LogFormat = ''text'',
      AllowNonLoopback = False, ShutdownGrace = 10000000000, ShowVersion = False, DiscoveryKubeconfig = [],
      DiscoveryInterval = 30000000000, StateFile = [], explicit = [''servers'', ''ca-file'']\<rparr>"


section \<open>Lemmas\<close>

lemma validateHostPort_Inr_iff:
  "validateHostPort s = Inr host \<longleftrightarrow>
     (\<exists>port n. SplitHostPort s = Inr (host, port) \<and> host \<noteq> [] \<and> Atoi port = Some n \<and> 1 \<le> n \<and> n \<le> 65535)"
  by (auto simp: validateHostPort_def split: sum.splits option.splits if_splits)

lemma check_ips_Inr_iff:
  "check_ips s listen port listenPort listenIPs ips = Inr u \<longleftrightarrow>
     (\<forall>ip \<in> set ips. \<not> IsLoopback ip \<and> \<not> (port = listenPort \<and> (\<exists>lip \<in> set listenIPs. IP_Equal ip lip)))"
  by (induction ips) auto

lemma check_server_Inr_iff:
  "check_server listen (port_of listen) listenIPs lookup s = Inr u \<longleftrightarrow> server_ok listen listenIPs lookup s"
  unfolding check_server_def server_ok_def case_sum_Inr_iff check_ips_Inr_iff by simp

lemma check_servers_Inr_iff:
  "check_servers listen (port_of listen) listenIPs lookup seen ss = Inr u \<longleftrightarrow>
     distinct ss \<and> set ss \<inter> seen = {} \<and> (\<forall>s \<in> set ss. server_ok listen listenIPs lookup s)"
proof (induction ss arbitrary: seen)
  case (Cons s ss)
  show ?case
    unfolding check_servers.simps guard_Inr_iff case_sum_Inr_iff Cons.IH check_server_Inr_iff
    by auto
qed simp

lemma validateServers_ok_iff:
  "validateServers servers listen listenIPs lookup = Inr u \<longleftrightarrow> servers_ok servers listen listenIPs lookup"
  by (simp add: validateServers_def servers_ok_def check_servers_Inr_iff)

lemma find_durations_None:
  "find (\<lambda>(name, val). val \<le> 0) (checked_durations c) = None \<longleftrightarrow>
     0 < HealthInterval c \<and> 0 < HealthTimeout c \<and> 0 < DialTimeout c \<and> 0 < ShutdownGrace c \<and>
     0 < DiscoveryInterval c"
  by (simp add: checked_durations_def not_le)

lemma check_options_Inr_iff: "check_options c = Inr u \<longleftrightarrow> options_ok c"
proof -
  have "(case x of Some (name, val) \<Rightarrow> Inl (BadDuration name val) | None \<Rightarrow> r) = Inr u \<longleftrightarrow>
      x = None \<and> r = Inr u" for x r
    by (cases x) auto
  then show ?thesis
    unfolding check_options_def options_ok_def
    by (simp only: guard_Inr_iff find_durations_None not_not not_less de_Morgan_conj) auto
qed

lemma check_ca_Inr_iff: "check_ca open_err c = Inr c' \<longleftrightarrow> ca_ok open_err c \<and> c' = effective c"
  by (auto simp: check_ca_def ca_ok_def effective_def split: option.splits)

lemma Validate_Inr_iff:
  "Validate lookup open_err c = Inr c' \<longleftrightarrow> config_ok lookup open_err c \<and> c' = effective c"
proof -
  have metrics: "(\<exists>x. (if MetricsListen c \<noteq> [] then map_error BadMetricsListen (validateHostPort (MetricsListen c))
      else Inr []) = Inr x \<and> Q) \<longleftrightarrow> (MetricsListen c = [] \<or> is_ok (validateHostPort (MetricsListen c))) \<and> Q" for Q
    by (auto simp: is_ok_iff)
  show ?thesis
    unfolding Validate_def res_bind_Inr_iff guard_Inr_iff metrics
    unfolding map_error_Inr_iff check_options_Inr_iff check_ca_Inr_iff validateServers_ok_iff config_ok_def
    by blast
qed

lemma ValidateServers_Inr_iff:
  "ValidateServers servers listen lookup = Inr u \<longleftrightarrow>
     (\<exists>host ips. validateHostPort listen = Inr host \<and> resolveHost host lookup = Inr ips \<and>
        servers_ok servers listen ips lookup)"
  unfolding ValidateServers_def case_sum_Inr_iff validateServers_ok_iff by blast

lemma effective_simps [simp]:
  "Servers (effective c) = Servers c" "Listen (effective c) = Listen c" "effective (effective c) = effective c"
  by (simp_all add: effective_def)

lemma config_ok_effective: "config_ok lookup open_err c \<Longrightarrow> config_ok lookup open_err (effective c)"
  by (cases "CAFile c = []") (simp_all add: config_ok_def effective_def options_ok_def ca_ok_def Explicit_def)

text \<open>The first offending entry decides the error.\<close>

lemma check_servers_Inl:
  "check_servers listen (port_of listen) listenIPs lookup seen ss = Inl e \<Longrightarrow>
     \<exists>pre s post. ss = pre @ s # post \<and> distinct pre \<and> set pre \<inter> seen = {} \<and>
       (\<forall>p \<in> set pre. server_ok listen listenIPs lookup p) \<and>
       (if s \<in> set pre \<union> seen then e = ServerDuplicate s
        else check_server listen (port_of listen) listenIPs lookup s = Inl e)"
proof (induction ss arbitrary: seen)
  case (Cons s ss)
  show ?case
  proof (cases "s \<in> seen \<or> (\<exists>e'. check_server listen (port_of listen) listenIPs lookup s = Inl e')")
    case True
    with Cons.prems show ?thesis
      by (intro exI [of _ "[]"] exI [of _ s] exI [of _ ss]) (auto split: if_splits)
  next
    case False
    then obtain u where ok: "check_server listen (port_of listen) listenIPs lookup s = Inr u"
      by (cases "check_server listen (port_of listen) listenIPs lookup s") auto
    with False Cons.prems have "check_servers listen (port_of listen) listenIPs lookup (insert s seen) ss = Inl e"
      by simp
    from Cons.IH [OF this] obtain pre s' post where *: "ss = pre @ s' # post" "distinct pre"
      "set pre \<inter> insert s seen = {}" "\<forall>p \<in> set pre. server_ok listen listenIPs lookup p"
      "if s' \<in> set pre \<union> insert s seen then e = ServerDuplicate s'
        else check_server listen (port_of listen) listenIPs lookup s' = Inl e"
      by blast
    have "server_ok listen listenIPs lookup s" using ok by (simp only: check_server_Inr_iff)
    with * False show ?thesis
      by (intro exI [of _ "s # pre"] exI [of _ s'] exI [of _ post]) auto
  qed
qed simp


section \<open>Properties\<close>

text \<open>C13: validation accepts a server list exactly when it is non-empty, has no entry twice, and every
  entry is a host:port with a port in range whose host resolves to no loopback address and, when its port
  is the same text as the listen port, to no listen address. Ports are compared as text: the listen address
  with its port written differently (10.0.0.1:06443 for 10.0.0.1:6443) is not refused.\<close>

theorem validateServers_accepts_iff:
  "is_ok (validateServers servers listen listenIPs lookup) \<longleftrightarrow>
     servers \<noteq> [] \<and> distinct servers \<and>
     (\<forall>s \<in> set servers. \<exists>host port n ips.
        SplitHostPort s = Inr (host, port) \<and> host \<noteq> [] \<and> Atoi port = Some n \<and> 1 \<le> n \<and> n \<le> 65535 \<and>
        (case ParseIP host of Some ip \<Rightarrow> ips = [ip] | None \<Rightarrow> lookup host = Inr ips) \<and>
        (\<forall>ip \<in> set ips. \<not> IsLoopback ip \<and>
           (port = port_of listen \<longrightarrow> \<not> (\<exists>lip \<in> set listenIPs. IP_Equal ip lip))))"
proof -
  have "server_ok listen listenIPs lookup s \<longleftrightarrow>
      (\<exists>host port n ips.
        SplitHostPort s = Inr (host, port) \<and> host \<noteq> [] \<and> Atoi port = Some n \<and> 1 \<le> n \<and> n \<le> 65535 \<and>
        (case ParseIP host of Some ip \<Rightarrow> ips = [ip] | None \<Rightarrow> lookup host = Inr ips) \<and>
        (\<forall>ip \<in> set ips. \<not> IsLoopback ip \<and>
           (port = port_of listen \<longrightarrow> \<not> (\<exists>lip \<in> set listenIPs. IP_Equal ip lip))))" for s
  proof -
    have r: "resolveHost host lookup = Inr ips \<longleftrightarrow>
        (case ParseIP host of Some ip \<Rightarrow> ips = [ip] | None \<Rightarrow> lookup host = Inr ips)" for host ips
      by (auto simp: resolveHost_def split: option.splits)
    show ?thesis
    proof (cases "SplitHostPort s")
      case (Inr hp)
      then obtain h p where hp: "SplitHostPort s = Inr (h, p)" by (cases hp) auto
      then have "port_of s = p" by (simp add: port_of_def)
      with hp show ?thesis
        unfolding server_ok_def validateHostPort_Inr_iff r by (simp; blast)
    qed (simp add: server_ok_def validateHostPort_Inr_iff)
  qed
  then show ?thesis
    by (simp only: is_ok_iff validateServers_ok_iff servers_ok_def) simp
qed

theorem validateServers_accepts_iff_witness:
  "is_ok (validateServers [''10.0.0.1:6443'', ''10.0.0.2:6443''] ''127.0.0.1:6443''
      [replicate 10 0 @ [255, 255, 127, 0, 0, 1]] (\<lambda>_. Inl ''no such host'')) \<and>
   (\<exists>host port n ips. SplitHostPort ''10.0.0.2:6443'' = Inr (host, port) \<and> Atoi port = Some n \<and>
      (case ParseIP host of Some ip \<Rightarrow> ips = [ip] | None \<Rightarrow> False) \<and> (\<forall>ip \<in> set ips. \<not> IsLoopback ip))"
proof -
  have ok: "is_ok (validateServers [''10.0.0.1:6443'', ''10.0.0.2:6443''] ''127.0.0.1:6443''
      [replicate 10 0 @ [255, 255, 127, 0, 0, 1]] (\<lambda>_. Inl ''no such host''))"
    by code_simp
  from validateServers_accepts_iff [THEN iffD1, OF ok] obtain host port n ips
    where "SplitHostPort ''10.0.0.2:6443'' = Inr (host, port)" "Atoi port = Some n"
      "case ParseIP host of Some ip \<Rightarrow> ips = [ip] | None \<Rightarrow> False" "\<forall>ip \<in> set ips. \<not> IsLoopback ip"
    by (force split: option.splits)
  with ok show ?thesis by blast
qed

text \<open>C38: a rejected list is rejected for its first offending entry: every entry before it is
  acceptable and listed once, and the error is that of this entry, a repetition before any other.\<close>

theorem validateServers_first_error:
  assumes "validateServers servers listen listenIPs lookup = Inl e" and "servers \<noteq> []"
  shows "\<exists>pre s post. servers = pre @ s # post \<and> is_ok (validateServers pre listen listenIPs lookup) = (pre \<noteq> []) \<and>
    (if s \<in> set pre then e = ServerDuplicate s
     else check_server listen (port_of listen) listenIPs lookup s = Inl e)"
proof -
  have "check_servers listen (port_of listen) listenIPs lookup {} servers = Inl e"
    using assms by (simp add: validateServers_def)
  from check_servers_Inl [OF this] obtain pre s post where *: "servers = pre @ s # post" "distinct pre"
    "\<forall>p \<in> set pre. server_ok listen listenIPs lookup p"
    "if s \<in> set pre then e = ServerDuplicate s else check_server listen (port_of listen) listenIPs lookup s = Inl e"
    by auto
  then have "is_ok (validateServers pre listen listenIPs lookup) = (pre \<noteq> [])"
    by (simp only: is_ok_iff validateServers_ok_iff servers_ok_def) simp
  with * show ?thesis by blast
qed

theorem validateServers_first_error_witness:
  "\<exists>pre s post. [''10.0.0.1:6443'', ''127.0.0.1:1'', ''10.0.0.1:6443''] = pre @ s # post \<and>
     is_ok (validateServers pre ''127.0.0.1:6443'' [] (\<lambda>_. Inl [])) = (pre \<noteq> []) \<and>
     (if s \<in> set pre then ServerLoopback ''127.0.0.1:1'' (replicate 10 0 @ [255, 255, 127, 0, 0, 1]) = ServerDuplicate s
      else check_server ''127.0.0.1:6443'' (port_of ''127.0.0.1:6443'') [] (\<lambda>_. Inl []) s =
        Inl (ServerLoopback ''127.0.0.1:1'' (replicate 10 0 @ [255, 255, 127, 0, 0, 1])))"
proof (rule validateServers_first_error)
  show "validateServers [''10.0.0.1:6443'', ''127.0.0.1:1'', ''10.0.0.1:6443''] ''127.0.0.1:6443'' []
      (\<lambda>_. Inl []) = Inl (ServerLoopback ''127.0.0.1:1'' (replicate 10 0 @ [255, 255, 127, 0, 0, 1]))"
    by code_simp
qed simp

text \<open>C14: \<open>Validate\<close> accepts a configuration exactly when the enumerated options are known, the
  thresholds and durations are in range, the listen address is loopback unless allowed otherwise,
  the server list is acceptable for it, the metrics address parses and the TLS options agree; the
  only change it makes is to turn verification on when a CA file is given.\<close>

theorem Validate_accepts_iff:
  "Validate lookup open_err c = Inr c' \<longleftrightarrow>
     config_ok lookup open_err c \<and> c' = c\<lparr>InsecureSkipVerify := InsecureSkipVerify c \<and> CAFile c = []\<rparr>"
  by (simp add: Validate_Inr_iff effective_def)

text \<open>validation is stable: validating the accepted configuration again changes nothing, and its
  server list also passes the check that dynamic discovery runs against the same listen address.\<close>

theorem Validate_stable:
  assumes "Validate lookup open_err c = Inr c'"
  shows "Validate lookup open_err c' = Inr c' \<and> ValidateServers (Servers c') (Listen c') lookup = Inr ()"
proof -
  from assms have "config_ok lookup open_err c'" "c' = effective c'"
    by (auto simp: Validate_Inr_iff config_ok_effective)
  then show ?thesis
    unfolding Validate_Inr_iff ValidateServers_Inr_iff by (auto simp: config_ok_def)
qed

theorem Validate_stable_witness:
  "Validate (\<lambda>_. Inl []) (\<lambda>_. None) (effective example_config) = Inr (effective example_config) \<and>
   ValidateServers (Servers (effective example_config)) (Listen (effective example_config)) (\<lambda>_. Inl []) = Inr ()"
proof (rule Validate_stable)
  show "Validate (\<lambda>_. Inl []) (\<lambda>_. None) example_config = Inr (effective example_config)" by code_simp
qed

text \<open>ports are compared as text. A server written with a redundant zero or sign denotes the
  listen address itself (\<open>strconv.Atoi\<close> reads the same port) and is accepted.\<close>

theorem self_forward_textual_port:
  "ValidateServers [''192.168.1.10:06443''] ''192.168.1.10:6443'' lookup = Inr () \<and>
   ValidateServers [''192.168.1.10:+6443''] ''192.168.1.10:6443'' lookup = Inr () \<and>
   Atoi ''06443'' = Atoi ''6443'' \<and> Atoi ''+6443'' = Atoi ''6443'' \<and>
   ValidateServers [''192.168.1.10:6443''] ''192.168.1.10:6443'' lookup =
     Inl (ServerIsListen ''192.168.1.10:6443'' ''192.168.1.10:6443'')"
  by (intro conjI; code_simp)

end
