(* ===== verification/Yaml.thy ===== *)
theory Yaml
  imports GoStrings
begin

text \<open>
  \<^verbatim>\<open>src/internal/kubeconfig/yaml.go\<close>: the parser for the YAML subset of kubeconfig files.

  The parser object \<open>yamlParser\<close> is the list of lines from \<open>p.pos\<close> on; the virtual line that
  \<open>parseSequence\<close> writes back at \<open>p.pos\<close> replaces the head of that list. A Go \<open>map[string]any\<close> is an
  association list in insertion order. Index-out-of-range panics are the error \<open>YPanic\<close>. The
  recursion of the source is bounded by fuel, one unit per call or loop iteration; running out of it
  is the error \<open>YFuel\<close>, and \<open>parse_terminates\<close> shows that the fuel \<open>parseYAMLTree\<close> provides
  (twice the number of content bytes, plus two) always suffices.
\<close>

section \<open>Values, lines and errors\<close>

datatype yval = YStr string | YSeq "yval list" | YMap "(string \<times> yval) list"

record yamlLine =
  indent :: nat
  content :: string
  lineNo :: nat

datatype yaml_error =
    YTabIndent nat
  | YMultiDoc nat
  | YUnexpected nat
  | YEmptyItem nat
  | YExpectKV nat
  | YExpectSpace nat string
  | YEmptyKey nat
  | YDupKey nat string
  | YUnsupported nat
  | YUnterminatedQuote nat
  | YTrailing nat string
  | YUnterminatedFlow nat
  | YPanic
  | YFuel


section \<open>Lexing\<close>

abbreviation tab :: char where
  "tab \<equiv> CHR 0x09"

abbreviation newline :: char where
  "newline \<equiv> CHR 0x0A"

text \<open>The loop over the raw lines; \<open>out\<close> and the number of the next line are its state.\<close>

fun lex_lines :: "nat \<Rightarrow> yamlLine list \<Rightarrow> string list \<Rightarrow> (yaml_error, yamlLine list) res" where
  "lex_lines n out [] = Inr out"
| "lex_lines n out (raw # raws) =
     (let line = TrimRight raw [CHR '' '', CHR 0x0D]; trimmed = TrimLeft line '' '' in
      if trimmed = [] \<or> prefix ''#'' trimmed then lex_lines (Suc n) out raws
      else
        let ind = length line - length trimmed in
        if tab \<in> set (take ind line) then Inl (YTabIndent n)
        else if trimmed = ''---'' then (if length out > 0 then Inl (YMultiDoc n) else lex_lines (Suc n) out raws)
        else lex_lines (Suc n) (out @ [\<lparr>indent = ind, content = trimmed, lineNo = n\<rparr>]) raws)"

definition lexYAML :: "string \<Rightarrow> (yaml_error, yamlLine list) res" where
  "lexYAML data = lex_lines 1 [] (Split data newline)"


section \<open>Scalars and flow collections\<close>

definition unquote :: "string \<Rightarrow> string" where
  "unquote s =
     (if 2 \<le> length s \<and> (hd s = CHR 0x22 \<or> hd s = CHR 0x27) \<and> last s = hd s then butlast (tl s) else s)"

definition splitKeyValue :: "string \<Rightarrow> nat \<Rightarrow> (yaml_error, string \<times> string) res" where
  "splitKeyValue s ln =
     (case Index s '':'' of
        None \<Rightarrow> Inl (YExpectKV ln)
      | Some idx \<Rightarrow>
          if idx + 1 < length s \<and> s ! (idx + 1) \<noteq> CHR '' '' then Inl (YExpectSpace ln s)
          else
            let key = unquote (TrimSpace (take idx s)) in
            if key = [] then Inl (YEmptyKey ln) else Inr (key, TrimSpace (drop (idx + 1) s)))"

definition isFlowOrQuoted :: "string \<Rightarrow> bool" where
  "isFlowOrQuoted s \<longleftrightarrow> s ! 0 \<in> {CHR 0x22, CHR 0x27, CHR ''['', CHR ''{''}"

fun splitFlow :: "char option \<Rightarrow> string \<Rightarrow> string \<Rightarrow> string list" where
  "splitFlow quote cur [] = [cur]"
| "splitFlow quote cur (c # cs) =
     (case quote of
        Some q \<Rightarrow> splitFlow (if c = q then None else Some q) (cur @ [c]) cs
      | None \<Rightarrow>
          if c = CHR 0x22 \<or> c = CHR 0x27 then splitFlow (Some c) (cur @ [c]) cs
          else if c = CHR '','' then cur # splitFlow None [] cs
          else splitFlow None (cur @ [c]) cs)"

definition splitFlowParts :: "string \<Rightarrow> string list" where
  "splitFlowParts s = splitFlow None [] s"

definition flowInner :: "string \<Rightarrow> char \<Rightarrow> char \<Rightarrow> nat \<Rightarrow> (yaml_error, string) res" where
  "flowInner s op cl ln =
     (case LastIndexByte s cl of
        None \<Rightarrow> Inl (YUnterminatedFlow ln)
      | Some idx \<Rightarrow>
          if s ! 0 \<noteq> op then Inl (YUnterminatedFlow ln)
          else
            let rest = TrimSpace (drop (idx + 1) s) in
            if rest \<noteq> [] \<and> \<not> prefix ''#'' rest then Inl (YTrailing ln rest)
            else Inr (drop 1 (take idx s)))"

text \<open>\<open>m[key] = val\<close> on an association list.\<close>

fun put :: "string \<Rightarrow> 'v \<Rightarrow> (string \<times> 'v) list \<Rightarrow> (string \<times> 'v) list" where
  "put k v [] = [(k, v)]"
| "put k v ((k', v') # m) = (if k' = k then (k, v) # m else (k', v') # put k v m)"

text \<open>The loops of \<open>parseFlowMap\<close> and \<open>parseFlowSeq\<close> over the parts; \<open>scalar\<close> is the recursive call.\<close>

fun flow_map_loop :: "(string \<Rightarrow> (yaml_error, yval) res) \<Rightarrow> nat \<Rightarrow> (string \<times> yval) list \<Rightarrow> string list \<Rightarrow> (yaml_error, yval) res" where
  "flow_map_loop scalar ln m [] = Inr (YMap m)"
| "flow_map_loop scalar ln m (part # parts) =
     (let p = TrimSpace part in
      if p = [] then flow_map_loop scalar ln m parts
      else
        res_bind (splitKeyValue p ln) (\<lambda>(key, rest).
        res_bind (scalar rest) (\<lambda>val.
        flow_map_loop scalar ln (put key val m) parts)))"

fun flow_seq_loop :: "(string \<Rightarrow> (yaml_error, yval) res) \<Rightarrow> yval list \<Rightarrow> string list \<Rightarrow> (yaml_error, yval) res" where
  "flow_seq_loop scalar xs [] = Inr (YSeq xs)"
| "flow_seq_loop scalar xs (part # parts) =
     (let p = TrimSpace part in
      if p = [] then flow_seq_loop scalar xs parts
      else res_bind (scalar p) (\<lambda>val. flow_seq_loop scalar (xs @ [val]) parts))"

definition parseFlowMap :: "(string \<Rightarrow> (yaml_error, yval) res) \<Rightarrow> string \<Rightarrow> nat \<Rightarrow> (yaml_error, yval) res" where
  "parseFlowMap scalar s ln =
     res_bind (flowInner s CHR ''{'' CHR ''}'' ln) (\<lambda>inner. flow_map_loop scalar ln [] (splitFlowParts inner))"

definition parseFlowSeq :: "(string \<Rightarrow> (yaml_error, yval) res) \<Rightarrow> string \<Rightarrow> nat \<Rightarrow> (yaml_error, yval) res" where
  "parseFlowSeq scalar s ln =
     res_bind (flowInner s CHR ''['' CHR '']'' ln) (\<lambda>inner. flow_seq_loop scalar [] (splitFlowParts inner))"

text \<open>The part of \<open>parseScalarValue\<close> after the flow cases.\<close>

definition parsePlain :: "string \<Rightarrow> nat \<Rightarrow> (yaml_error, yval) res" where
  "parsePlain s ln =
     (if prefix ''&'' s \<or> prefix ''*'' s \<or> prefix ''|'' s \<or> prefix ''>'' s then Inl (YUnsupported ln)
      else if s = [] then Inl YPanic
      else if hd s = CHR 0x22 \<or> hd s = CHR 0x27 then
        (case IndexByte (tl s) (hd s) of
           None \<Rightarrow> Inl (YUnterminatedQuote ln)
         | Some end' \<Rightarrow>
             let val = take end' (tl s); rest = TrimSpace (drop (2 + end') s) in
             if rest \<noteq> [] \<and> \<not> prefix ''#'' rest then Inl (YTrailing ln rest) else Inr (YStr val))
      else
        (case Index s '' #'' of
           Some idx \<Rightarrow> Inr (YStr (TrimSpace (take idx s)))
         | None \<Rightarrow> Inr (YStr s)))"

fun parseScalarValue :: "nat \<Rightarrow> string \<Rightarrow> nat \<Rightarrow> (yaml_error, yval) res" where
  "parseScalarValue 0 s0 ln = Inl YFuel"
| "parseScalarValue (Suc n) s0 ln =
     (let s = TrimSpace s0 in
      if prefix ''{'' s then parseFlowMap (\<lambda>t. parseScalarValue n t ln) s ln
      else if prefix ''['' s then parseFlowSeq (\<lambda>t. parseScalarValue n t ln) s ln
      else parsePlain s ln)"

text \<open>A call from outside: each nesting level takes at least the two brackets.\<close>

definition scalarValue :: "string \<Rightarrow> nat \<Rightarrow> (yaml_error, yval) res" where
  "scalarValue s ln = parseScalarValue (Suc (length s)) s ln"


section \<open>Blocks\<close>

definition is_dash :: "string \<Rightarrow> bool" where
  "is_dash c \<longleftrightarrow> prefix ''- '' c \<or> c = ''-''"

fun parseBlock :: "nat \<Rightarrow> nat \<Rightarrow> yamlLine list \<Rightarrow> (yaml_error, yval \<times> yamlLine list) res"
  and parseSequence :: "nat \<Rightarrow> nat \<Rightarrow> yval list \<Rightarrow> yamlLine list \<Rightarrow> (yaml_error, yval \<times> yamlLine list) res"
  and parseMapping :: "nat \<Rightarrow> nat \<Rightarrow> (string \<times> yval) list \<Rightarrow> yamlLine list \<Rightarrow> (yaml_error, yval \<times> yamlLine list) res"
where
  "parseBlock 0 ind ls = Inl YFuel"
| "parseBlock (Suc n) ind ls =
     (case ls of
        [] \<Rightarrow> Inl YPanic
      | l # _ \<Rightarrow> if is_dash (content l) then parseSequence n ind [] ls else parseMapping n ind [] ls)"
| "parseSequence 0 ind seq ls = Inl YFuel"
| "parseSequence (Suc n) ind seq ls =
     (case ls of
        [] \<Rightarrow> Inr (YSeq seq, [])
      | l # ls' \<Rightarrow>
          if indent l \<noteq> ind \<or> \<not> is_dash (content l) then Inr (YSeq seq, ls)
          else
            let rest = TrimPrefix (TrimPrefix (content l) ''-'') '' '' in
            if rest = [] then
              (case ls' of
                 [] \<Rightarrow> Inl (YEmptyItem (lineNo l))
               | l' # _ \<Rightarrow>
                   if indent l' < ind + 2 then Inl (YEmptyItem (lineNo l))
                   else res_bind (parseBlock n (indent l') ls')
                     (\<lambda>(item, ls''). parseSequence n ind (seq @ [item]) ls''))
            else if \<not> Contains rest '':'' \<or> isFlowOrQuoted rest then
              res_bind (scalarValue rest (lineNo l)) (\<lambda>val. parseSequence n ind (seq @ [val]) ls')
            else
              res_bind (parseMapping n (ind + 2) [] (\<lparr>indent = ind + 2, content = rest, lineNo = lineNo l\<rparr> # ls'))
                (\<lambda>(item, ls''). parseSequence n ind (seq @ [item]) ls''))"
| "parseMapping 0 ind m ls = Inl YFuel"
| "parseMapping (Suc n) ind m ls =
     (case ls of
        [] \<Rightarrow> Inr (YMap m, [])
      | l # ls' \<Rightarrow>
          if indent l \<noteq> ind \<or> is_dash (content l) then Inr (YMap m, ls)
          else
            res_bind (splitKeyValue (content l) (lineNo l)) (\<lambda>(key, rest).
            if map_of m key \<noteq> None then Inl (YDupKey (lineNo l) key)
            else if rest \<noteq> [] then
              res_bind (scalarValue rest (lineNo l)) (\<lambda>val. parseMapping n ind (put key val m) ls')
            else
              (case ls' of
                 [] \<Rightarrow> parseMapping n ind (put key (YStr []) m) ls'
               | l' # _ \<Rightarrow>
                   if ind < indent l' \<or> (indent l' = ind \<and> is_dash (content l'))
                   then res_bind (parseBlock n (indent l') ls')
                     (\<lambda>(child, ls''). parseMapping n ind (put key child m) ls'')
                   else parseMapping n ind (put key (YStr []) m) ls')))"

definition bytes :: "yamlLine list \<Rightarrow> nat" where
  "bytes ls = sum_list (map (\<lambda>l. length (content l)) ls)"

definition parseYAMLTree :: "string \<Rightarrow> (yaml_error, yval) res" where
  "parseYAMLTree data =
     res_bind (lexYAML data) (\<lambda>lines.
     case lines of
       [] \<Rightarrow> Inr (YMap [])
     | l # _ \<Rightarrow>
         res_bind (parseBlock (2 * bytes lines + 2) (indent l) lines) (\<lambda>(node, rest).
         case rest of [] \<Rightarrow> Inr node | r # _ \<Rightarrow> Inl (YUnexpected (lineNo r))))"


section \<open>Printing\<close>

text \<open>
  A printer for the trees kubeconfig writers emit: block mappings with quoted scalars, sequences at
  the indentation of their key, \<open>- key: ...\<close> for a mapping in a sequence. A line is its indentation
  and its content.
\<close>

definition quoted :: "string \<Rightarrow> string" where
  "quoted s = CHR 0x22 # s @ [CHR 0x22]"

fun dash :: "nat \<Rightarrow> (nat \<times> string) list \<Rightarrow> (nat \<times> string) list" where
  "dash ind [] = []"
| "dash ind ((i, c) # ls) = (ind, ''- '' @ c) # ls"

fun render :: "nat \<Rightarrow> yval \<Rightarrow> (nat \<times> string) list" where
  "render ind (YStr s) = []"
| "render ind (YMap m) =
     concat (map (\<lambda>(k, v).
       case v of
         YStr s \<Rightarrow> [(ind, k @ '': '' @ quoted s)]
       | YMap _ \<Rightarrow> (ind, k @ '':'') # render (ind + 2) v
       | YSeq _ \<Rightarrow> (ind, k @ '':'') # render ind v) m)"
| "render ind (YSeq xs) =
     concat (map (\<lambda>v.
       case v of
         YStr s \<Rightarrow> [(ind, ''- '' @ quoted s)]
       | YMap _ \<Rightarrow> dash ind (render (ind + 2) v)
       | YSeq _ \<Rightarrow> (ind, ''-'') # render (ind + 2) v) xs)"

definition print_lines :: "(nat \<times> string) list \<Rightarrow> string" where
  "print_lines ls = concat (map (\<lambda>(i, c). replicate i CHR '' '' @ c @ [newline]) ls)"

definition key_ok :: "string \<Rightarrow> bool" where
  "key_ok k \<longleftrightarrow> k \<noteq> [] \<and> (\<forall>c \<in> set k. 33 \<le> code c \<and> code c \<le> 126 \<and> c \<noteq> CHR '':'') \<and>
     hd k \<notin> {CHR ''#'', CHR ''-'', CHR ''['', CHR ''{'', CHR 0x22, CHR 0x27}"

definition val_ok :: "string \<Rightarrow> bool" where
  "val_ok s \<longleftrightarrow> CHR 0x22 \<notin> set s \<and> newline \<notin> set s"

fun yaml_ok :: "yval \<Rightarrow> bool" where
  "yaml_ok (YStr s) = val_ok s"
| "yaml_ok (YMap m) = (m \<noteq> [] \<and> distinct (map fst m) \<and> (\<forall>(k, v) \<in> set m. key_ok k \<and> yaml_ok v))"
| "yaml_ok (YSeq xs) = (xs \<noteq> [] \<and> (\<forall>v \<in> set xs. yaml_ok v))"

definition strip :: "yamlLine \<Rightarrow> nat \<times> string" where
  "strip l = (indent l, content l)"


section \<open>Fuel\<close>

lemma splitKeyValue_bounds:
  "splitKeyValue s ln = Inr (key, rest) \<Longrightarrow> length rest < length s"
proof -
  assume a: "splitKeyValue s ln = Inr (key, rest)"
  then obtain idx where i: "Index s '':'' = Some idx" and r: "rest = TrimSpace (drop (idx + 1) s)"
    by (auto simp: splitKeyValue_def Let_def split: option.splits if_splits)
  have "idx < length s" using i by (simp add: Index_single IndexByte_Some_iff)
  with TrimSpace_length [of "drop (idx + 1) s"] show ?thesis unfolding r by simp
qed

lemma splitKeyValue_no_fuel [simp]: "splitKeyValue s ln \<noteq> Inl YFuel"
  by (auto simp: splitKeyValue_def Let_def split: option.splits)

lemma splitFlow_length: "p \<in> set (splitFlow q cur s) \<Longrightarrow> length p \<le> length cur + length s"
proof (induction q cur s rule: splitFlow.induct)
  case (2 quote cur c cs)
  then show ?case by (force split: option.splits if_splits)
qed simp

lemma flowInner_length:
  "flowInner s op cl ln = Inr inner \<Longrightarrow> s \<noteq> [] \<Longrightarrow> length inner < length s"
  by (auto simp: flowInner_def Let_def min_def split: option.splits if_splits)

lemma flowInner_no_fuel [simp]: "flowInner s op cl ln \<noteq> Inl YFuel"
  by (auto simp: flowInner_def Let_def split: option.splits)

lemma parsePlain_no_fuel [simp]: "parsePlain s ln \<noteq> Inl YFuel"
  by (auto simp: parsePlain_def Let_def split: option.splits)

lemma flow_map_loop_no_fuel:
  assumes "\<And>t p. p \<in> set parts \<Longrightarrow> length t \<le> length p \<Longrightarrow> scalar t \<noteq> Inl YFuel"
  shows "flow_map_loop scalar ln m parts \<noteq> Inl YFuel"
  using assms
proof (induction parts arbitrary: m)
  case (Cons p parts)
  have "scalar rest \<noteq> Inl YFuel" if "splitKeyValue (TrimSpace p) ln = Inr (key, rest)" for key rest
    using splitKeyValue_bounds [OF that] TrimSpace_length [of p] Cons.prems [of p rest] by simp
  with Cons show ?case
    by (auto simp: Let_def res_bind_Inl_iff)
qed simp

lemma flow_seq_loop_no_fuel:
  assumes "\<And>t p. p \<in> set parts \<Longrightarrow> length t \<le> length p \<Longrightarrow> scalar t \<noteq> Inl YFuel"
  shows "flow_seq_loop scalar xs parts \<noteq> Inl YFuel"
  using assms
proof (induction parts arbitrary: xs)
  case (Cons p parts)
  have "scalar (TrimSpace p) \<noteq> Inl YFuel"
    using TrimSpace_length [of p] Cons.prems [of p "TrimSpace p"] by simp
  with Cons show ?case
    by (auto simp: Let_def res_bind_Inl_iff)
qed simp

lemma parseScalarValue_no_fuel: "length s < n \<Longrightarrow> parseScalarValue n s ln \<noteq> Inl YFuel"
proof (induction n arbitrary: s)
  case (Suc n)
  let ?s = "TrimSpace s"
  have sub: "parseScalarValue n t ln \<noteq> Inl YFuel"
    if "flowInner ?s op cl ln = Inr inner" "?s \<noteq> []" "p \<in> set (splitFlowParts inner)" "length t \<le> length p"
    for op cl inner p t
  proof (rule Suc.IH)
    have "length p \<le> length inner" using that(3) splitFlow_length by (force simp: splitFlowParts_def)
    then show "length t < n"
      using that(4) flowInner_length [OF that(1,2)] TrimSpace_length [of s] Suc.prems by simp
  qed
  have "flow_map_loop (\<lambda>t. parseScalarValue n t ln) ln [] (splitFlowParts inner) \<noteq> Inl YFuel"
    "flow_seq_loop (\<lambda>t. parseScalarValue n t ln) [] (splitFlowParts inner) \<noteq> Inl YFuel"
    if "flowInner ?s op cl ln = Inr inner" "?s \<noteq> []" for op cl inner
    by (rule flow_map_loop_no_fuel flow_seq_loop_no_fuel, erule (1) sub [OF that])+
  then show ?case
    by (cases "?s = []") (auto simp: Let_def parseFlowMap_def parseFlowSeq_def res_bind_Inl_iff)
qed simp

lemma scalarValue_no_fuel [simp]: "scalarValue s ln \<noteq> Inl YFuel"
  by (simp add: scalarValue_def parseScalarValue_no_fuel del: parseScalarValue.simps)

lemma lex_lines_no_fuel: "lex_lines n out raws \<noteq> Inl YFuel"
  by (induction n out raws rule: lex_lines.induct) (simp_all add: Let_def)

lemma bytes_simps [simp]: "bytes [] = 0" "bytes (l # ls) = length (content l) + bytes ls"
  by (simp_all add: bytes_def)

lemma is_dash_length: "is_dash c \<Longrightarrow> 0 < length c"
  by (cases c) (auto simp: is_dash_def)

lemma dash_rest_length:
  "is_dash c \<Longrightarrow> length (TrimPrefix (TrimPrefix c ''-'') '' '') < length c"
  by (auto simp: is_dash_def TrimPrefix_def prefix_def)

text \<open>What is left to parse never grows.\<close>

lemma parse_shrinks:
  "parseBlock n ind ls = Inr (v, r) \<Longrightarrow> bytes r \<le> bytes ls"
  "parseSequence n ind seq ls = Inr (v, r) \<Longrightarrow> bytes r \<le> bytes ls"
  "parseMapping n ind m ls = Inr (v, r) \<Longrightarrow> bytes r \<le> bytes ls"
proof (induction n arbitrary: ind seq m ls v r)
  case (Suc n)
  {
    case 1
    with Suc.IH(2) [of ind "[]" ls v r] Suc.IH(3) [of ind "[]" ls v r] show ?case
      by (auto split: list.splits if_splits)
  next
    case 2
    then show ?case
      by (auto simp: Let_def res_bind_Inr_iff split: if_splits list.splits
          dest!: Suc.IH(1-3) dash_rest_length)
  next
    case 3
    then show ?case
      by (auto simp: res_bind_Inr_iff split: if_splits list.splits dest!: Suc.IH(1,3))
  }
qed simp_all

text \<open>Two units per byte, one for the loop, one more to enter a block.\<close>

lemma parse_fuel:
  "2 * bytes ls + 2 \<le> n \<Longrightarrow> parseBlock n ind ls \<noteq> Inl YFuel"
  "2 * bytes ls + 1 \<le> n \<Longrightarrow> parseSequence n ind seq ls \<noteq> Inl YFuel"
  "2 * bytes ls + 1 \<le> n \<Longrightarrow> parseMapping n ind m ls \<noteq> Inl YFuel"
proof (induction n arbitrary: ind seq m ls)
  case (Suc n)
  {
    case 1
    with Suc.IH(2) [of ls ind "[]"] Suc.IH(3) [of ls ind "[]"] show ?case
      by (auto split: list.splits if_splits)
  next
    case 2
    show ?case
    proof (cases "\<exists>l ls'. ls = l # ls' \<and> is_dash (content l)")
      case True
      then obtain l ls' where ls: "ls = l # ls'" and d: "is_dash (content l)" by blast
      note len = is_dash_length [OF d] dash_rest_length [OF d]
      have blk: "parseBlock n ind' ls' \<noteq> Inl YFuel" for ind'
        using 2 ls len by (intro Suc.IH(1)) simp
      have seq: "parseSequence n ind seq' ls'' \<noteq> Inl YFuel" if "bytes ls'' \<le> bytes ls'" for seq' ls''
        using 2 ls len that by (intro Suc.IH(2)) simp
      have seq2: "parseSequence n ind seq' ls'' \<noteq> Inl YFuel"
        if "bytes ls'' \<le> length (TrimPrefix (TrimPrefix (content l) ''-'') '' '') + bytes ls'" for seq' ls''
        using 2 ls len that by (intro Suc.IH(2)) simp
      have mp: "parseMapping n ind' [] (\<lparr>indent = ind', content = TrimPrefix (TrimPrefix (content l) ''-'') '' '', lineNo = k\<rparr> # ls') \<noteq> Inl YFuel"
        for ind' k
        using 2 ls len by (intro Suc.IH(3)) simp
      show ?thesis
        using blk seq seq2 mp unfolding ls
        by (auto simp: Let_def res_bind_Inl_iff split: list.splits dest: parse_shrinks)
    qed (auto split: list.splits)
  next
    case 3
    show ?case
    proof (cases ls)
      case (Cons l ls')
      have shorter: "bytes ls' < bytes ls" if "splitKeyValue (content l) (lineNo l) = Inr (k, r)" for k r
        using splitKeyValue_bounds [OF that] Cons by auto
      have blk: "parseBlock n ind' ls' \<noteq> Inl YFuel" if "bytes ls' < bytes ls" for ind'
        using 3 that by (intro Suc.IH(1)) simp
      have mp: "parseMapping n ind m' ls'' \<noteq> Inl YFuel" if "bytes ls'' \<le> bytes ls'" "bytes ls' < bytes ls" for m' ls''
        using 3 that by (intro Suc.IH(3)) simp
      show ?thesis
        using blk mp shorter unfolding Cons
        by (auto simp: res_bind_Inl_iff split: list.splits dest: parse_shrinks)
    qed simp
  }
qed simp_all


section \<open>Printed trees parse back\<close>

lemma key_ok_facts:
  assumes "key_ok k"
  shows "TrimSpace k = k" "unquote k = k" "Index (k @ CHR '':'' # r) '':'' = Some (length k)"
    "\<not> is_dash (k @ r)" "\<not> isFlowOrQuoted (k @ r)" "k \<noteq> []"
proof -
  have ne: "k \<noteq> []" and all: "\<forall>c \<in> set k. 33 \<le> code c \<and> code c \<le> 126 \<and> c \<noteq> CHR '':''"
    and h: "hd k \<notin> {CHR ''#'', CHR ''-'', CHR ''['', CHR ''{'', CHR 0x22, CHR 0x27}"
    using assms unfolding key_ok_def by blast+
  have colon: "CHR '':'' \<notin> set k" using all by blast
  have hl: "code (hd k) \<in> {33..127}" "code (last k) \<in> {33..127}"
    using all hd_in_set [OF ne] last_in_set [OF ne] by (force simp del: set_empty)+
  show "TrimSpace k = k" using hl by (intro TrimSpace_id) simp
  show "unquote k = k" using h by (simp add: unquote_def)
  show "Index (k @ CHR '':'' # r) '':'' = Some (length k)"
    using colon by (simp add: Index_single IndexByte_append IndexByte_None_iff [THEN iffD2])
  obtain x xs where k: "k = x # xs" using ne by (cases k) auto
  show "\<not> is_dash (k @ r)" "\<not> isFlowOrQuoted (k @ r)"
    using h by (auto simp add: k is_dash_def isFlowOrQuoted_def)
  show "k \<noteq> []" by (rule ne)
qed

lemma TrimSpace_quoted [simp]: "TrimSpace (quoted s) = quoted s" "TrimSpace (CHR '' '' # quoted s) = quoted s"
proof -
  show q: "TrimSpace (quoted s) = quoted s" by (rule TrimSpace_id) (simp add: quoted_def)
  have "TrimLeftSpace (CHR '' '' # quoted s) = TrimLeftSpace (quoted s)"
    by (subst TrimLeftSpace.simps) simp
  with q show "TrimSpace (CHR '' '' # quoted s) = quoted s" by (simp add: TrimSpace_def)
qed

lemma splitKeyValue_entry:
  "key_ok k \<Longrightarrow> splitKeyValue (k @ '': '' @ quoted s) ln = Inr (k, quoted s)"
  "key_ok k \<Longrightarrow> splitKeyValue (k @ '':'') ln = Inr (k, [])"
  using key_ok_facts [of k]
  by (simp_all add: splitKeyValue_def Let_def nth_append TrimSpace_id)

lemma scalarValue_quoted: "val_ok s \<Longrightarrow> scalarValue (quoted s) ln = Inr (YStr s)"
proof -
  assume ok: "val_ok s"
  have "IndexByte (s @ [CHR 0x22]) CHR 0x22 = Some (length s)"
    using ok by (simp add: IndexByte_append IndexByte_None_iff [THEN iffD2] val_ok_def)
  moreover have "drop (2 + length s) (quoted s) = []" by (simp add: quoted_def)
  ultimately have "parsePlain (quoted s) ln = Inr (YStr s)"
    by (simp add: parsePlain_def quoted_def TrimSpace_id)
  then show ?thesis by (simp add: scalarValue_def) (simp add: quoted_def)
qed

lemma dash_prefix_rest: "TrimPrefix (TrimPrefix (''- '' @ c) ''-'') '' '' = c"
  "TrimPrefix (TrimPrefix ''-'' ''-'') '' '' = []"
  by (simp_all add: TrimPrefix_def)

lemma put_fresh: "k \<notin> fst ` set m \<Longrightarrow> put k v m = m @ [(k, v)]"
  by (induction m) auto

text \<open>The first line of a rendered block.\<close>

lemma render_map_head:
  assumes "yaml_ok (YMap m)"
  shows "\<exists>k r ls. render ind (YMap m) = (ind, k @ CHR '':'' # r) # ls \<and> key_ok k"
proof -
  obtain k v m' where m: "m = (k, v) # m'" and k: "key_ok k" using assms by (cases m) auto
  have "\<exists>r ls. render ind (YMap m) = (ind, k @ CHR '':'' # r) # ls"
    by (cases v) (simp_all add: m)
  with k show ?thesis by blast
qed

lemma render_seq_head:
  assumes "yaml_ok (YSeq xs)"
  shows "\<exists>c ls. render ind (YSeq xs) = (ind, c) # ls \<and> is_dash c"
proof -
  obtain x xs' where xs: "xs = x # xs'" and x: "yaml_ok x" using assms by (cases xs) auto
  show ?thesis
  proof (cases x)
    case (YMap m)
    from render_map_head [of m "Suc (Suc ind)"] x obtain c ls where
      "render (Suc (Suc ind)) (YMap m) = (Suc (Suc ind), c) # ls" unfolding YMap by blast
    then show ?thesis by (simp add: xs YMap is_dash_def del: render.simps(2)) 
  qed (simp_all add: xs is_dash_def)
qed

text \<open>What may follow a block: nothing, or a line that ends it.\<close>

definition ends_map :: "nat \<Rightarrow> yamlLine list \<Rightarrow> bool" where
  "ends_map ind rest \<longleftrightarrow> (\<forall>l ls. rest = l # ls \<longrightarrow> indent l < ind)"

definition ends_seq :: "nat \<Rightarrow> yamlLine list \<Rightarrow> bool" where
  "ends_seq ind rest \<longleftrightarrow> (\<forall>l ls. rest = l # ls \<longrightarrow> indent l < ind \<or> indent l = ind \<and> \<not> is_dash (content l))"

text \<open>What the induction shows of a tree: its rendering, however numbered, parses to it and leaves
  what follows.\<close>

definition parses :: "yval \<Rightarrow> bool" where
  "parses v \<longleftrightarrow> (\<forall>ind n ls rest. yaml_ok v \<longrightarrow> map strip ls = render ind v \<longrightarrow> 2 * bytes (ls @ rest) + 1 \<le> n \<longrightarrow>
     (case v of
        YStr s \<Rightarrow> True
      | YMap m \<Rightarrow> ends_map ind rest \<longrightarrow> parseMapping n ind [] (ls @ rest) = Inr (v, rest)
      | YSeq xs \<Rightarrow> ends_seq ind rest \<longrightarrow> parseSequence n ind [] (ls @ rest) = Inr (v, rest)))"

lemma bytes_append [simp]: "bytes (xs @ ys) = bytes xs + bytes ys"
  by (simp add: bytes_def)

lemma strip_Cons: "map strip ls = (i, c) # r \<Longrightarrow> \<exists>l ls'. ls = l # ls' \<and> indent l = i \<and> content l = c \<and> map strip ls' = r"
  by (auto simp: strip_def)

lemma strip_Cons_append:
  assumes "map strip ls = (i, c) # r1 @ r2"
  obtains l ls1 ls2 where "ls = l # ls1 @ ls2" "indent l = i" "content l = c" "map strip ls1 = r1" "map strip ls2 = r2"
  using strip_Cons [OF assms] by (auto simp: map_eq_append_conv)

lemma parseBlock_child:
  assumes v: "parses v" "yaml_ok v" and r: "map strip ls = render ind v" and n: "2 * bytes (ls @ rest) + 2 \<le> n"
    and e: "case v of YStr s \<Rightarrow> False | YMap m \<Rightarrow> ends_map ind rest | YSeq xs \<Rightarrow> ends_seq ind rest"
  shows "parseBlock n ind (ls @ rest) = Inr (v, rest) \<and> (\<exists>l ls'. ls = l # ls' \<and> indent l = ind \<and>
    (case v of YSeq xs \<Rightarrow> is_dash (content l) | _ \<Rightarrow> \<not> is_dash (content l)))"
proof -
  obtain n' where n': "n = Suc n'" "2 * bytes (ls @ rest) + 1 \<le> n'" using n by (cases n) auto
  show ?thesis
  proof (cases v)
    case (YMap m)
    from render_map_head [of m ind] v(2) obtain k c r' where
      h: "render ind (YMap m) = (ind, k @ CHR '':'' # c) # r'" "key_ok k" unfolding YMap by blast
    with r obtain l ls' where l: "ls = l # ls'" "indent l = ind" "content l = k @ CHR '':'' # c"
      unfolding YMap by (metis strip_Cons)
    have "parseMapping n' ind [] (ls @ rest) = Inr (v, rest)"
      using v r n' e unfolding parses_def YMap by simp
    with l key_ok_facts(4) [OF h(2)] n' show ?thesis by (simp add: YMap)
  next
    case (YSeq xs)
    from render_seq_head [of xs ind] v(2) obtain c r' where
      h: "render ind (YSeq xs) = (ind, c) # r'" "is_dash c" unfolding YSeq by blast
    with r obtain l ls' where l: "ls = l # ls'" "indent l = ind" "content l = c"
      unfolding YSeq by (metis strip_Cons)
    have "parseSequence n' ind [] (ls @ rest) = Inr (v, rest)"
      using v r n' e unfolding parses_def YSeq by simp
    with l h n' show ?thesis by (simp add: YSeq)
  qed (use e in simp)
qed

text \<open>A mapping's later entries, and a sequence's later items, end what is nested before them.\<close>

lemma entries_end:
  assumes "yaml_ok (YMap m) \<or> m = []" "map strip ls = render ind (YMap m)" "ends_map ind rest"
  shows "ends_map (ind + 2) (ls @ rest)" "ends_seq ind (ls @ rest)"
proof -
  have "ends_map (ind + 2) (ls @ rest) \<and> ends_seq ind (ls @ rest)"
  proof (cases "m = []")
    case True
    with assms show ?thesis by (force simp: ends_map_def ends_seq_def)
  next
    case False
    with assms(1) render_map_head [of m ind] obtain k c r where
      h: "render ind (YMap m) = (ind, k @ CHR '':'' # c) # r" "key_ok k" by blast
    with assms(2) obtain l ls' where "ls = l # ls'" "indent l = ind" "content l = k @ CHR '':'' # c"
      by (metis strip_Cons)
    with key_ok_facts(4) [OF h(2)] show ?thesis by (simp add: ends_map_def ends_seq_def)
  qed
  then show "ends_map (ind + 2) (ls @ rest)" "ends_seq ind (ls @ rest)" by blast+
qed

lemma items_end:
  assumes "yaml_ok (YSeq xs) \<or> xs = []" "map strip ls = render ind (YSeq xs)" "ends_seq ind rest"
  shows "ends_map (ind + 2) (ls @ rest)" "ends_seq (ind + 2) (ls @ rest)"
proof -
  have "\<forall>l ls'. ls @ rest = l # ls' \<longrightarrow> indent l < ind + 2"
  proof (cases "xs = []")
    case True
    with assms show ?thesis by (force simp: ends_seq_def)
  next
    case False
    with assms(1) render_seq_head [of xs ind] obtain c r where "render ind (YSeq xs) = (ind, c) # r" by blast
    with assms(2) obtain l ls' where "ls = l # ls'" "indent l = ind" by (metis strip_Cons)
    then show ?thesis by simp
  qed
  then show "ends_map (ind + 2) (ls @ rest)" "ends_seq (ind + 2) (ls @ rest)"
    by (auto simp: ends_map_def ends_seq_def)
qed

lemma parseMapping_scalar:
  assumes "indent l = ind" "\<not> is_dash (content l)" "splitKeyValue (content l) (lineNo l) = Inr (k, r)"
    "map_of m k = None" "r \<noteq> []" "scalarValue r (lineNo l) = Inr val"
  shows "parseMapping (Suc n) ind m (l # ls) = parseMapping n ind (put k val m) ls"
  using assms by simp

lemma parseMapping_child:
  assumes "indent l = ind" "\<not> is_dash (content l)" "splitKeyValue (content l) (lineNo l) = Inr (k, [])"
    "map_of m k = None" "ind < indent l' \<or> indent l' = ind \<and> is_dash (content l')"
    "parseBlock n (indent l') (l' # ls) = Inr (child, ls')"
  shows "parseMapping (Suc n) ind m (l # l' # ls) = parseMapping n ind (put k child m) ls'"
  using assms by auto

lemma parse_entries:
  assumes "\<forall>(k, v) \<in> set m. parses v \<and> key_ok k \<and> yaml_ok v" "distinct (map fst (acc @ m))"
    "map strip ls = render ind (YMap m)" "ends_map ind rest" "2 * bytes (ls @ rest) + 1 \<le> n"
  shows "parseMapping n ind acc (ls @ rest) = Inr (YMap (acc @ m), rest)"
  using assms
proof (induction m arbitrary: acc ls n)
  case Nil
  then obtain n' where "n = Suc n'" by (cases n) auto
  with Nil show ?case by (cases rest) (simp_all add: ends_map_def)
next
  case (Cons kv m)
  obtain k v where kv: "kv = (k, v)" by (cases kv)
  obtain n' where n: "n = Suc n'" using Cons.prems(5) by (cases n) auto
  have k: "key_ok k" and v: "parses v" "yaml_ok v" using Cons.prems(1) by (auto simp: kv)
  have fresh: "k \<notin> fst ` set acc" "map_of acc k = None"
    using Cons.prems(2) by (auto simp: kv map_of_eq_None_iff)
  have okm: "yaml_ok (YMap m) \<or> m = []" using Cons.prems(1,2) by auto
  have rec: "parseMapping n' ind (put k v acc) (ls' @ rest) = Inr (YMap (acc @ kv # m), rest)"
    if "map strip ls' = render ind (YMap m)" "2 * bytes (ls' @ rest) + 1 \<le> n'" for ls'
    using Cons.IH [of "acc @ [(k, v)]" ls' n'] Cons.prems(1,2,4) that by (simp add: put_fresh [OF fresh(1)] kv)
  show ?case
  proof (cases "\<exists>s. v = YStr s")
    case True
    then obtain s where s: "v = YStr s" ..
    have "map strip ls = (ind, k @ '': '' @ quoted s) # render ind (YMap m)"
      unfolding Cons.prems(3) by (simp add: kv s)
    from strip_Cons [OF this] obtain l ls' where l: "ls = l # ls'" "indent l = ind" "content l = k @ '': '' @ quoted s"
      and ls': "map strip ls' = render ind (YMap m)"
      by (elim exE conjE)
    have "2 * bytes (ls' @ rest) + 1 \<le> n'" using Cons.prems(5) n l key_ok_facts(6) [OF k] by (cases k) auto
    note rest = rec [OF ls' this]
    have "parseMapping (Suc n') ind acc (l # ls' @ rest) = parseMapping n' ind (put k v acc) (ls' @ rest)"
      unfolding s
    proof (rule parseMapping_scalar)
      show "splitKeyValue (content l) (lineNo l) = Inr (k, quoted s)"
        unfolding l by (rule splitKeyValue_entry(1) [OF k])
      show "scalarValue (quoted s) (lineNo l) = Inr (YStr s)" using v(2) s by (simp add: scalarValue_quoted)
    qed (use l fresh key_ok_facts(4) [OF k] in \<open>simp_all add: quoted_def\<close>)
    with rest show ?thesis by (simp only: n l append_Cons)
  next
    case False
    define ci where "ci = (case v of YMap _ \<Rightarrow> ind + 2 | _ \<Rightarrow> ind)"
    have "render ind (YMap (kv # m)) = (ind, k @ '':'') # render ci v @ render ind (YMap m)"
      using False by (cases v) (simp_all add: kv ci_def)
    then have "map strip ls = (ind, k @ '':'') # render ci v @ render ind (YMap m)"
      using Cons.prems(3) by (simp only:)
    then obtain l lsc ls' where l: "ls = l # lsc @ ls'" "indent l = ind" "content l = k @ '':''"
      and lsc: "map strip lsc = render ci v" and ls': "map strip ls' = render ind (YMap m)"
      by (rule strip_Cons_append)
    have fuel: "2 * bytes (lsc @ ls' @ rest) + 2 \<le> n'" "2 * bytes (ls' @ rest) + 1 \<le> n'"
      using Cons.prems(5) n l key_ok_facts(6) [OF k] by (cases k; simp)+
    have ends: "case v of YStr s \<Rightarrow> False | YMap m \<Rightarrow> ends_map ci (ls' @ rest) | YSeq xs \<Rightarrow> ends_seq ci (ls' @ rest)"
      using False entries_end [OF okm ls' Cons.prems(4)] by (cases v) (simp_all add: ci_def)
    from parseBlock_child [OF v lsc fuel(1) ends] obtain l' lsc' where
      blk: "parseBlock n' ci (lsc @ ls' @ rest) = Inr (v, ls' @ rest)" and lc: "lsc = l' # lsc'" "indent l' = ci"
      and cond: "ind < indent l' \<or> indent l' = ind \<and> is_dash (content l')"
      using False by (cases v) (auto simp: ci_def)
    have "parseMapping (Suc n') ind acc (l # l' # lsc' @ ls' @ rest) = parseMapping n' ind (put k v acc) (ls' @ rest)"
    proof (rule parseMapping_child)
      show "splitKeyValue (content l) (lineNo l) = Inr (k, [])"
        unfolding l by (rule splitKeyValue_entry(2) [OF k])
      show "parseBlock n' (indent l') (l' # lsc' @ ls' @ rest) = Inr (v, ls' @ rest)"
        using blk by (simp only: lc append_Cons)
    qed (use l fresh cond key_ok_facts(4) [OF k] in simp_all)
    with rec [OF ls' fuel(2)] show ?thesis by (simp only: n l lc append_Cons append_assoc)
  qed
qed

lemma parseSequence_scalar:
  assumes "indent l = ind" "content l = ''- '' @ quoted s" "val_ok s"
  shows "parseSequence (Suc n) ind seq (l # ls) = parseSequence n ind (seq @ [YStr s]) ls"
proof -
  have "isFlowOrQuoted (quoted s)" "quoted s \<noteq> []" by (simp_all add: isFlowOrQuoted_def quoted_def)
  with assms scalarValue_quoted [OF assms(3)] show ?thesis by (simp add: is_dash_def TrimPrefix_def)
qed

lemma parseSequence_nested:
  assumes "indent l = ind" "content l = ''-''" "ind + 2 \<le> indent l'"
    "parseBlock n (indent l') (l' # ls) = Inr (item, ls')"
  shows "parseSequence (Suc n) ind seq (l # l' # ls) = parseSequence n ind (seq @ [item]) ls'"
  using assms by (simp add: is_dash_def TrimPrefix_def)

lemma parseSequence_mapping:
  assumes "indent l = ind" "content l = ''- '' @ k @ CHR '':'' # c" "key_ok k"
    "parseMapping n (ind + 2) [] (\<lparr>indent = ind + 2, content = k @ CHR '':'' # c, lineNo = lineNo l\<rparr> # ls) = Inr (item, ls')"
  shows "parseSequence (Suc n) ind seq (l # ls) = parseSequence n ind (seq @ [item]) ls'"
proof -
  have "Contains (k @ CHR '':'' # c) '':''" by (simp add: Contains_single)
  with assms key_ok_facts(5,6) [OF assms(3)] show ?thesis by (simp add: is_dash_def TrimPrefix_def)
qed

lemma parse_items:
  assumes "\<forall>v \<in> set xs. parses v \<and> yaml_ok v"
    "map strip ls = render ind (YSeq xs)" "ends_seq ind rest" "2 * bytes (ls @ rest) + 1 \<le> n"
  shows "parseSequence n ind acc (ls @ rest) = Inr (YSeq (acc @ xs), rest)"
  using assms
proof (induction xs arbitrary: acc ls n)
  case Nil
  then obtain n' where "n = Suc n'" by (cases n) auto
  with Nil show ?case by (cases rest) (auto simp: ends_seq_def)
next
  case (Cons v xs)
  obtain n' where n: "n = Suc n'" using Cons.prems(4) by (cases n) auto
  have v: "parses v" "yaml_ok v" using Cons.prems(1) by auto
  have okx: "yaml_ok (YSeq xs) \<or> xs = []" using Cons.prems(1) by auto
  have rec: "parseSequence n' ind (acc @ [v]) (ls' @ rest) = Inr (YSeq (acc @ v # xs), rest)"
    if "map strip ls' = render ind (YSeq xs)" "2 * bytes (ls' @ rest) + 1 \<le> n'" for ls'
    using Cons.IH [of ls' n' "acc @ [v]"] Cons.prems(1,3) that by simp
  show ?case
  proof (cases v)
    case (YStr s)
    have "map strip ls = (ind, ''- '' @ quoted s) # render ind (YSeq xs)"
      unfolding Cons.prems(2) by (simp add: YStr)
    from strip_Cons [OF this] obtain l ls' where l: "ls = l # ls'" "indent l = ind" "content l = ''- '' @ quoted s"
      and ls': "map strip ls' = render ind (YSeq xs)" by (elim exE conjE)
    have "2 * bytes (ls' @ rest) + 1 \<le> n'" using Cons.prems(4) n l by simp
    from rec [OF ls' this] parseSequence_scalar [OF l(2,3), of n' acc "ls' @ rest"] v(2) show ?thesis
      by (simp add: n l YStr del: parseSequence.simps)
  next
    case (YSeq ys)
    have "map strip ls = (ind, ''-'') # render (ind + 2) v @ render ind (YSeq xs)"
      unfolding Cons.prems(2) by (simp add: YSeq)
    then obtain l lsc ls' where l: "ls = l # lsc @ ls'" "indent l = ind" "content l = ''-''"
      and lsc: "map strip lsc = render (ind + 2) v" and ls': "map strip ls' = render ind (YSeq xs)"
      by (rule strip_Cons_append)
    have fuel: "2 * bytes (lsc @ ls' @ rest) + 2 \<le> n'" "2 * bytes (ls' @ rest) + 1 \<le> n'"
      using Cons.prems(4) n l by simp_all
    have ends: "case v of YStr s \<Rightarrow> False | YMap m \<Rightarrow> ends_map (ind + 2) (ls' @ rest) | YSeq xs \<Rightarrow> ends_seq (ind + 2) (ls' @ rest)"
      using items_end [OF okx ls' Cons.prems(3)] by (simp add: YSeq)
    from parseBlock_child [OF v lsc fuel(1) ends] obtain l' lsc' where
      blk: "parseBlock n' (ind + 2) (lsc @ ls' @ rest) = Inr (v, ls' @ rest)" and lc: "lsc = l' # lsc'" "indent l' = ind + 2"
      by blast
    have "parseSequence (Suc n') ind acc (l # l' # lsc' @ ls' @ rest) = parseSequence n' ind (acc @ [v]) (ls' @ rest)"
      by (rule parseSequence_nested) (use l lc blk in \<open>simp_all del: parseBlock.simps\<close>)
    with rec [OF ls' fuel(2)] show ?thesis by (simp only: n l lc append_Cons append_assoc)
  next
    case (YMap m)
    from v(2) have okm: "yaml_ok (YMap m)" by (simp only: YMap)
    from render_map_head [OF okm, of "ind + 2"] obtain k c r where
      h: "render (ind + 2) (YMap m) = (ind + 2, k @ CHR '':'' # c) # r" and k: "key_ok k" by blast
    have "render ind (YSeq (v # xs)) = dash ind (render (ind + 2) (YMap m)) @ render ind (YSeq xs)"
      by (simp add: YMap)
    then have "map strip ls = (ind, ''- '' @ k @ CHR '':'' # c) # r @ render ind (YSeq xs)"
      using Cons.prems(2) by (simp only: h dash.simps append_Cons)
    then obtain l lsc ls' where l: "ls = l # lsc @ ls'" "indent l = ind" "content l = ''- '' @ k @ CHR '':'' # c"
      and lsc: "map strip lsc = r" and ls': "map strip ls' = render ind (YSeq xs)"
      by (rule strip_Cons_append)
    let ?l = "\<lparr>indent = ind + 2, content = k @ CHR '':'' # c, lineNo = lineNo l\<rparr>"
    have vl: "map strip (?l # lsc) = render (ind + 2) (YMap m)" unfolding h using lsc by (simp add: strip_def)
    have fuel: "2 * bytes ((?l # lsc) @ ls' @ rest) + 1 \<le> n'" "2 * bytes (ls' @ rest) + 1 \<le> n'"
      using Cons.prems(4) n l by simp_all
    have "parseMapping n' (ind + 2) [] ((?l # lsc) @ ls' @ rest) = Inr (v, ls' @ rest)"
      using v(1) okm vl fuel(1) items_end(1) [OF okx ls' Cons.prems(3)] unfolding parses_def YMap yval.case by blast
    then have "parseSequence (Suc n') ind acc (l # lsc @ ls' @ rest) = parseSequence n' ind (acc @ [v]) (ls' @ rest)"
      by (intro parseSequence_mapping [OF l(2,3) k]) (simp only: append_Cons)
    with rec [OF ls' fuel(2)] show ?thesis by (simp only: n l append_Cons append_assoc)
  qed
qed

lemma parses_all: "parses v"
proof (induction v)
  case (YMap m)
  then have "\<forall>(k, v) \<in> set m. parses v" by force
  then have "\<forall>(k, v) \<in> set m. parses v \<and> key_ok k \<and> yaml_ok v" if "yaml_ok (YMap m)" using that by auto
  then show ?case
    using parse_entries [of m "[]"] unfolding parses_def by fastforce
next
  case (YSeq xs)
  then show ?case
    using parse_items [of xs _ _ _ _ "[]"] unfolding parses_def [of "YSeq xs"] by fastforce
qed (simp add: parses_def)

text \<open>From lines to text: what the lexer makes of a printed line.\<close>

definition line_ok :: "string \<Rightarrow> bool" where
  "line_ok c \<longleftrightarrow> c \<noteq> [] \<and> hd c \<notin> {CHR '' '', CHR ''#''} \<and> last c \<notin> {CHR '' '', CHR 0x0D} \<and>
     newline \<notin> set c \<and> c \<noteq> ''---''"

lemma TrimRight_id: "s = [] \<or> last s \<notin> set cutset \<Longrightarrow> TrimRight s cutset = s"
  by (cases s rule: rev_cases) (auto simp: TrimRight_def)

lemma TrimLeft_replicate: "c = [] \<or> hd c \<noteq> CHR '' '' \<Longrightarrow> TrimLeft (replicate i CHR '' '' @ c) '' '' = c"
  by (cases c) (auto simp: TrimLeft_def dropWhile_append)

lemma lex_lines_printed:
  assumes "\<forall>(i, c) \<in> set ls. line_ok c"
  shows "\<exists>ys. lex_lines n out (map (\<lambda>(i, c). replicate i CHR '' '' @ c) ls @ [[]]) = Inr (out @ ys) \<and> map strip ys = ls"
  using assms
proof (induction ls arbitrary: n out)
  case (Cons ic ls)
  obtain i c where ic: "ic = (i, c)" by (cases ic)
  have ok: "line_ok c" using Cons.prems by (auto simp: ic)
  let ?raw = "replicate i CHR '' '' @ c"
  have r: "TrimRight ?raw [CHR '' '', CHR 0x0D] = ?raw" using ok by (intro TrimRight_id) (simp add: line_ok_def)
  have l: "TrimLeft ?raw '' '' = c" using ok by (intro TrimLeft_replicate) (simp add: line_ok_def)
  have "\<not> prefix ''#'' c" using ok by (cases c) (auto simp: line_ok_def)
  moreover have "c \<noteq> []" "c \<noteq> ''---''" using ok by (auto simp: line_ok_def)
  moreover from Cons.IH [of "Suc n" "out @ [\<lparr>indent = i, content = c, lineNo = n\<rparr>]"] Cons.prems obtain ys where
    "lex_lines (Suc n) (out @ [\<lparr>indent = i, content = c, lineNo = n\<rparr>]) (map (\<lambda>(i, c). replicate i CHR '' '' @ c) ls @ [[]]) =
      Inr ((out @ [\<lparr>indent = i, content = c, lineNo = n\<rparr>]) @ ys)" "map strip ys = ls" by auto
  moreover have "strip \<lparr>indent = i, content = c, lineNo = n\<rparr> = (i, c)" by (simp add: strip_def)
  ultimately show ?case
    by (intro exI [of _ "\<lparr>indent = i, content = c, lineNo = n\<rparr> # ys"]) (simp add: ic r l)
qed (simp add: TrimRight_def TrimLeft_def)

lemma Split_printed:
  assumes "\<forall>(i, c) \<in> set ls. newline \<notin> set c"
  shows "Split (print_lines ls) newline = map (\<lambda>(i, c). replicate i CHR '' '' @ c) ls @ [[]]"
  using assms
proof (induction ls)
  case (Cons ic ls)
  obtain i c where ic: "ic = (i, c)" by (cases ic)
  have "newline \<notin> set (replicate i CHR '' '' @ c)" using Cons.prems by (auto simp: ic)
  from Split_append [OF this] Cons show ?case by (auto simp: print_lines_def ic)
qed (simp add: print_lines_def)

lemma line_ok_entry:
  "key_ok k \<Longrightarrow> val_ok s \<Longrightarrow> line_ok (k @ '': '' @ quoted s)"
  "key_ok k \<Longrightarrow> line_ok (k @ '':'')"
  "val_ok s \<Longrightarrow> line_ok (''- '' @ quoted s)" "line_ok ''-''"
proof -
  have k: "k \<noteq> [] \<and> hd k \<notin> {CHR '' '', CHR ''#''} \<and> newline \<notin> set k" if "key_ok k"
  proof -
    have "code c \<noteq> 32 \<and> code c \<noteq> 10" if "c \<in> set k" for c using \<open>key_ok k\<close> that by (force simp: key_ok_def)
    then have "c \<noteq> CHR '' '' \<and> c \<noteq> newline" if "c \<in> set k" for c using that by force
    with \<open>key_ok k\<close> show ?thesis by (auto simp: key_ok_def)
  qed
  show "line_ok (k @ '': '' @ quoted s)" if "key_ok k" "val_ok s"
    using k [OF that(1)] that(2) by (auto simp: line_ok_def quoted_def val_ok_def append_eq_Cons_conv)
  show "line_ok (k @ '':'')" if "key_ok k"
    using k [OF that] by (auto simp: line_ok_def append_eq_Cons_conv)
  show "line_ok (''- '' @ quoted s)" if "val_ok s"
    using that by (simp add: line_ok_def quoted_def val_ok_def)
  show "line_ok ''-''" by (simp add: line_ok_def)
qed

lemma render_lines_ok: "yaml_ok v \<Longrightarrow> (i, c) \<in> set (render ind v) \<Longrightarrow> line_ok c"
proof (induction v arbitrary: ind i c)
  case (YMap m)
  then obtain k v where kv: "(k, v) \<in> set m" and ok: "key_ok k" "yaml_ok v"
    and c: "(i, c) \<in> set (case v of YStr s \<Rightarrow> [(ind, k @ '': '' @ quoted s)]
       | YMap _ \<Rightarrow> (ind, k @ '':'') # render (ind + 2) v | YSeq _ \<Rightarrow> (ind, k @ '':'') # render ind v)"
    by auto
  have ih: "(i, c) \<in> set (render ind' v) \<Longrightarrow> line_ok c" for ind' i c
    using YMap.IH [OF kv, of v] ok(2) by auto
  show ?case
    using c ok ih line_ok_entry(1,2) [OF ok(1)] by (cases v) (auto simp del: render.simps)
next
  case (YSeq xs)
  then obtain v where v: "v \<in> set xs" and ok: "yaml_ok v"
    and c: "(i, c) \<in> set (case v of YStr s \<Rightarrow> [(ind, ''- '' @ quoted s)]
       | YMap _ \<Rightarrow> dash ind (render (ind + 2) v) | YSeq _ \<Rightarrow> (ind, ''-'') # render (ind + 2) v)"
    by auto
  have ih: "(i, c) \<in> set (render ind' v) \<Longrightarrow> line_ok c" for ind' i c
    using YSeq.IH [OF v] ok by auto
  show ?case
  proof (cases v)
    case (YMap m)
    with c have "(i, c) \<in> set (dash ind (render (ind + 2) v))" by simp
    moreover have "line_ok (''- '' @ c')" if "line_ok c'" for c'
      using that by (auto simp: line_ok_def)
    moreover have "\<forall>(i, c) \<in> set (render (ind + 2) v). line_ok c" using ih by auto
    ultimately show ?thesis
      by (cases "render (ind + 2) v") auto
  qed (use c ok ih line_ok_entry(3,4) in \<open>auto simp del: render.simps\<close>)
qed simp


lemma parse_printed:
  assumes ok: "yaml_ok v" and block: "\<forall>s. v \<noteq> YStr s"
  shows "parseYAMLTree (print_lines (render 0 v)) = Inr v"
proof -
  have "\<forall>(i, c) \<in> set (render 0 v). line_ok c" using render_lines_ok [OF ok] by auto
  moreover from this have "\<forall>(i, c) \<in> set (render 0 v). newline \<notin> set c" by (auto simp: line_ok_def)
  ultimately obtain ys where lex: "lexYAML (print_lines (render 0 v)) = Inr ys" and ys: "map strip ys = render 0 v"
    using lex_lines_printed [of "render 0 v" 1 "[]"] by (auto simp: lexYAML_def Split_printed)
  have ends: "case v of YStr s \<Rightarrow> False | YMap m \<Rightarrow> ends_map 0 [] | YSeq xs \<Rightarrow> ends_seq 0 []"
    using block by (cases v) (simp_all add: ends_map_def ends_seq_def)
  from parseBlock_child [OF parses_all ok ys, of "[]" "2 * bytes ys + 2"] ends obtain l ls where
    "parseBlock (2 * bytes ys + 2) 0 ys = Inr (v, [])" "ys = l # ls" "indent l = 0"
    by (auto simp del: parseBlock.simps bytes_simps)
  then show ?thesis by (simp add: parseYAMLTree_def lex del: parseBlock.simps)
qed


section \<open>Properties\<close>

text \<open>C12: a tree of nested mappings, sequences and strings that is printed the way kubeconfig writers
  print it parses back to exactly that tree: no key is lost, duplicated or moved to another level.\<close>

theorem yaml_roundtrip:
  assumes "yaml_ok v" and "\<forall>s. v \<noteq> YStr s"
  shows "parseYAMLTree (print_lines (render 0 v)) = Inr v"
  by (rule parse_printed [OF assms])

theorem yaml_roundtrip_witness:
  "parseYAMLTree (print_lines (render 0 (YMap [(''current-context'', YStr ''ctx''),
      (''clusters'', YSeq [YMap [(''name'', YStr ''c: #1''), (''cluster'', YMap [(''server'', YStr ''https://h:6443'')])]])]))) =
   Inr (YMap [(''current-context'', YStr ''ctx''),
      (''clusters'', YSeq [YMap [(''name'', YStr ''c: #1''), (''cluster'', YMap [(''server'', YStr ''https://h:6443'')])]])])"
  by (rule yaml_roundtrip) (simp_all add: key_ok_def val_ok_def)

text \<open>C39: parsing terminates on every input: the recursion never exceeds two calls per byte of content,
  so the parser returns a tree or an error of the source.\<close>

theorem parse_terminates: "parseYAMLTree data \<noteq> Inl YFuel"
  using parse_fuel(1) lex_lines_no_fuel
  by (auto simp: parseYAMLTree_def lexYAML_def res_bind_Inl_iff split: list.splits simp del: parseBlock.simps)

text \<open>the check for tab indentation cannot fire: the prefix it inspects was cut off by a trim of
  blanks only. A line indented with a tab is accepted, and its tab ends up in a key or is trimmed.\<close>

theorem tab_indent_never_rejected:
  "lexYAML data \<noteq> Inl (YTabIndent n) \<and>
   parseYAMLTree (''a:'' @ [newline, tab] @ ''b: c'') = Inr (YMap [(''a'', YStr []), (''b'', YStr ''c'')])"
proof -
  have spaces: "tab \<notin> set (take (length line - length (TrimLeft line '' '')) line)" for line
  proof -
    have "take (length line - length (TrimLeft line '' '')) line = takeWhile (\<lambda>c. c \<in> set '' '') line"
      unfolding TrimLeft_def by (metis add_diff_cancel_right' append_eq_conv_conj length_append takeWhile_dropWhile_id)
    then show ?thesis by (auto dest: set_takeWhileD)
  qed
  have "lex_lines k out raws \<noteq> Inl (YTabIndent n)" for k out raws
    by (induction k out raws rule: lex_lines.induct) (simp_all add: Let_def spaces)
  moreover have "parseYAMLTree (''a:'' @ [newline, tab] @ ''b: c'') = Inr (YMap [(''a'', YStr []), (''b'', YStr ''c'')])"
    by code_simp
  ultimately show ?thesis by (simp add: lexYAML_def)
qed

text \<open>an empty value panics: \<open>parseScalarValue\<close> indexes the first byte of an empty string for a flow
  mapping entry without a value and for a sequence item that is only a tab.\<close>

theorem empty_scalar_panics:
  "parseYAMLTree ''preferences: {colors:}'' = Inl YPanic \<and> parseYAMLTree (''- '' @ [tab]) = Inl YPanic"
  by (intro conjI; code_simp)

end
