(* ===== verification/Kubeconfig.thy ===== *)
theory Kubeconfig
  imports Yaml
begin

text \<open>
  \<^verbatim>\<open>src/internal/kubeconfig/kubeconfig.go\<close>: resolving a kubeconfig file to a CA pool and exactly one
  client credential.

  The file system and the certificate parsers are the record \<open>kube_env\<close>. The closures the source
  stores in \<open>Auth\<close> are values of \<open>token_source\<close> and \<open>cert_source\<close>; calling one is \<open>BearerToken\<close> or
  \<open>GetClientCertificate\<close> in the environment of the moment of the call, so that re-reading rotated
  files is visible. \<open>base64.StdEncoding\<close> is defined, with its skipping of line ends.
\<close>

section \<open>Environment and results\<close>

record kube_env =
  k_ReadFile :: "string \<Rightarrow> (string, string) res"
  k_AppendCertsFromPEM :: "string \<Rightarrow> string list" \<comment> \<open>the certificates found, none if it fails\<close>
  k_X509KeyPair :: "string \<Rightarrow> string \<Rightarrow> (string, string) res"

datatype token_source = TokenInline string | TokenFile string
datatype cert_source = CertInline string | CertFiles string string

record Auth =
  Server :: string
  CAPool :: "string list"
  BearerTokenF :: "token_source option"
  GetClientCertificateF :: "cert_source option"

datatype kube_error =
    KRead string
  | KYaml yaml_error
  | KNotMapping
  | KNoContext
  | KContext string kube_error
  | KContextIncomplete string
  | KSection string
  | KNoObject string string string
  | KNoEntry string string
  | KBadBase64 string
  | KCARead string
  | KNoCA
  | KNoPEM
  | KUser string kube_error
  | KExec
  | KAuthProvider
  | KPairMissing string
  | KKeyPair string
  | KPathsIncomplete
  | KNoCredentials


section \<open>Base64\<close>

definition b64_val :: "char \<Rightarrow> nat option" where
  "b64_val c =
     (let n = code c in
      if 65 \<le> n \<and> n \<le> 90 then Some (n - 65)
      else if 97 \<le> n \<and> n \<le> 122 then Some (n - 97 + 26)
      else if 48 \<le> n \<and> n \<le> 57 then Some (n - 48 + 52)
      else if n = 43 then Some 62
      else if n = 47 then Some 63
      else None)"

text \<open>Four symbols give three bytes; padding is only accepted at the very end.\<close>

fun b64_quads :: "string \<Rightarrow> string option" where
  "b64_quads [] = Some []"
| "b64_quads (a # b # c # d # rest) =
     (case (b64_val a, b64_val b) of
        (Some x, Some y) \<Rightarrow>
          if d = CHR ''='' then
            if rest \<noteq> [] then None
            else if c = CHR ''='' then Some [chr (x * 4 + y div 16)]
            else (case b64_val c of
                    Some z \<Rightarrow> Some [chr (x * 4 + y div 16), chr (y mod 16 * 16 + z div 4)]
                  | None \<Rightarrow> None)
          else
            (case (b64_val c, b64_val d) of
               (Some z, Some u) \<Rightarrow>
                 map_option (\<lambda>bs. chr (x * 4 + y div 16) # chr (y mod 16 * 16 + z div 4) # chr (z mod 4 * 64 + u) # bs)
                   (b64_quads rest)
             | _ \<Rightarrow> None)
      | _ \<Rightarrow> None)"
| "b64_quads _ = None"

definition DecodeString :: "string \<Rightarrow> string option" where
  "DecodeString s = b64_quads (filter (\<lambda>c. c \<noteq> CHR 0x0A \<and> c \<noteq> CHR 0x0D) s)"


section \<open>Resolution\<close>

definition str :: "yval option \<Rightarrow> string" where
  "str v = (case v of Some (YStr s) \<Rightarrow> s | _ \<Rightarrow> [])"

fun find_entry :: "string \<Rightarrow> string \<Rightarrow> string \<Rightarrow> yval list \<Rightarrow> (kube_error, (string \<times> yval) list) res" where
  "find_entry section inner name [] = Inl (KNoEntry name section)"
| "find_entry section inner name (item # items) =
     (case item of
        YMap entry \<Rightarrow>
          if str (map_of entry ''name'') \<noteq> name then find_entry section inner name items
          else (case map_of entry inner of
                  Some (YMap obj) \<Rightarrow> Inr obj
                | _ \<Rightarrow> Inl (KNoObject section name inner))
      | _ \<Rightarrow> find_entry section inner name items)"

definition findNamed :: "(string \<times> yval) list \<Rightarrow> string \<Rightarrow> string \<Rightarrow> string \<Rightarrow> (kube_error, (string \<times> yval) list) res" where
  "findNamed root section inner name =
     (case map_of root section of
        Some (YSeq items) \<Rightarrow> find_entry section inner name items
      | _ \<Rightarrow> Inl (KSection section))"

definition resolveContext :: "(string \<times> yval) list \<Rightarrow> (kube_error, string \<times> string) res" where
  "resolveContext root =
     (let current = str (map_of root ''current-context'') in
      if current = [] then Inl KNoContext
      else
        res_bind (map_error (KContext current) (findNamed root ''contexts'' ''context'' current)) (\<lambda>ctx.
        let clusterName = str (map_of ctx ''cluster''); userName = str (map_of ctx ''user'') in
        if clusterName = [] \<or> userName = [] then Inl (KContextIncomplete current)
        else Inr (clusterName, userName)))"

definition loadCA :: "kube_env \<Rightarrow> (string \<times> yval) list \<Rightarrow> (kube_error, string list) res" where
  "loadCA env cluster =
     (let data = str (map_of cluster ''certificate-authority-data''); file = str (map_of cluster ''certificate-authority'') in
      res_bind
        (if data \<noteq> [] then
           (case DecodeString data of None \<Rightarrow> Inl (KBadBase64 ''certificate-authority-data'') | Some pem \<Rightarrow> Inr pem)
         else if file \<noteq> [] then map_error KCARead (k_ReadFile env file)
         else Inl KNoCA)
        (\<lambda>pemData.
           let pool = k_AppendCertsFromPEM env pemData in
           if pool = [] then Inl KNoPEM else Inr pool))"

definition b64Field :: "(string \<times> yval) list \<Rightarrow> string \<Rightarrow> (kube_error, string) res" where
  "b64Field m key =
     (let raw = str (map_of m key) in
      if raw = [] then Inl (KPairMissing key)
      else (case DecodeString raw of None \<Rightarrow> Inl (KBadBase64 key) | Some d \<Rightarrow> Inr d))"

definition loadCredentials :: "kube_env \<Rightarrow> Auth \<Rightarrow> (string \<times> yval) list \<Rightarrow> (kube_error, Auth) res" where
  "loadCredentials env auth user =
     (let f = (\<lambda>key. str (map_of user key)) in
      if map_of user ''exec'' \<noteq> None then Inl KExec
      else if map_of user ''auth-provider'' \<noteq> None then Inl KAuthProvider
      else if f ''token'' \<noteq> [] then Inr (auth\<lparr>BearerTokenF := Some (TokenInline (f ''token''))\<rparr>)
      else if f ''tokenFile'' \<noteq> [] then Inr (auth\<lparr>BearerTokenF := Some (TokenFile (f ''tokenFile''))\<rparr>)
      else if f ''client-certificate-data'' \<noteq> [] \<or> f ''client-key-data'' \<noteq> [] then
        res_bind (b64Field user ''client-certificate-data'') (\<lambda>certPEM.
        res_bind (b64Field user ''client-key-data'') (\<lambda>keyPEM.
        res_bind (map_error KKeyPair (k_X509KeyPair env certPEM keyPEM)) (\<lambda>cert.
        Inr (auth\<lparr>GetClientCertificateF := Some (CertInline cert)\<rparr>))))
      else if f ''client-certificate'' \<noteq> [] \<or> f ''client-key'' \<noteq> [] then
        if f ''client-certificate'' = [] \<or> f ''client-key'' = [] then Inl KPathsIncomplete
        else Inr (auth\<lparr>GetClientCertificateF := Some (CertFiles (f ''client-certificate'') (f ''client-key''))\<rparr>)
      else Inl KNoCredentials)"

definition Load :: "kube_env \<Rightarrow> string \<Rightarrow> (kube_error, Auth) res" where
  "Load env path =
     res_bind (map_error KRead (k_ReadFile env path)) (\<lambda>data.
     res_bind (map_error KYaml (parseYAMLTree data)) (\<lambda>tree.
     case tree of
       YMap root \<Rightarrow>
         res_bind (resolveContext root) (\<lambda>(clusterName, userName).
         res_bind (findNamed root ''clusters'' ''cluster'' clusterName) (\<lambda>cluster.
         res_bind (findNamed root ''users'' ''user'' userName) (\<lambda>user.
         res_bind (loadCA env cluster) (\<lambda>pool.
         map_error (KUser userName)
           (loadCredentials env
             \<lparr>Server = str (map_of cluster ''server''), CAPool = pool, BearerTokenF = None, GetClientCertificateF = None\<rparr>
             user)))))
     | _ \<Rightarrow> Inl KNotMapping))"


section \<open>Using the credentials\<close>

definition BearerToken :: "kube_env \<Rightarrow> token_source \<Rightarrow> (string, string) res" where
  "BearerToken env src =
     (case src of
        TokenInline token \<Rightarrow> Inr token
      | TokenFile path \<Rightarrow> (case k_ReadFile env path of Inl e \<Rightarrow> Inl e | Inr data \<Rightarrow> Inr (TrimSpace data)))"

text \<open>\<open>tls.LoadX509KeyPair\<close> reads the certificate, then the key, then pairs them.\<close>

definition GetClientCertificate :: "kube_env \<Rightarrow> cert_source \<Rightarrow> (string, string) res" where
  "GetClientCertificate env src =
     (case src of
        CertInline cert \<Rightarrow> Inr cert
      | CertFiles certPath keyPath \<Rightarrow>
          res_bind (k_ReadFile env certPath) (\<lambda>c. res_bind (k_ReadFile env keyPath) (\<lambda>k. k_X509KeyPair env c k)))"


section \<open>Specification\<close>

text \<open>The credential a user object selects, without errors: the first usable one in the order of the
  source, none with an exec plugin or an auth provider.\<close>

datatype credential = CToken token_source | CCert cert_source

definition selects :: "kube_env \<Rightarrow> (string \<times> yval) list \<Rightarrow> credential \<Rightarrow> bool" where
  "selects env user cred \<longleftrightarrow>
     map_of user ''exec'' = None \<and> map_of user ''auth-provider'' = None \<and>
     (let f = (\<lambda>key. str (map_of user key)) in
      if f ''token'' \<noteq> [] then cred = CToken (TokenInline (f ''token''))
      else if f ''tokenFile'' \<noteq> [] then cred = CToken (TokenFile (f ''tokenFile''))
      else if f ''client-certificate-data'' \<noteq> [] \<or> f ''client-key-data'' \<noteq> [] then
        (\<exists>c k cert. f ''client-certificate-data'' \<noteq> [] \<and> f ''client-key-data'' \<noteq> [] \<and>
           DecodeString (f ''client-certificate-data'') = Some c \<and> DecodeString (f ''client-key-data'') = Some k \<and>
           k_X509KeyPair env c k = Inr cert \<and> cred = CCert (CertInline cert))
      else f ''client-certificate'' \<noteq> [] \<and> f ''client-key'' \<noteq> [] \<and>
        cred = CCert (CertFiles (f ''client-certificate'') (f ''client-key'')))"

definition with_credential :: "Auth \<Rightarrow> credential \<Rightarrow> Auth" where
  "with_credential auth cred =
     (case cred of
        CToken s \<Rightarrow> auth\<lparr>BearerTokenF := Some s\<rparr>
      | CCert s \<Rightarrow> auth\<lparr>GetClientCertificateF := Some s\<rparr>)"

text \<open>The tree of a kubeconfig with one cluster, one user and one context.\<close>

definition kubeconfig_tree :: "string \<Rightarrow> string \<Rightarrow> (string \<times> string) list \<Rightarrow> yval" where
  "kubeconfig_tree server ca user =
     YMap [(''apiVersion'', YStr ''v1''), (''kind'', YStr ''Config''),
       (''clusters'', YSeq [YMap [(''name'', YStr ''kubernetes''),
          (''cluster'', YMap [(''certificate-authority-data'', YStr ca), (''server'', YStr server)])]]),
       (''contexts'', YSeq [YMap [(''name'', YStr ''default''),
          (''context'', YMap [(''cluster'', YStr ''kubernetes''), (''user'', YStr ''lb'')])]]),
       (''current-context'', YStr ''default''),
       (''users'', YSeq [YMap [(''name'', YStr ''lb''), (''user'', YMap (map (\<lambda>(k, v). (k, YStr v)) user))]])]"

text \<open>An environment with one kubeconfig and its token file.\<close>

definition example_kube_env :: kube_env where
  "example_kube_env =
     \<lparr>k_ReadFile = (\<lambda>p. if p = ''kc'' then Inr (print_lines (render 0 (kubeconfig_tree ''https://10.0.0.1:6443'' ''cGVt'' [(''tokenFile'', ''tok'')])))
        else if p = ''tok'' then Inr ('' secret'' @ [newline]) else Inl ''no such file''),
      k_AppendCertsFromPEM = (\<lambda>pem. [pem]), k_X509KeyPair = (\<lambda>c k. Inl ''bad'')\<rparr>"


section \<open>Lemmas\<close>

lemma b64Field_Inr_iff:
  "b64Field m key = Inr d \<longleftrightarrow> str (map_of m key) \<noteq> [] \<and> DecodeString (str (map_of m key)) = Some d"
  by (auto simp: b64Field_def Let_def split: option.splits)

lemma loadCredentials_Inr_iff:
  "loadCredentials env auth user = Inr auth' \<longleftrightarrow> (\<exists>cred. selects env user cred \<and> auth' = with_credential auth cred)"
proof -
  let ?f = "\<lambda>key. str (map_of user key)"
  consider (refused) "map_of user ''exec'' \<noteq> None \<or> map_of user ''auth-provider'' \<noteq> None"
    | (token) "map_of user ''exec'' = None" "map_of user ''auth-provider'' = None" "?f ''token'' \<noteq> [] \<or> ?f ''tokenFile'' \<noteq> []"
    | (data) "map_of user ''exec'' = None" "map_of user ''auth-provider'' = None" "?f ''token'' = []" "?f ''tokenFile'' = []"
        "?f ''client-certificate-data'' \<noteq> [] \<or> ?f ''client-key-data'' \<noteq> []"
    | (files) "map_of user ''exec'' = None" "map_of user ''auth-provider'' = None" "?f ''token'' = []" "?f ''tokenFile'' = []"
        "\<not> (?f ''client-certificate-data'' \<noteq> [] \<or> ?f ''client-key-data'' \<noteq> [])"
    by blast
  then show ?thesis
  proof cases
    case refused
    then show ?thesis by (auto simp: loadCredentials_def selects_def Let_def)
  next
    case token
    then show ?thesis by (cases "?f ''token'' = []") (auto simp: loadCredentials_def selects_def with_credential_def Let_def)
  next
    case data
    then have "loadCredentials env auth user =
        res_bind (b64Field user ''client-certificate-data'') (\<lambda>certPEM.
        res_bind (b64Field user ''client-key-data'') (\<lambda>keyPEM.
        res_bind (map_error KKeyPair (k_X509KeyPair env certPEM keyPEM)) (\<lambda>cert.
        Inr (auth\<lparr>GetClientCertificateF := Some (CertInline cert)\<rparr>))))"
      by (simp add: loadCredentials_def Let_def)
    moreover have "selects env user cred \<longleftrightarrow> (\<exists>c k cert. ?f ''client-certificate-data'' \<noteq> [] \<and> ?f ''client-key-data'' \<noteq> [] \<and>
        DecodeString (?f ''client-certificate-data'') = Some c \<and> DecodeString (?f ''client-key-data'') = Some k \<and>
        k_X509KeyPair env c k = Inr cert \<and> cred = CCert (CertInline cert))" for cred
      using data by (simp add: selects_def Let_def)
    ultimately show ?thesis
      by (auto simp: res_bind_Inr_iff b64Field_Inr_iff with_credential_def)
  next
    case files
    then show ?thesis
      by (cases "?f ''client-certificate'' = [] \<or> ?f ''client-key'' = []")
        (auto simp: loadCredentials_def selects_def with_credential_def Let_def)
  qed
qed

lemma loadCA_pool: "loadCA env cluster = Inr pool \<Longrightarrow> pool \<noteq> []"
  by (auto simp: loadCA_def Let_def res_bind_Inr_iff split: if_splits)

lemma Load_printed:
  assumes "k_ReadFile env path = Inr (print_lines (render 0 (kubeconfig_tree server ca [(key, tok)])))"
    and "val_ok server" and "val_ok ca" and "val_ok tok" and "ca \<noteq> []" and "tok \<noteq> []"
    and "DecodeString ca = Some pem" and "k_AppendCertsFromPEM env pem \<noteq> []"
    and "key = ''token'' \<or> key = ''tokenFile''"
  shows "Load env path = Inr \<lparr>Server = server, CAPool = k_AppendCertsFromPEM env pem,
      BearerTokenF = Some (if key = ''token'' then TokenInline tok else TokenFile tok), GetClientCertificateF = None\<rparr>"
proof -
  have "yaml_ok (kubeconfig_tree server ca [(key, tok)])"
    using assms(2-4,9) by (auto simp: kubeconfig_tree_def val_ok_def key_ok_def)
  from parse_printed [OF this] have
    p: "parseYAMLTree (print_lines (render 0 (kubeconfig_tree server ca [(key, tok)]))) = Inr (kubeconfig_tree server ca [(key, tok)])"
    by (simp add: kubeconfig_tree_def)
  have "Load env path = map_error (KUser ''lb'') (loadCredentials env
      \<lparr>Server = server, CAPool = k_AppendCertsFromPEM env pem, BearerTokenF = None, GetClientCertificateF = None\<rparr> [(key, YStr tok)])"
    unfolding Load_def assms(1)
    using assms(5,7,8) by (simp add: p) (simp add: kubeconfig_tree_def resolveContext_def findNamed_def str_def loadCA_def)
  with assms(6,9) show ?thesis
    by (auto simp: loadCredentials_def str_def)
qed

lemma DecodeString_example: "DecodeString ''cGVt'' = Some ''pem''"
  by code_simp


section \<open>Properties\<close>

text \<open>C28: a kubeconfig that loads yields exactly one client credential, the one its user object selects
  (token before token file before inline certificate before certificate files; never an exec plugin
  or an auth provider), and a non-empty CA pool.\<close>

theorem Load_one_credential:
  assumes "Load env path = Inr auth"
  shows "CAPool auth \<noteq> [] \<and> (BearerTokenF auth = None) \<noteq> (GetClientCertificateF auth = None) \<and>
    (\<exists>data root cl us user cred.
       k_ReadFile env path = Inr data \<and> parseYAMLTree data = Inr (YMap root) \<and> resolveContext root = Inr (cl, us) \<and>
       findNamed root ''users'' ''user'' us = Inr user \<and> selects env user cred \<and>
       (case cred of CToken s \<Rightarrow> BearerTokenF auth = Some s | CCert s \<Rightarrow> GetClientCertificateF auth = Some s))"
proof -
  from assms obtain data tree where "k_ReadFile env path = Inr data" "parseYAMLTree data = Inr tree"
    unfolding Load_def res_bind_Inr_iff map_error_Inr_iff by blast
  with assms obtain data root cl us cluster user pool where
    d: "k_ReadFile env path = Inr data" "parseYAMLTree data = Inr (YMap root)" "resolveContext root = Inr (cl, us)"
      "findNamed root ''users'' ''user'' us = Inr user" and ca: "loadCA env cluster = Inr pool"
    and c: "loadCredentials env \<lparr>Server = str (map_of cluster ''server''), CAPool = pool, BearerTokenF = None,
        GetClientCertificateF = None\<rparr> user = Inr auth"
    by (cases tree) (auto simp: Load_def res_bind_Inr_iff)
  from c obtain cred where cred: "selects env user cred"
    and auth: "auth = with_credential \<lparr>Server = str (map_of cluster ''server''), CAPool = pool, BearerTokenF = None,
        GetClientCertificateF = None\<rparr> cred"
    unfolding loadCredentials_Inr_iff by blast
  have "CAPool auth \<noteq> []" "(BearerTokenF auth = None) \<noteq> (GetClientCertificateF auth = None)"
    "case cred of CToken s \<Rightarrow> BearerTokenF auth = Some s | CCert s \<Rightarrow> GetClientCertificateF auth = Some s"
    using loadCA_pool [OF ca] by (cases cred; simp add: auth with_credential_def)+
  with d cred show ?thesis by blast
qed

text \<open>C29: a kubeconfig printed with a server, an inline CA and a token (or a token file) loads to that
  server, the certificates of that CA and that token; a token file is read when the token is used,
  not when the kubeconfig is loaded, so a rotated token is picked up.\<close>

theorem Load_printed_token:
  assumes "k_ReadFile env path = Inr (print_lines (render 0 (kubeconfig_tree server ca [(key, tok)])))"
    and "val_ok server" and "val_ok ca" and "val_ok tok" and "ca \<noteq> []" and "tok \<noteq> []"
    and "DecodeString ca = Some pem" and "k_AppendCertsFromPEM env pem \<noteq> []"
    and "key = ''token'' \<or> key = ''tokenFile''"
  shows "Load env path = Inr \<lparr>Server = server, CAPool = k_AppendCertsFromPEM env pem,
      BearerTokenF = Some (if key = ''token'' then TokenInline tok else TokenFile tok), GetClientCertificateF = None\<rparr> \<and>
    (k_ReadFile env' tok = Inr data \<longrightarrow> BearerToken env' (TokenFile tok) = Inr (TrimSpace data))"
  using Load_printed [OF assms] by (simp add: BearerToken_def)

theorem Load_printed_token_witness:
  "Load example_kube_env ''kc'' = Inr \<lparr>Server = ''https://10.0.0.1:6443'', CAPool = [''pem''],
     BearerTokenF = Some (TokenFile ''tok''), GetClientCertificateF = None\<rparr> \<and>
   BearerToken example_kube_env (TokenFile ''tok'') = Inr ''secret''"
proof -
  have "TrimSpace ('' secret'' @ [newline]) = ''secret''" by code_simp
  then show ?thesis
    using Load_printed_token [of example_kube_env "''kc''" "''https://10.0.0.1:6443''" "''cGVt''" "''tokenFile''" "''tok''" "''pem''"
        example_kube_env "'' secret'' @ [newline]"] DecodeString_example
    by (simp add: example_kube_env_def val_ok_def)
qed

theorem Load_one_credential_witness:
  "\<exists>auth. Load example_kube_env ''kc'' = Inr auth \<and> (BearerTokenF auth = None) \<noteq> (GetClientCertificateF auth = None)"
proof -
  have "k_ReadFile example_kube_env ''kc'' = Inr (print_lines (render 0 (kubeconfig_tree ''https://10.0.0.1:6443'' ''cGVt'' [(''tokenFile'', ''tok'')])))"
    by (simp add: example_kube_env_def)
  from Load_printed [OF this _ _ _ _ _ DecodeString_example] obtain auth where "Load example_kube_env ''kc'' = Inr auth"
    by (simp add: val_ok_def example_kube_env_def)
  with Load_one_credential [OF this] show ?thesis by blast
qed

end
