(* ===== verification/GoJson.thy ===== *)
theory GoJson
  imports GoStrings
begin

text \<open>
  The parts of Go's \<open>encoding/json\<close> the program uses: scanning a value, decoding it into structs of
  strings, integers and slices, and encoding a list of strings.

  Decoding follows the package: unknown keys are skipped, keys match exactly or by case folding, a
  \<open>null\<close> leaves a string, an integer or a struct as it was and empties a slice, a value of another
  type is an error, and a repeated key decodes on top of the earlier value. Invalid UTF-8 becomes
  U+FFFD in both directions. The scanner takes one unit of fuel per call; twice the input length
  is enough (\<open>scan_terminates\<close>).
\<close>

section \<open>UTF-8\<close>

text \<open>The length of the well-formed encoding a byte sequence starts with, 0 if there is none.\<close>

definition cont :: "nat \<Rightarrow> bool" where
  "cont b \<longleftrightarrow> 128 \<le> b \<and> b \<le> 191"

fun utf8_len :: "nat list \<Rightarrow> nat" where
  "utf8_len [] = 0"
| "utf8_len (a # bs) =
     (if a < 128 then 1
      else if 194 \<le> a \<and> a \<le> 223 then (case bs of b # _ \<Rightarrow> if cont b then 2 else 0 | [] \<Rightarrow> 0)
      else if 224 \<le> a \<and> a \<le> 239 then
        (case bs of
           b # c # _ \<Rightarrow>
             if (if a = 224 then 160 \<le> b \<and> b \<le> 191 else if a = 237 then 128 \<le> b \<and> b \<le> 159 else cont b) \<and> cont c
             then 3 else 0
         | _ \<Rightarrow> 0)
      else if 240 \<le> a \<and> a \<le> 244 then
        (case bs of
           b # c # d # _ \<Rightarrow>
             if (if a = 240 then 144 \<le> b \<and> b \<le> 191 else if a = 244 then 128 \<le> b \<and> b \<le> 143 else cont b) \<and> cont c \<and> cont d
             then 4 else 0
         | _ \<Rightarrow> 0)
      else 0)"

definition rune_error :: string where
  "rune_error = [chr 239, chr 191, chr 189]"

definition utf8_encode :: "nat \<Rightarrow> string" where
  "utf8_encode r =
     (if r < 128 then [chr r]
      else if r < 2048 then [chr (192 + r div 64), chr (128 + r mod 64)]
      else if r < 65536 then
        (if 55296 \<le> r \<and> r \<le> 57343 then rune_error
         else [chr (224 + r div 4096), chr (128 + r div 64 mod 64), chr (128 + r mod 64)])
      else [chr (240 + r div 262144), chr (128 + r div 4096 mod 64), chr (128 + r div 64 mod 64), chr (128 + r mod 64)])"


section \<open>Scanning\<close>

datatype json =
    JNull
  | JBool bool
  | JNum string
  | JStr string
  | JArr "json list"
  | JObj "(string \<times> json) list"

datatype json_error = JSyntax | JType | JFuel

definition is_ws :: "char \<Rightarrow> bool" where
  "is_ws c \<longleftrightarrow> code c \<in> {32, 9, 10, 13}"

definition skip_ws :: "string \<Rightarrow> string" where
  "skip_ws s = dropWhile is_ws s"

definition hexdigit :: "char \<Rightarrow> nat option" where
  "hexdigit c =
     (let n = code c in
      if 48 \<le> n \<and> n \<le> 57 then Some (n - 48)
      else if 97 \<le> n \<and> n \<le> 102 then Some (n - 87)
      else if 65 \<le> n \<and> n \<le> 70 then Some (n - 55)
      else None)"

fun hex4 :: "string \<Rightarrow> (nat \<times> string) option" where
  "hex4 (a # b # c # d # r) =
     (case (hexdigit a, hexdigit b, hexdigit c, hexdigit d) of
        (Some w, Some x, Some y, Some z) \<Rightarrow> Some (((w * 16 + x) * 16 + y) * 16 + z, r)
      | _ \<Rightarrow> None)"
| "hex4 _ = None"

text \<open>A surrogate followed by an escaped second half is one rune; alone it is replaced.\<close>

definition low_half :: "string \<Rightarrow> (nat \<times> string) option" where
  "low_half s =
     (case s of
        a # b # r \<Rightarrow>
          if a = CHR 0x5C \<and> b = CHR ''u'' then
            (case hex4 r of Some (n, r') \<Rightarrow> if 56320 \<le> n \<and> n \<le> 57343 then Some (n, r') else None | None \<Rightarrow> None)
          else None
      | _ \<Rightarrow> None)"

definition rune_escape :: "nat \<Rightarrow> string \<Rightarrow> string \<times> string" where
  "rune_escape n r =
     (if 55296 \<le> n \<and> n \<le> 56319 then
        (case low_half r of
           Some (m, r') \<Rightarrow> (utf8_encode ((n - 55296) * 1024 + (m - 56320) + 65536), r')
         | None \<Rightarrow> (rune_error, r))
      else (utf8_encode n, r))"

definition simple_escape :: "char \<Rightarrow> char option" where
  "simple_escape c =
     (if c = CHR 0x22 \<or> c = CHR 0x5C \<or> c = CHR ''/'' then Some c
      else if c = CHR ''b'' then Some (chr 8)
      else if c = CHR ''f'' then Some (chr 12)
      else if c = CHR ''n'' then Some (chr 10)
      else if c = CHR ''r'' then Some (chr 13)
      else if c = CHR ''t'' then Some (chr 9)
      else None)"

text \<open>The next piece of a string literal, unescaped, and what follows it; \<open>Inl False\<close> is the closing
  quote, \<open>Inl True\<close> an error.\<close>

definition str_piece :: "string \<Rightarrow> bool + (string \<times> string)" where
  "str_piece s =
     (case s of
        [] \<Rightarrow> Inl True
      | c # cs \<Rightarrow>
          if c = CHR 0x22 then Inl False
          else if c = CHR 0x5C then
            (case cs of
               [] \<Rightarrow> Inl True
             | e # es \<Rightarrow>
                 if e = CHR ''u'' then (case hex4 es of Some (n, r) \<Rightarrow> Inr (rune_escape n r) | None \<Rightarrow> Inl True)
                 else (case simple_escape e of Some x \<Rightarrow> Inr ([x], es) | None \<Rightarrow> Inl True))
          else if code c < 32 then Inl True
          else
            let k = utf8_len (map code s) in
            if k = 0 then Inr (rune_error, cs) else Inr (take k s, drop k s))"

lemma hex4_shorter: "hex4 s = Some (n, r) \<Longrightarrow> length r < length s"
  by (induction s rule: hex4.induct) (auto split: option.splits)

lemma low_half_shorter: "low_half s = Some (n, r) \<Longrightarrow> length r < length s"
  by (auto simp: low_half_def split: list.splits if_splits option.splits dest!: hex4_shorter)

lemma str_piece_shorter: "str_piece s = Inr (p, r) \<Longrightarrow> length r < length s"
  by (auto simp: str_piece_def rune_escape_def Let_def split: list.splits if_splits option.splits
      dest!: hex4_shorter low_half_shorter)

function pstring :: "string \<Rightarrow> (string \<times> string) option" where
  "pstring s =
     (case str_piece s of
        Inl err \<Rightarrow> if err then None else Some ([], tl s)
      | Inr (p, r) \<Rightarrow> map_option (\<lambda>(t, r'). (p @ t, r')) (pstring r))"
  by pat_completeness auto
termination
  by (relation "measure length") (auto dest: str_piece_shorter [OF sym] str_piece_shorter)

declare pstring.simps [simp del]

text \<open>A number literal: sign, integer part without leading zeros, fraction, exponent.\<close>

definition digits1 :: "string \<Rightarrow> (string \<times> string) option" where
  "digits1 s = (let d = takeWhile is_digit s in if d = [] then None else Some (d, dropWhile is_digit s))"

definition pnumber :: "string \<Rightarrow> (string \<times> string) option" where
  "pnumber s =
     (let (sg, s1) = (if prefix ''-'' s then (''-'', tl s) else ([], s)) in
      case (if prefix ''0'' s1 then Some (''0'', tl s1) else digits1 s1) of
        None \<Rightarrow> None
      | Some (ip, s2) \<Rightarrow>
          (case (if prefix ''.'' s2 then map_option (\<lambda>(d, r). (CHR ''.'' # d, r)) (digits1 (tl s2)) else Some ([], s2)) of
             None \<Rightarrow> None
           | Some (fp, s3) \<Rightarrow>
               if prefix ''e'' s3 \<or> prefix ''E'' s3 then
                 let (es, s4) = (if prefix ''+'' (tl s3) \<or> prefix ''-'' (tl s3) then ([hd s3, hd (tl s3)], tl (tl s3)) else ([hd s3], tl s3))
                 in map_option (\<lambda>(d, r). (sg @ ip @ fp @ es @ d, r)) (digits1 s4)
               else Some (sg @ ip @ fp, s3)))"

text \<open>A value after white space; elements of an array and members of an object.\<close>

fun pvalue :: "nat \<Rightarrow> string \<Rightarrow> (json_error, json \<times> string) res"
  and pelems :: "nat \<Rightarrow> string \<Rightarrow> (json_error, json list \<times> string) res"
  and pmembers :: "nat \<Rightarrow> string \<Rightarrow> (json_error, (string \<times> json) list \<times> string) res"
where
  "pvalue 0 s0 = Inl JFuel"
| "pvalue (Suc n) s0 =
     (let s = skip_ws s0 in
      if prefix ''{'' s then
        (let r = skip_ws (tl s) in
         if prefix ''}'' r then Inr (JObj [], tl r)
         else res_bind (pmembers n r) (\<lambda>(ms, r'). Inr (JObj ms, r')))
      else if prefix ''['' s then
        (let r = skip_ws (tl s) in
         if prefix '']'' r then Inr (JArr [], tl r)
         else res_bind (pelems n r) (\<lambda>(es, r'). Inr (JArr es, r')))
      else if prefix [CHR 0x22] s then
        (case pstring (tl s) of None \<Rightarrow> Inl JSyntax | Some (t, r) \<Rightarrow> Inr (JStr t, r))
      else if prefix ''true'' s then Inr (JBool True, drop 4 s)
      else if prefix ''false'' s then Inr (JBool False, drop 5 s)
      else if prefix ''null'' s then Inr (JNull, drop 4 s)
      else (case pnumber s of None \<Rightarrow> Inl JSyntax | Some (t, r) \<Rightarrow> Inr (JNum t, r)))"
| "pelems 0 s = Inl JFuel"
| "pelems (Suc n) s =
     res_bind (pvalue n s) (\<lambda>(v, r0).
     let r = skip_ws r0 in
     if prefix '','' r then res_bind (pelems n (tl r)) (\<lambda>(vs, r'). Inr (v # vs, r'))
     else if prefix '']'' r then Inr ([v], tl r)
     else Inl JSyntax)"
| "pmembers 0 s0 = Inl JFuel"
| "pmembers (Suc n) s0 =
     (let s = skip_ws s0 in
      if \<not> prefix [CHR 0x22] s then Inl JSyntax
      else
        (case pstring (tl s) of
           None \<Rightarrow> Inl JSyntax
         | Some (k, r0) \<Rightarrow>
             let r1 = skip_ws r0 in
             if \<not> prefix '':'' r1 then Inl JSyntax
             else
               res_bind (pvalue n (tl r1)) (\<lambda>(v, r2).
               let r = skip_ws r2 in
               if prefix '','' r then res_bind (pmembers n (tl r)) (\<lambda>(ms, r'). Inr ((k, v) # ms, r'))
               else if prefix ''}'' r then Inr ([(k, v)], tl r)
               else Inl JSyntax)))"

definition scan :: "string \<Rightarrow> (json_error, json \<times> string) res" where
  "scan s = pvalue (Suc (2 * length s)) s"



section \<open>Decoding\<close>

text \<open>Case folding of field names: ASCII letters, the long s and the Kelvin sign.\<close>

fun fold_name :: "nat list \<Rightarrow> nat list" where
  "fold_name (a # b # c # s) =
     (if a = 197 \<and> b = 191 then 115 # fold_name (c # s)
      else if a = 226 \<and> b = 132 \<and> c = 170 then 107 # fold_name s
      else (if 65 \<le> a \<and> a \<le> 90 then a + 32 else a) # fold_name (b # c # s))"
| "fold_name [a, b] =
     (if a = 197 \<and> b = 191 then [115]
      else (if 65 \<le> a \<and> a \<le> 90 then a + 32 else a) # fold_name [b])"
| "fold_name [a] = [if 65 \<le> a \<and> a \<le> 90 then a + 32 else a]"
| "fold_name [] = []"

definition same_name :: "string \<Rightarrow> string \<Rightarrow> bool" where
  "same_name key field \<longleftrightarrow> key = field \<or> fold_name (map code key) = fold_name (map code field)"

type_synonym 'a decoder = "'a \<Rightarrow> json \<Rightarrow> 'a option" \<comment> \<open>the earlier value, the input\<close>

definition dec_string :: "string decoder" where
  "dec_string old j = (case j of JStr s \<Rightarrow> Some s | JNull \<Rightarrow> Some old | _ \<Rightarrow> None)"

definition dec_int :: "int decoder" where
  "dec_int old j = (case j of JNum s \<Rightarrow> Atoi s | JNull \<Rightarrow> Some old | _ \<Rightarrow> None)"

fun dec_elems :: "'a decoder \<Rightarrow> 'a \<Rightarrow> 'a list \<Rightarrow> json list \<Rightarrow> 'a list option" where
  "dec_elems dec zero old [] = Some []"
| "dec_elems dec zero old (j # js) =
     (case dec (case old of [] \<Rightarrow> zero | o' # _ \<Rightarrow> o') j of
        None \<Rightarrow> None
      | Some v \<Rightarrow> map_option (\<lambda>vs. v # vs) (dec_elems dec zero (tl old) js))"

definition dec_slice :: "'a decoder \<Rightarrow> 'a \<Rightarrow> 'a list decoder" where
  "dec_slice dec zero old j =
     (case j of JArr js \<Rightarrow> dec_elems dec zero old js | JNull \<Rightarrow> Some [] | _ \<Rightarrow> None)"

text \<open>A struct is decoded member by member; \<open>fields\<close> says what each known name does to it.\<close>

fun dec_members :: "(string \<times> 'a decoder) list \<Rightarrow> 'a \<Rightarrow> (string \<times> json) list \<Rightarrow> 'a option" where
  "dec_members fields a [] = Some a"
| "dec_members fields a ((k, j) # ms) =
     (case find (\<lambda>(f, _). same_name k f) fields of
        None \<Rightarrow> dec_members fields a ms
      | Some (_, dec) \<Rightarrow> (case dec a j of None \<Rightarrow> None | Some a' \<Rightarrow> dec_members fields a' ms))"

definition dec_struct :: "(string \<times> 'a decoder) list \<Rightarrow> 'a decoder" where
  "dec_struct fields old j =
     (case j of JObj ms \<Rightarrow> dec_members fields old ms | JNull \<Rightarrow> Some old | _ \<Rightarrow> None)"

text \<open>\<open>json.Unmarshal\<close> accepts nothing but white space after the value, \<open>Decoder.Decode\<close> ignores the
  rest of the stream.\<close>

definition Decode :: "'a decoder \<Rightarrow> 'a \<Rightarrow> string \<Rightarrow> (json_error, 'a) res" where
  "Decode dec zero s =
     res_bind (scan s) (\<lambda>(j, r). case dec zero j of None \<Rightarrow> Inl JType | Some a \<Rightarrow> Inr a)"

definition Unmarshal :: "'a decoder \<Rightarrow> 'a \<Rightarrow> string \<Rightarrow> (json_error, 'a) res" where
  "Unmarshal dec zero s =
     res_bind (scan s) (\<lambda>(j, r).
     if skip_ws r \<noteq> [] then Inl JSyntax
     else (case dec zero j of None \<Rightarrow> Inl JType | Some a \<Rightarrow> Inr a))"


section \<open>Encoding\<close>

definition hex_low :: "nat \<Rightarrow> char" where
  "hex_low n = (if n < 10 then chr (48 + n) else chr (87 + n))"

definition enc_ascii :: "char \<Rightarrow> string" where
  "enc_ascii c =
     (let n = code c in
      if c = CHR 0x22 \<or> c = CHR 0x5C then [CHR 0x5C, c]
      else if 32 \<le> n \<and> c \<notin> set ''<>&'' then [c]
      else if n = 8 then [CHR 0x5C, CHR ''b'']
      else if n = 12 then [CHR 0x5C, CHR ''f'']
      else if n = 10 then [CHR 0x5C, CHR ''n'']
      else if n = 13 then [CHR 0x5C, CHR ''r'']
      else if n = 9 then [CHR 0x5C, CHR ''t'']
      else [CHR 0x5C, CHR ''u'', CHR ''0'', CHR ''0'', hex_low (n div 16), hex_low (n mod 16)])"

function enc_body :: "string \<Rightarrow> string" where
  "enc_body s =
     (case s of
        [] \<Rightarrow> []
      | c # cs \<Rightarrow>
          if code c < 128 then enc_ascii c @ enc_body cs
          else
            let k = utf8_len (map code s) in
            if k = 0 then CHR 0x5C # ''ufffd'' @ enc_body cs
            else if take k s = [chr 226, chr 128, chr 168] then CHR 0x5C # ''u2028'' @ enc_body (drop k s)
            else if take k s = [chr 226, chr 128, chr 169] then CHR 0x5C # ''u2029'' @ enc_body (drop k s)
            else take k s @ enc_body (drop k s))"
  by pat_completeness auto
termination
  by (relation "measure length") auto

declare enc_body.simps [simp del]

definition enc_string :: "string \<Rightarrow> string" where
  "enc_string s = CHR 0x22 # enc_body s @ [CHR 0x22]"

fun enc_commas :: "string list \<Rightarrow> string" where
  "enc_commas [] = []"
| "enc_commas [s] = enc_string s"
| "enc_commas (s # ss) = enc_string s @ '','' @ enc_commas ss"

text \<open>A nil slice is \<open>null\<close>.\<close>

definition enc_strings :: "string list \<Rightarrow> string" where
  "enc_strings ss = (if ss = [] then ''null'' else ''['' @ enc_commas ss @ '']'')"


section \<open>The scanner terminates\<close>

lemma skip_ws_length: "length (skip_ws s) \<le> length s"
  by (simp add: skip_ws_def length_dropWhile_le)

lemma pstring_shorter: "pstring s = Some (t, r) \<Longrightarrow> length r < length s"
proof (induction s arbitrary: t r rule: pstring.induct)
  case (1 s)
  show ?case
  proof (cases "str_piece s")
    case (Inl e)
    with "1.prems" have "\<not> e" "r = tl s" by (auto simp: pstring.simps [of s] split: if_splits)
    moreover have "s \<noteq> []" using Inl \<open>\<not> e\<close> by (auto simp: str_piece_def)
    ultimately show ?thesis by simp
  next
    case (Inr pr)
    obtain p q where pr: "pr = (p, q)" by (cases pr)
    from "1.prems" Inr pr obtain t' where "pstring q = Some (t', r)" by (auto simp: pstring.simps [of s])
    from "1.IH" [OF Inr pr [symmetric] this] str_piece_shorter Inr pr show ?thesis by fastforce
  qed
qed

lemma digits1_length: "digits1 s = Some (d, r) \<Longrightarrow> length r \<le> length s"
  by (auto simp: digits1_def Let_def length_dropWhile_le split: if_splits)

lemma tl_length: "length (tl s) \<le> length s"
  by (cases s) auto

lemma pnumber_length: "pnumber s = Some (t, r) \<Longrightarrow> length r \<le> length s"
  unfolding pnumber_def Let_def
  by (auto split: if_splits option.splits prod.splits dest!: digits1_length
      intro: order_trans [OF _ tl_length] order_trans [OF order_trans [OF _ tl_length] tl_length])

lemma skip_ws_tl_length: "length (tl (skip_ws s)) \<le> length s - 1"
  using skip_ws_length [of s] by simp

lemma scan_shrinks:
  "pvalue n s = Inr (v, r) \<Longrightarrow> length r \<le> length s"
  "pelems n s = Inr (vs, r) \<Longrightarrow> length r \<le> length s"
  "pmembers n s = Inr (ms, r) \<Longrightarrow> length r \<le> length s"
proof (induction n arbitrary: s v vs ms r)
  case (Suc n)
  note w = skip_ws_tl_length skip_ws_length
  {
    case 1
    have "length (skip_ws (tl (skip_ws s))) \<le> length s"
      using skip_ws_length [of "tl (skip_ws s)"] w(1) [of s] by linarith
    with 1 w(2) [of s] w(1) [of s] w(1) [of "tl (skip_ws s)"] show ?case
      by (auto simp: Let_def res_bind_Inr_iff split: if_splits option.splits
          dest!: Suc.IH(2,3) pstring_shorter pnumber_length)
  next
    case 2
    then obtain v0 r0 where p: "pvalue n s = Inr (v0, r0)"
      and k: "length r \<le> length (tl (skip_ws r0)) \<or> r = tl (skip_ws r0)"
      by (auto simp: Let_def res_bind_Inr_iff split: if_splits dest!: Suc.IH(2))
    from Suc.IH(1) [OF p] k w(1) [of r0] show ?case by auto
  next
    case 3
    then obtain k r0 v0 r2 where ps: "pstring (tl (skip_ws s)) = Some (k, r0)"
      and p: "pvalue n (tl (skip_ws r0)) = Inr (v0, r2)"
      and k: "length r \<le> length (tl (skip_ws r2)) \<or> r = tl (skip_ws r2)"
      by (auto simp: Let_def res_bind_Inr_iff split: if_splits option.splits dest!: Suc.IH(3))
    from pstring_shorter [OF ps] Suc.IH(1) [OF p] k w(1) [of s] w(1) [of r0] w(1) [of r2] show ?case by auto
  }
qed simp_all

lemma prefix_nonempty: "prefix (a # b) s \<Longrightarrow> 0 < length s"
  by (cases s) auto

lemma scan_fuel:
  "2 * length s + 1 \<le> n \<Longrightarrow> pvalue n s \<noteq> Inl JFuel"
  "2 * length s + 2 \<le> n \<Longrightarrow> pelems n s \<noteq> Inl JFuel"
  "2 * length s + 2 \<le> n \<Longrightarrow> pmembers n s \<noteq> Inl JFuel"
proof (induction n arbitrary: s)
  case (Suc n)
  note w = skip_ws_tl_length skip_ws_length
  {
    case 1
    have inner: "2 * length (skip_ws (tl (skip_ws s))) + 2 \<le> n" if "prefix [c] (skip_ws s)" for c
    proof -
      have "length (skip_ws (tl (skip_ws s))) + 1 \<le> length s"
        using prefix_nonempty [OF that] w(2) [of s] w(2) [of "tl (skip_ws s)"] by (cases "skip_ws s") auto
      with 1 show ?thesis by simp
    qed
    show ?case
      using Suc.IH(2,3) [OF inner] by (auto simp: Let_def res_bind_Inl_iff split: option.splits)
  next
    case 2
    have v: "pvalue n s \<noteq> Inl JFuel" using 2 by (intro Suc.IH(1)) simp
    have "pelems n (tl (skip_ws r0)) \<noteq> Inl JFuel" if "pvalue n s = Inr (v0, r0)" "prefix '','' (skip_ws r0)" for v0 r0
    proof -
      have "length (tl (skip_ws r0)) + 1 \<le> length s"
        using scan_shrinks(1) [OF that(1)] prefix_nonempty [OF that(2)] w(2) [of r0] by (cases "skip_ws r0") auto
      with 2 show ?thesis by (intro Suc.IH(2)) simp
    qed
    with v show ?case by (auto simp: Let_def res_bind_Inl_iff)
  next
    case 3
    have v: "pvalue n (tl (skip_ws r0)) \<noteq> Inl JFuel" if "pstring (tl (skip_ws s)) = Some (k, r0)" for k r0
      using pstring_shorter [OF that] w(1) [of s] w(1) [of r0] 3 by (intro Suc.IH(1)) linarith
    have "pmembers n (tl (skip_ws r2)) \<noteq> Inl JFuel"
      if "pstring (tl (skip_ws s)) = Some (k, r0)" "pvalue n (tl (skip_ws r0)) = Inr (v0, r2)" for k r0 v0 r2
      using pstring_shorter [OF that(1)] scan_shrinks(1) [OF that(2)] w(1) [of s] w(1) [of r0] w(1) [of r2] 3
      by (intro Suc.IH(3)) linarith
    with v show ?case by (auto simp: Let_def res_bind_Inl_iff split: option.splits)
  }
qed simp_all

lemma scan_terminates: "scan s \<noteq> Inl JFuel"
  unfolding scan_def by (rule scan_fuel(1)) simp


section \<open>Encoded strings scan back\<close>

definition ascii :: "string \<Rightarrow> bool" where
  "ascii s \<longleftrightarrow> (\<forall>c \<in> set s. code c < 128)"

lemma hexdigit_low: "k < 16 \<Longrightarrow> hexdigit (hex_low k) = Some k"
  by (auto simp: hexdigit_def hex_low_def Let_def)

lemma char_code_eq: "code c = n \<Longrightarrow> c = chr n"
  by (metis char_of_char)

lemma str_piece_enc:
  assumes c: "code c < 128"
  shows "str_piece (enc_ascii c @ r) = Inr ([c], r)"
proof -
  consider "c = CHR 0x22 \<or> c = CHR 0x5C" | (plain) "c \<noteq> CHR 0x22" "c \<noteq> CHR 0x5C" "32 \<le> code c" "c \<notin> set ''<>&''"
    | (short) "code c \<in> {8, 12, 10, 13, 9}"
    | (hex) "c \<noteq> CHR 0x22" "c \<noteq> CHR 0x5C" "\<not> (32 \<le> code c \<and> c \<notin> set ''<>&'')" "code c \<notin> {8, 12, 10, 13, 9}"
    by blast
  then show ?thesis
  proof cases
    case 1
    then show ?thesis by (elim disjE) (simp_all add: enc_ascii_def str_piece_def simple_escape_def)
  next
    case plain
    then have "enc_ascii c = [c]" by (simp add: enc_ascii_def)
    with plain c show ?thesis by (simp add: str_piece_def)
  next
    case short
    then have "c \<in> {chr 8, chr 12, chr 10, chr 13, chr 9}" using char_code_eq by blast
    then show ?thesis
      by (elim insertE emptyE) (simp_all add: enc_ascii_def str_piece_def simple_escape_def)
  next
    case hex
    let ?n = "code c"
    have e: "enc_ascii c = [CHR 0x5C, CHR ''u'', CHR ''0'', CHR ''0'', hex_low (?n div 16), hex_low (?n mod 16)]"
      using hex by (simp add: enc_ascii_def Let_def)
    have "hexdigit CHR ''0'' = Some 0" by (simp add: hexdigit_def)
    moreover have "hexdigit (hex_low (?n div 16)) = Some (?n div 16)" "hexdigit (hex_low (?n mod 16)) = Some (?n mod 16)"
      using c by (simp_all add: hexdigit_low less_mult_imp_div_less)
    ultimately have "hex4 (CHR ''0'' # CHR ''0'' # hex_low (?n div 16) # hex_low (?n mod 16) # r) = Some (?n, r)"
      by simp
    moreover have "rune_escape ?n r = ([c], r)" using c by (simp add: rune_escape_def utf8_encode_def)
    ultimately show ?thesis by (simp add: e str_piece_def)
  qed
qed

lemma pstring_enc: "ascii s \<Longrightarrow> pstring (enc_body s @ CHR 0x22 # r) = Some (s, r)"
proof (induction s)
  case Nil
  show ?case by (simp add: enc_body.simps [of "[]"] pstring.simps str_piece_def)
next
  case (Cons c s)
  then have c: "code c < 128" and s: "ascii s" by (simp_all add: ascii_def)
  have "enc_body (c # s) @ CHR 0x22 # r = enc_ascii c @ enc_body s @ CHR 0x22 # r"
    using c by (simp add: enc_body.simps [of "c # s"])
  with Cons.IH [OF s] str_piece_enc [OF c] show ?case by (simp add: pstring.simps [of "enc_ascii c @ _"])
qed

lemma pvalue_string: "ascii s \<Longrightarrow> pvalue (Suc n) (enc_string s @ r) = Inr (JStr s, r)"
  by (simp add: enc_string_def skip_ws_def is_ws_def pstring_enc Let_def)

lemma enc_string_head: "\<exists>t. enc_string s = CHR 0x22 # t"
  by (simp add: enc_string_def)

lemma enc_commas_head: "ss \<noteq> [] \<Longrightarrow> \<exists>t. enc_commas ss = CHR 0x22 # t"
  by (induction ss rule: enc_commas.induct) (simp_all add: enc_string_def)

lemma pelems_more:
  "pvalue n s = Inr (v, CHR '','' # r) \<Longrightarrow> pelems n r = Inr (vs, r') \<Longrightarrow> pelems (Suc n) s = Inr (v # vs, r')"
  by (simp add: skip_ws_def is_ws_def)

lemma pelems_strings:
  "ss \<noteq> [] \<Longrightarrow> \<forall>s \<in> set ss. ascii s \<Longrightarrow> length ss < n \<Longrightarrow>
     pelems n (enc_commas ss @ CHR '']'' # r) = Inr (map JStr ss, r)"
proof (induction ss arbitrary: n rule: enc_commas.induct)
  case (2 s)
  then obtain m where "n = Suc (Suc m)" by (cases n; cases "n - 1") auto
  with 2 show ?case by (simp add: pvalue_string skip_ws_def is_ws_def Let_def del: pvalue.simps)
next
  case (3 s s' ss)
  then obtain m where n: "n = Suc (Suc m)" by (cases n; cases "n - 1") auto
  from 3 n have "pelems (Suc m) (enc_commas (s' # ss) @ CHR '']'' # r) = Inr (map JStr (s' # ss), r)"
    by (simp del: pvalue.simps pelems.simps)
  moreover have "pvalue (Suc m) (enc_string s @ CHR '','' # enc_commas (s' # ss) @ CHR '']'' # r) =
      Inr (JStr s, CHR '','' # enc_commas (s' # ss) @ CHR '']'' # r)"
    using 3 by (intro pvalue_string) simp
  ultimately show ?case unfolding n by (simp add: pelems_more del: pvalue.simps pelems.simps)
qed simp

lemma pvalue_strings:
  assumes "\<forall>s \<in> set ss. ascii s" "length ss + 2 \<le> n"
  shows "pvalue n (enc_strings ss @ r) = Inr (if ss = [] then JNull else JArr (map JStr ss), r)"
proof (cases "ss = []")
  case True
  with assms obtain m where "n = Suc m" by (cases n) auto
  with True show ?thesis by (simp add: enc_strings_def skip_ws_def is_ws_def Let_def)
next
  case False
  from assms obtain m where n: "n = Suc m" "length ss < m" by (cases n) auto
  obtain t where t: "enc_commas ss = CHR 0x22 # t" using enc_commas_head [OF False] ..
  have "pelems m (CHR 0x22 # t @ CHR '']'' # r) = Inr (map JStr ss, r)"
    using pelems_strings [OF False assms(1) n(2), of r] t by simp
  with False n t show ?thesis by (simp add: enc_strings_def skip_ws_def is_ws_def Let_def)
qed

lemma enc_commas_length: "length ss \<le> length (enc_commas ss)"
  by (induction ss rule: enc_commas.induct) (simp_all add: enc_string_def)

lemma dec_elems_strings: "dec_elems dec_string [] old (map JStr ss) = Some ss"
  by (induction ss arbitrary: old) (simp_all add: dec_string_def)

end
