(* ===== verification/StateFile.thy ===== *)
theory StateFile
  imports GoJson
begin

text \<open>
  \<^verbatim>\<open>src/internal/discovery/state.go\<close>: the persisted server list.

  A file system maps paths to contents. What each system call of \<open>saveState\<close> answers is the record
  \<open>io\<close>; the operation returns every file system it passes through, in order, so that a crash
  between two calls is a prefix of that list, and the error it returns.
\<close>

section \<open>State\<close>

type_synonym fs = "string \<Rightarrow> string option"

datatype read_error = NotExist | ReadOther string

datatype load_error = LSRead read_error | LSParse json_error | LSNoServers

record io =
  io_CreateTemp :: "(string, string) res" \<comment> \<open>the error, or the name chosen\<close>
  io_Chmod :: "string option"
  io_Write :: "(nat \<times> string) option" \<comment> \<open>bytes written before the error, the error\<close>
  io_Close :: "string option"
  io_Rename :: "string option"
  io_Remove :: "string option" \<comment> \<open>the deferred \<open>os.Remove\<close>, whose error is ignored\<close>

record stateFile =
  st_Servers :: "string list"


section \<open>Operations\<close>

definition fs_read :: "fs \<Rightarrow> string \<Rightarrow> (read_error, string) res" where
  "fs_read f path = (case f path of None \<Rightarrow> Inl NotExist | Some data \<Rightarrow> Inr data)"

definition dec_state :: "stateFile decoder" where
  "dec_state = dec_struct
     [(''servers'', \<lambda>st j. map_option (\<lambda>ss. st\<lparr>st_Servers := ss\<rparr>) (dec_slice dec_string [] (st_Servers st) j))]"

definition Marshal_state :: "stateFile \<Rightarrow> string" where
  "Marshal_state st = CHR ''{'' # enc_string ''servers'' @ CHR '':'' # enc_strings (st_Servers st) @ ''}''"

definition LoadState :: "(string \<Rightarrow> (read_error, string) res) \<Rightarrow> string \<Rightarrow> (load_error, string list) res" where
  "LoadState read path =
     res_bind (map_error LSRead (read path)) (\<lambda>data.
     res_bind (map_error LSParse (Unmarshal dec_state \<lparr>st_Servers = []\<rparr> data)) (\<lambda>st.
     if length (st_Servers st) = 0 then Inl LSNoServers else Inr (st_Servers st)))"

text \<open>Every exit after \<open>CreateTemp\<close> runs the deferred \<open>os.Remove\<close> of the temporary name. The list holds the
  file systems other processes can see, in the order of the calls: what a crash of the process leaves
  behind. The source does not call \<open>fsync\<close>, so a power failure is outside of the model.\<close>

definition saveState :: "io \<Rightarrow> string \<Rightarrow> string list \<Rightarrow> fs \<Rightarrow> fs list \<times> string option" where
  "saveState oracle path servers f =
     (let data = Marshal_state \<lparr>st_Servers = servers\<rparr> in
      case io_CreateTemp oracle of
        Inl e \<Rightarrow> ([f], Some e)
      | Inr tmp \<Rightarrow>
          let f1 = f(tmp \<mapsto> []);
              remove = (\<lambda>g. case io_Remove oracle of Some _ \<Rightarrow> g | None \<Rightarrow> g(tmp := None))
          in
          (case io_Chmod oracle of
             Some e \<Rightarrow> ([f, f1, remove f1], Some e)
           | None \<Rightarrow>
               (case io_Write oracle of
                  Some (k, e) \<Rightarrow>
                    let f2 = f1(tmp \<mapsto> take k data) in ([f, f1, f2, remove f2], Some e)
                | None \<Rightarrow>
                    let f2 = f1(tmp \<mapsto> data) in
                    (case io_Close oracle of
                       Some e \<Rightarrow> ([f, f1, f2, remove f2], Some e)
                     | None \<Rightarrow>
                         (case io_Rename oracle of
                            Some e \<Rightarrow> ([f, f1, f2, remove f2], Some e)
                          | None \<Rightarrow>
                              let f3 = (f2(tmp := None))(path \<mapsto> data)
                              in ([f, f1, f2, f3, remove f3], None))))))"

text \<open>\<open>os.CreateTemp\<close> creates a file that did not exist, under a name of its own.\<close>

definition fresh_temp :: "io \<Rightarrow> string \<Rightarrow> fs \<Rightarrow> bool" where
  "fresh_temp oracle path f \<longleftrightarrow> (\<forall>tmp. io_CreateTemp oracle = Inr tmp \<longrightarrow> f tmp = None \<and> tmp \<noteq> path)"

definition io_ok :: io where
  "io_ok = \<lparr>io_CreateTemp = Inr ''/var/lib/lb/.servers-1.tmp'', io_Chmod = None, io_Write = None,
     io_Close = None, io_Rename = None, io_Remove = None\<rparr>"


section \<open>Lemmas\<close>

lemma fold_servers: "same_name ''servers'' ''servers''"
  by (simp add: same_name_def)

lemma pmembers_last:
  "pstring (tl (skip_ws s)) = Some (k, CHR '':'' # r) \<Longrightarrow> prefix [CHR 0x22] (skip_ws s) \<Longrightarrow>
     pvalue n r = Inr (v, CHR ''}'' # r') \<Longrightarrow> pmembers (Suc n) s = Inr ([(k, v)], r')"
  by (simp add: skip_ws_def is_ws_def)

lemma pvalue_object:
  "pmembers n (CHR 0x22 # r) = Inr (ms, r') \<Longrightarrow> pvalue (Suc n) (CHR ''{'' # CHR 0x22 # r) = Inr (JObj ms, r')"
  by (simp add: skip_ws_def is_ws_def)

lemma scan_Marshal:
  assumes "\<forall>s \<in> set ss. ascii s"
  shows "scan (Marshal_state \<lparr>st_Servers = ss\<rparr>) =
    Inr (JObj [(''servers'', if ss = [] then JNull else JArr (map JStr ss))], [])"
proof -
  let ?v = "if ss = [] then JNull else JArr (map JStr ss)"
  let ?m = "Marshal_state \<lparr>st_Servers = ss\<rparr>"
  have "length ss \<le> length (enc_strings ss)" using enc_commas_length [of ss] by (simp add: enc_strings_def)
  then obtain n where n: "2 * length ?m = Suc n" "length ss + 2 \<le> n"
    by (cases "2 * length ?m") (auto simp: Marshal_state_def)
  have head: "skip_ws (enc_string ''servers'' @ r) = enc_string ''servers'' @ r" for r
    by (simp add: enc_string_def skip_ws_def is_ws_def)
  have key: "pstring (tl (enc_string ''servers'' @ r)) = Some (''servers'', r)" for r
    using pstring_enc [of "''servers''" r] by (simp add: enc_string_def ascii_def)
  have "pvalue n (enc_strings ss @ ''}'') = Inr (?v, ''}'')" by (rule pvalue_strings [OF assms n(2)])
  then have mem: "pmembers (Suc n) (enc_string ''servers'' @ CHR '':'' # enc_strings ss @ ''}'') = Inr ([(''servers'', ?v)], [])"
    by (intro pmembers_last) (simp_all add: head key, simp add: enc_string_def)
  obtain t where t: "enc_string ''servers'' @ CHR '':'' # enc_strings ss @ ''}'' = CHR 0x22 # t"
    by (simp add: enc_string_def)
  from pvalue_object [OF mem [unfolded t]] show ?thesis
    unfolding scan_def n(1) by (simp only: Marshal_state_def stateFile.simps t append_Cons)
qed

lemma LoadState_Marshal:
  assumes "\<forall>s \<in> set ss. ascii s" "ss \<noteq> []" "read path = Inr (Marshal_state \<lparr>st_Servers = ss\<rparr>)"
  shows "LoadState read path = Inr ss"
proof -
  have "dec_state \<lparr>st_Servers = []\<rparr> (JObj [(''servers'', JArr (map JStr ss))]) = Some \<lparr>st_Servers = ss\<rparr>"
    by (simp add: dec_state_def dec_struct_def dec_slice_def dec_elems_strings fold_servers)
  with assms(2) show ?thesis
    by (simp add: LoadState_def Unmarshal_def assms(3) scan_Marshal [OF assms(1)] skip_ws_def)
qed

lemma saveState_trace:
  assumes "fresh_temp oracle path f" "saveState oracle path servers f = (trace, err)"
  defines "data \<equiv> Marshal_state \<lparr>st_Servers = servers\<rparr>"
  shows "(\<forall>g \<in> set trace. (g path = f path \<or> g path = Some data) \<and> (\<forall>q. q \<noteq> path \<and> io_CreateTemp oracle \<noteq> Inr q \<longrightarrow> g q = f q))"
    "trace \<noteq> []" "err = None \<Longrightarrow> last trace = f(path \<mapsto> data)" "err \<noteq> None \<Longrightarrow> last trace path = f path"
    "err \<noteq> None \<Longrightarrow> io_Remove oracle = None \<Longrightarrow> last trace = f"
proof -
  have "(\<forall>g \<in> set trace. (g path = f path \<or> g path = Some data) \<and> (\<forall>q. q \<noteq> path \<and> io_CreateTemp oracle \<noteq> Inr q \<longrightarrow> g q = f q)) \<and>
    trace \<noteq> [] \<and> (err = None \<longrightarrow> last trace = f(path \<mapsto> data)) \<and> (err \<noteq> None \<longrightarrow> last trace path = f path) \<and>
    (err \<noteq> None \<longrightarrow> io_Remove oracle = None \<longrightarrow> last trace = f)"
  proof (cases "io_CreateTemp oracle")
    case (Inr tmp)
    with assms(1) have tmp: "f tmp = None" "tmp \<noteq> path" by (auto simp: fresh_temp_def)
    then have "f(tmp := None) = f" "(f(tmp := None))(path \<mapsto> data, tmp := None) = f(path \<mapsto> data)"
      "(f(tmp := None))(path \<mapsto> data) = f(path \<mapsto> data)"
      by (auto simp: fun_eq_iff)
    with assms(2) Inr tmp show ?thesis
      unfolding saveState_def Let_def data_def
      by (cases "io_Remove oracle") (auto split: option.splits)
  qed (use assms in \<open>auto simp: saveState_def\<close>)
  then show "(\<forall>g \<in> set trace. (g path = f path \<or> g path = Some data) \<and> (\<forall>q. q \<noteq> path \<and> io_CreateTemp oracle \<noteq> Inr q \<longrightarrow> g q = f q))"
    "trace \<noteq> []" "err = None \<Longrightarrow> last trace = f(path \<mapsto> data)" "err \<noteq> None \<Longrightarrow> last trace path = f path"
    "err \<noteq> None \<Longrightarrow> io_Remove oracle = None \<Longrightarrow> last trace = f"
    by blast+
qed


section \<open>Properties\<close>

text \<open>C7: saving is atomic. Whatever call fails, and wherever a crash of the process stops it, the state file holds
  its old content or the complete new one, and no file but the temporary one is touched; success means
  that the new list is in place and no temporary file is left, an error that the state file is unchanged and,
  unless the deferred removal of the temporary file failed too, that nothing changed at all.\<close>

theorem saveState_atomic:
  assumes "fresh_temp oracle path f" and "saveState oracle path servers f = (trace, err)"
  shows "(\<forall>g \<in> set trace. (g path = f path \<or> g path = Some (Marshal_state \<lparr>st_Servers = servers\<rparr>)) \<and>
      (\<forall>q. q \<noteq> path \<and> io_CreateTemp oracle \<noteq> Inr q \<longrightarrow> g q = f q)) \<and>
    (if err = None then last trace = f(path \<mapsto> Marshal_state \<lparr>st_Servers = servers\<rparr>)
     else last trace path = f path \<and> (io_Remove oracle = None \<longrightarrow> last trace = f))"
  using saveState_trace [OF assms] by auto

theorem saveState_atomic_witness:
  "last (fst (saveState (io_ok\<lparr>io_Rename := Some ''cross-device''\<rparr>) ''/var/lib/lb/servers.json'' [''10.0.0.1:6443'']
     [''/var/lib/lb/servers.json'' \<mapsto> ''old''])) ''/var/lib/lb/servers.json'' = Some ''old''"
proof -
  let ?o = "io_ok\<lparr>io_Rename := Some ''cross-device''\<rparr>" and ?p = "''/var/lib/lb/servers.json''"
  let ?f = "[?p \<mapsto> ''old'']"
  obtain trace err where s: "saveState ?o ?p [''10.0.0.1:6443''] ?f = (trace, err)" by (metis prod.exhaust)
  have "err \<noteq> None" using s by (auto simp: saveState_def io_ok_def)
  moreover have "fresh_temp ?o ?p ?f" by (simp add: fresh_temp_def io_ok_def)
  ultimately show ?thesis using saveState_atomic [OF _ s] s by (cases err) auto
qed

text \<open>C27: what was saved is what is loaded: after a save that returned no error, \<open>LoadState\<close> of the
  same path returns exactly the list that was saved.\<close>

theorem state_roundtrip:
  assumes "fresh_temp oracle path f" and "saveState oracle path servers f = (trace, None)"
    and "servers \<noteq> []" and "\<forall>s \<in> set servers. ascii s"
  shows "LoadState (fs_read (last trace)) path = Inr servers"
  using saveState_trace [OF assms(1,2)] assms(3,4) by (intro LoadState_Marshal) (simp_all add: fs_read_def)

theorem state_roundtrip_witness:
  "LoadState (fs_read (last (fst (saveState io_ok ''/s'' [''10.0.0.1:6443'', ''<a&b>:1''] Map.empty)))) ''/s'' =
     Inr [''10.0.0.1:6443'', ''<a&b>:1'']"
proof (rule state_roundtrip)
  show "fresh_temp io_ok ''/s'' Map.empty" by (simp add: fresh_temp_def io_ok_def)
  show "saveState io_ok ''/s'' [''10.0.0.1:6443'', ''<a&b>:1''] Map.empty =
      (fst (saveState io_ok ''/s'' [''10.0.0.1:6443'', ''<a&b>:1''] Map.empty), None)"
    by (simp add: saveState_def io_ok_def Let_def)
qed (simp_all add: ascii_def)

end
