(* ===== verification/Discovery.thy ===== *)
theory Discovery
  imports Pool Validate Kubeconfig StateFile "HOL-Library.List_Lexorder" "HOL-Library.Char_ord"
begin

text \<open>
  \<^verbatim>\<open>src/internal/discovery/discovery.go\<close>: the poller that keeps the pool in step with the
  \<open>default/kubernetes\<close> Endpoints object.

  The network is the record \<open>disc_net\<close>: the error of building a request and the answer to a GET with
  given credentials. The record \<open>dstate\<close> holds what a round can change: the heap of backends, the
  pool, the poller, the file system of the state file and the log. \<open>poll_apply\<close> is the method \<open>apply\<close>.
  The vetting function is an argument, as \<open>Options.Validate\<close> is; what the poller relies on is the
  locale \<open>server_vetting\<close>, interpreted on \<open>ValidateServers\<close>.
\<close>

section \<open>State\<close>

record eps_address =
  ep_IP :: string

record eps_port =
  ep_Port :: int

record eps_subset =
  Addresses :: "eps_address list"
  Ports :: "eps_port list"

record endpoints =
  Subsets :: "eps_subset list"

record disc_options =
  KubeconfigPath :: string
  StatePath :: string

record Poller =
  p_auth :: "Auth option" \<comment> \<open>with it, the HTTP client built from it\<close>
  loggedWaiting :: bool
  loggedEmpty :: bool

datatype disc_log =
    LogWaiting kube_error
  | LogActivated
  | LogFetchFailed
  | LogEmptyList
  | LogRejected "string list"
  | LogUpdated "string list"
  | LogPersistFailed string
  | LogAdded string
  | LogRemoved string nat

record dstate =
  dw :: world
  dpool :: Pool
  poller :: Poller
  dfs :: fs
  dlog :: "disc_log list"

record disc_net =
  d_NewRequest :: "string \<Rightarrow> string option"
  d_Do :: "Auth \<Rightarrow> string \<Rightarrow> string option \<Rightarrow> (string, int \<times> string) res"
    \<comment> \<open>credentials, URL, \<open>Authorization\<close> header: the status and the body\<close>

datatype fetch_error =
    FRequest string
  | FToken string
  | FDo string
  | FStatus string int
  | FDecode json_error
  | FNoBackends
  | FPanic go_panic


section \<open>Decoding the Endpoints object\<close>

definition dec_address :: "eps_address decoder" where
  "dec_address = dec_struct [(''ip'', \<lambda>a j. map_option (\<lambda>s. a\<lparr>ep_IP := s\<rparr>) (dec_string (ep_IP a) j))]"

definition dec_port :: "eps_port decoder" where
  "dec_port = dec_struct [(''port'', \<lambda>a j. map_option (\<lambda>n. a\<lparr>ep_Port := n\<rparr>) (dec_int (ep_Port a) j))]"

definition dec_subset :: "eps_subset decoder" where
  "dec_subset = dec_struct
     [(''addresses'', \<lambda>s j. map_option (\<lambda>as. s\<lparr>Addresses := as\<rparr>) (dec_slice dec_address \<lparr>ep_IP = []\<rparr> (Addresses s) j)),
      (''ports'', \<lambda>s j. map_option (\<lambda>ps. s\<lparr>Ports := ps\<rparr>) (dec_slice dec_port \<lparr>ep_Port = 0\<rparr> (Ports s) j))]"

definition dec_endpoints :: "endpoints decoder" where
  "dec_endpoints = dec_struct
     [(''subsets'', \<lambda>e j. map_option (\<lambda>ss. e\<lparr>Subsets := ss\<rparr>)
        (dec_slice dec_subset \<lparr>Addresses = [], Ports = []\<rparr> (Subsets e) j))]"


section \<open>Fetching\<close>

definition endpointsPath :: string where
  "endpointsPath = ''/api/v1/namespaces/default/endpoints/kubernetes''"

definition endpoints_url :: "string \<Rightarrow> string" where
  "endpoints_url host = ''https://'' @ host @ endpointsPath"

text \<open>The innermost statement of the three loops, on the set \<open>seen\<close> and the list \<open>addrs\<close>.\<close>

definition add_hp :: "string \<Rightarrow> string set \<times> string list \<Rightarrow> string set \<times> string list" where
  "add_hp hp st = (let (seen, addrs) = st in if hp \<in> seen then st else (insert hp seen, addrs @ [hp]))"

definition collect_addrs :: "eps_subset list \<Rightarrow> string list" where
  "collect_addrs subsets =
     snd (fold (\<lambda>subset.
       fold (\<lambda>a. fold (\<lambda>port. add_hp (JoinHostPort (ep_IP a) (Itoa (ep_Port port)))) (Ports subset))
         (Addresses subset)) subsets ({}, []))"

definition fetchFrom :: "kube_env \<Rightarrow> disc_net \<Rightarrow> Auth \<Rightarrow> string \<Rightarrow> (fetch_error, string list) res" where
  "fetchFrom env net auth host =
     (let url = endpoints_url host in
      case d_NewRequest net url of
        Some e \<Rightarrow> Inl (FRequest e)
      | None \<Rightarrow>
          res_bind
            (case BearerTokenF auth of
               None \<Rightarrow> Inr None
             | Some src \<Rightarrow>
                 (case BearerToken env src of
                    Inl e \<Rightarrow> Inl (FToken e)
                  | Inr token \<Rightarrow> Inr (Some (''Bearer '' @ token))))
            (\<lambda>header.
               case d_Do net auth url header of
                 Inl e \<Rightarrow> Inl (FDo e)
               | Inr (status, body) \<Rightarrow>
                   if status \<noteq> 200 then Inl (FStatus host status)
                   else
                     (case Decode dec_endpoints \<lparr>Subsets = []\<rparr> body of
                        Inl e \<Rightarrow> Inl (FDecode e)
                      | Inr eps \<Rightarrow> Inr (sort (collect_addrs (Subsets eps))))))"

text \<open>The loop of \<open>fetch\<close> over the candidates' addresses; \<open>lastErr\<close> is its state.\<close>

fun fetch_loop :: "(string \<Rightarrow> (fetch_error, string list) res) \<Rightarrow> fetch_error option \<Rightarrow> string list \<Rightarrow> (fetch_error, string list) res" where
  "fetch_loop from lastErr [] = (case lastErr of Some e \<Rightarrow> Inl e | None \<Rightarrow> Inl FNoBackends)"
| "fetch_loop from lastErr (a # as) =
     (case from a of Inr addrs \<Rightarrow> Inr addrs | Inl e \<Rightarrow> fetch_loop from (Some e) as)"

definition fetch :: "kube_env \<Rightarrow> disc_net \<Rightarrow> Auth \<Rightarrow> world \<Rightarrow> Pool \<Rightarrow> Pool \<times> (fetch_error, string list) res" where
  "fetch env net auth w pool =
     (case Candidates w pool of
        Inl e \<Rightarrow> (pool, Inl (FPanic e))
      | Inr (pool', candidates, _) \<Rightarrow>
          (pool', fetch_loop (fetchFrom env net auth) None (map (\<lambda>b. Addr (bheap w ! b)) candidates)))"


section \<open>Applying\<close>

definition sameAddrs :: "world \<Rightarrow> string list \<Rightarrow> bid list \<Rightarrow> bool" where
  "sameAddrs w addrs bs =
     (if length addrs \<noteq> length bs then False
      else
        let current = (\<lambda>b. Addr (bheap w ! b)) ` set bs
        in list_all (\<lambda>a. a \<in> current) addrs)"

fun drain_removed :: "bid list \<Rightarrow> world \<Rightarrow> world \<times> disc_log list" where
  "drain_removed [] w = (w, [])"
| "drain_removed (b # bs) w =
     (let (w, drained) = DrainAll b w; l = LogRemoved (Addr (bheap w ! b)) drained; (w, ls) = drain_removed bs w
      in (w, l # ls))"

definition persist :: "disc_options \<Rightarrow> io \<Rightarrow> string list \<Rightarrow> fs \<Rightarrow> fs \<times> disc_log list" where
  "persist opts calls addrs f =
     (if StatePath opts \<noteq> [] then
        let (trace, err) = saveState calls (StatePath opts) addrs f
        in (last trace, case err of Some e \<Rightarrow> [LogPersistFailed e] | None \<Rightarrow> [])
      else (f, []))"

definition poll_apply ::
  "(string list \<Rightarrow> ('e, unit) res) \<Rightarrow> disc_options \<Rightarrow> io \<Rightarrow> string list \<Rightarrow> dstate \<Rightarrow> dstate" where
  "poll_apply validate opts calls addrs s =
     (if length addrs = 0 then
        if \<not> loggedEmpty (poller s) then s\<lparr>poller := (poller s)\<lparr>loggedEmpty := True\<rparr>, dlog := dlog s @ [LogEmptyList]\<rparr> else s
      else
        let s = s\<lparr>poller := (poller s)\<lparr>loggedEmpty := False\<rparr>\<rparr> in
        if sameAddrs (dw s) addrs (Backends (dpool s)) then s
        else
          (case validate addrs of
             Inl e \<Rightarrow> s\<lparr>dlog := dlog s @ [LogRejected addrs]\<rparr>
           | Inr _ \<Rightarrow>
               let (w, pool, added, removed) = SetAddrs addrs (dw s) (dpool s);
                   (f, l1) = persist opts calls addrs (dfs s);
                   l2 = map (\<lambda>b. LogAdded (Addr (bheap w ! b))) added;
                   (w, l3) = drain_removed removed w
               in s\<lparr>dw := w, dpool := pool, dfs := f, dlog := dlog s @ [LogUpdated addrs] @ l1 @ l2 @ l3\<rparr>))"

definition pollOnce ::
  "(string list \<Rightarrow> ('e, unit) res) \<Rightarrow> disc_options \<Rightarrow> kube_env \<Rightarrow> disc_net \<Rightarrow> io \<Rightarrow> dstate \<Rightarrow> dstate" where
  "pollOnce validate opts env net calls s0 =
     (let (s, ready) =
        (case p_auth (poller s0) of
           Some a \<Rightarrow> (s0, Some a)
         | None \<Rightarrow>
             (case Load env (KubeconfigPath opts) of
                Inl e \<Rightarrow>
                  (if \<not> loggedWaiting (poller s0)
                   then s0\<lparr>poller := (poller s0)\<lparr>loggedWaiting := True\<rparr>, dlog := dlog s0 @ [LogWaiting e]\<rparr> else s0, None)
              | Inr a \<Rightarrow> (s0\<lparr>poller := (poller s0)\<lparr>p_auth := Some a\<rparr>, dlog := dlog s0 @ [LogActivated]\<rparr>, Some a)))
      in
      case ready of
        None \<Rightarrow> s
      | Some auth \<Rightarrow>
          let (pool, r) = fetch env net auth (dw s) (dpool s); s = s\<lparr>dpool := pool\<rparr> in
          (case r of
             Inl e \<Rightarrow> s\<lparr>dlog := dlog s @ [LogFetchFailed]\<rparr>
           | Inr addrs \<Rightarrow> poll_apply validate opts calls addrs s))"

definition NewPoller :: Poller where
  "NewPoller = \<lparr>p_auth = None, loggedWaiting = False, loggedEmpty = False\<rparr>"


section \<open>Specification\<close>

text \<open>Every address of a subset with every port of it, in the order of the object.\<close>

definition endpoint_hps :: "eps_subset list \<Rightarrow> string list" where
  "endpoint_hps subsets =
     concat (map (\<lambda>s. concat (map (\<lambda>a. map (\<lambda>p. JoinHostPort (ep_IP a) (Itoa (ep_Port p))) (Ports s)) (Addresses s))) subsets)"

definition disc_inv :: "dstate \<Rightarrow> bool" where
  "disc_inv s \<longleftrightarrow> wf_world (dw s) \<and> pool_inv (dw s) (dpool s) \<and> backends (dpool s) \<noteq> []"


text \<open>A cluster whose first server answers with two control plane nodes, and a poller that knows it.\<close>

definition example_body :: string where
  "example_body = map (\<lambda>c. if c = CHR ''~'' then CHR 0x22 else c)
     ''{~subsets~:[{~addresses~:[{~ip~:~::3~},{~ip~:~::2~}],~ports~:[{~port~:6443}]}]}''"

definition example_net :: disc_net where
  "example_net = \<lparr>d_NewRequest = (\<lambda>u. None), d_Do = (\<lambda>auth u h. Inr (200, example_body))\<rparr>"

definition example_auth :: Auth where
  "example_auth = \<lparr>Server = ''https://10.0.0.99:6443'', CAPool = [''pem''], BearerTokenF = Some (TokenInline ''t''),
     GetClientCertificateF = None\<rparr>"

definition example_dstate :: dstate where
  "example_dstate = \<lparr>dw = example_world, dpool = \<lparr>backends = [0, 1], pool_picker = RoundRobin \<lparr>rr_next = 0\<rparr>\<rparr>,
     poller = NewPoller\<lparr>p_auth := Some example_auth\<rparr>, dfs = Map.empty, dlog = []\<rparr>"


section \<open>Lemmas\<close>

lemma fold_concat_lists: "fold f (concat xss) = fold (fold f) xss"
  by (induction xss) auto

lemma collect_addrs_fold: "collect_addrs subsets = snd (fold add_hp (endpoint_hps subsets) ({}, []))"
  unfolding collect_addrs_def endpoint_hps_def
  by (simp add: fold_concat_lists fold_map comp_def)

lemma fold_add_hp:
  "distinct addrs \<Longrightarrow> seen = set addrs \<Longrightarrow>
     (let st = fold add_hp hps (seen, addrs) in fst st = set (snd st) \<and> distinct (snd st) \<and> set (snd st) = set addrs \<union> set hps)"
proof (induction hps arbitrary: seen addrs)
  case (Cons hp hps)
  show ?case
  proof (cases "hp \<in> seen")
    case True
    with Cons show ?thesis by (auto simp: add_hp_def Let_def)
  next
    case False
    with Cons.prems Cons.IH [of "addrs @ [hp]" "insert hp seen"] show ?thesis by (auto simp: add_hp_def Let_def)
  qed
qed simp

lemma collect_addrs_spec: "distinct (collect_addrs subsets) \<and> set (collect_addrs subsets) = set (endpoint_hps subsets)"
  using fold_add_hp [of "[]" "{}" "endpoint_hps subsets"] by (simp add: collect_addrs_fold Let_def)




lemma sameAddrs_iff:
  assumes "pool_inv w p" "distinct addrs"
  shows "sameAddrs w addrs (Backends p) \<longleftrightarrow> set addrs = set (pool_addrs w p)"
proof -
  have d: "distinct (pool_addrs w p)" using assms(1) by (simp add: pool_inv_def)
  have s: "sameAddrs w addrs (Backends p) \<longleftrightarrow> length addrs = length (pool_addrs w p) \<and> set addrs \<subseteq> set (pool_addrs w p)"
    by (auto simp: sameAddrs_def Let_def list_all_iff pool_addrs_def Backends_def)
  show ?thesis
    unfolding s using d assms(2) card_subset_eq [of "set (pool_addrs w p)" "set addrs"]
    by (metis List.finite_set distinct_card subset_refl)
qed

lemma drain_removed_fold: "fst (drain_removed bs w) = fold (\<lambda>p w. fst (DrainAll p w)) bs w"
  by (induction bs arbitrary: w) (auto simp: split_beta Let_def)

lemma drain_fold_others:
  assumes "wf_world w" "set bs \<subseteq> {..<length (bheap w)}" "b < length (bheap w)"
  defines "w' \<equiv> fold (\<lambda>p w. fst (DrainAll p w)) bs w"
  shows "Addr (bheap w' ! b) = Addr (bheap w ! b) \<and> (b \<notin> set bs \<longrightarrow> bheap w' ! b = bheap w ! b) \<and>
    length (bheap w') = length (bheap w)"
  using assms(1-3) unfolding w'_def
proof (induction bs arbitrary: w)
  case (Cons p bs)
  let ?w = "fst (DrainAll p w)"
  have p: "p < length (bheap w)" using Cons.prems by simp
  have "length (bheap ?w) = length (bheap w)" using p Cons.prems(1) by simp
  with Cons.IH [of ?w] Cons.prems p wf_DrainAll [OF Cons.prems(1) p] DrainAll_bheap [OF Cons.prems(1) p Cons.prems(3)]
  show ?case by (auto simp: Addr_def add_Drained_def split: if_splits)
qed simp

text \<open>What an applied list does, given that the vetting only accepts lists without repetition.\<close>

lemma apply_update:
  fixes opts :: disc_options and calls :: io
  assumes inv: "disc_inv s" and new: "addrs \<noteq> []" "distinct addrs" "\<not> sameAddrs (dw s) addrs (Backends (dpool s))"
    and v: "validate addrs = Inr u"
  defines "s' \<equiv> poll_apply validate opts calls addrs s"
  shows "disc_inv s' \<and> pool_addrs (dw s') (dpool s') = addrs \<and> dfs s' = fst (persist opts calls addrs (dfs s)) \<and>
    (\<forall>b \<in> set (backends (dpool s)).
       if Addr (bheap (dw s) ! b) \<in> set addrs then b \<in> set (backends (dpool s')) \<and> bheap (dw s') ! b = bheap (dw s) ! b
       else b \<notin> set (backends (dpool s')) \<and> ActiveConns (bheap (dw s') ! b) = 0)"
proof -
  have wf: "wf_world (dw s)" and pool: "pool_inv (dw s) (dpool s)" using inv by (simp_all add: disc_inv_def)
  obtain w1 p1 ad rm where set: "SetAddrs addrs (dw s) (dpool s) = (w1, p1, ad, rm)" by (metis prod_cases4)
  note spec = SetAddrs_spec [OF pool new(2) set]
  define w2 where "w2 = fold (\<lambda>p w. fst (DrainAll p w)) rm w1"
  obtain f l1 where pr: "persist opts calls addrs (dfs s) = (f, l1)" by (metis prod.exhaust)
  obtain w3 l3 where dr: "drain_removed rm w1 = (w3, l3)" by (metis prod.exhaust)
  have w3: "w3 = w2" using drain_removed_fold [of rm w1] by (simp add: dr w2_def)
  have s': "dw s' = w2" "dpool s' = p1" "dfs s' = fst (persist opts calls addrs (dfs s))"
    using new v by (simp_all add: s'_def poll_apply_def set pr dr w3)
  have wf1: "wf_world w1" using wf_alloc [OF wf] spec(1) by simp
  have len: "length (bheap (dw s)) \<le> length (bheap w1)" using spec(1) by simp
  have old: "b < length (bheap (dw s))" if "b \<in> set (backends (dpool s))" for b
    using that pool by (auto simp: pool_inv_def)
  have rm: "set rm \<subseteq> {..<length (bheap w1)}" using spec(5) old len by (auto dest: old)
  note others = drain_fold_others [OF wf1 rm, folded w2_def]
  have each: "wf_world w2 \<and> (\<forall>q < length (bheap w1). set (conns (bheap w2 ! q)) = (if q \<in> set rm then {} else set (conns (bheap w1 ! q))))"
  proof -
    from rm have "\<forall>p \<in> set rm. p < length (bheap w1)" by auto
    from reg.drain_each [OF wf1 this] show ?thesis unfolding w2_def by blast
  qed
  have inv1: "pool_inv w1 p1" by (rule SetAddrs_inv [OF pool new(2) set])
  then have valid1: "set (backends p1) \<subseteq> {..<length (bheap w1)}" by (simp add: pool_inv_def)
  have addrs2: "pool_addrs w2 p1 = addrs"
  proof -
    have "map (\<lambda>b. Addr (bheap w2 ! b)) (backends p1) = map (\<lambda>b. Addr (bheap w1 ! b)) (backends p1)"
      using others valid1 by (intro map_cong) auto
    with spec(2) show ?thesis by (simp add: pool_addrs_def)
  qed
  have len2: "length (bheap w2) = length (bheap w1)"
  proof -
    obtain b where "b < length (bheap w1)" using spec(2) new(1) valid1 by (cases "backends p1") (auto simp: pool_addrs_def)
    with others show ?thesis by blast
  qed
  have "backends p1 \<noteq> []" using addrs2 new(1) by (auto simp: pool_addrs_def)
  with each addrs2 len2 valid1 new(2) have "disc_inv s'" by (simp add: disc_inv_def s' pool_inv_def)
  moreover have "if Addr (bheap (dw s) ! b) \<in> set addrs then b \<in> set (backends p1) \<and> bheap w2 ! b = bheap (dw s) ! b
       else b \<notin> set (backends p1) \<and> ActiveConns (bheap w2 ! b) = 0" if b: "b \<in> set (backends (dpool s))" for b
  proof -
    have lt: "b < length (bheap w1)" "b < length (bheap (dw s))" using old [OF b] len by auto
    have same: "bheap w1 ! b = bheap (dw s) ! b" using spec(1) lt(2) by (simp add: nth_append)
    have "b \<in> set rm \<longleftrightarrow> Addr (bheap (dw s) ! b) \<notin> set addrs" using b by (simp add: spec(5))
    moreover have "b \<in> set (backends p1) \<longleftrightarrow> Addr (bheap (dw s) ! b) \<in> set addrs" using b lt(2) by (simp add: spec(3))
    moreover have "conns (bheap w2 ! b) = []" if "b \<in> set rm"
      using each lt(1) that by (metis set_empty)
    ultimately show ?thesis using same others [OF lt(1)] by (simp add: ActiveConns_def)
  qed
  ultimately show ?thesis using addrs2 by (simp add: s')
qed

lemma poll_apply_kept:
  assumes "addrs = [] \<or> sameAddrs (dw s) addrs (Backends (dpool s)) \<or> \<not> is_ok (validate addrs)"
  shows "dw (poll_apply validate opts calls addrs s) = dw s \<and> dpool (poll_apply validate opts calls addrs s) = dpool s \<and>
    dfs (poll_apply validate opts calls addrs s) = dfs s"
  using assms by (auto simp: poll_apply_def Let_def split: sum.splits)


section \<open>The vetting interface\<close>

text \<open>
  What the poller relies on when it hands a list to \<open>Options.Validate\<close>: an accepted list has no
  repetition, so that \<open>SetAddrs\<close> keeps one backend per address.
\<close>

locale server_vetting =
  fixes validate :: "string list \<Rightarrow> ('e, unit) res"
  assumes vet_distinct: "validate ss = Inr u \<Longrightarrow> distinct ss"
begin

lemma apply_keeps_inv:
  assumes "disc_inv s"
  shows "disc_inv (poll_apply validate opts calls addrs s)"
proof (cases "addrs = [] \<or> sameAddrs (dw s) addrs (Backends (dpool s)) \<or> \<not> is_ok (validate addrs)")
  case True
  with assms poll_apply_kept [of addrs s validate opts calls] show ?thesis by (simp add: disc_inv_def)
next
  case False
  then obtain u where "validate addrs = Inr u" by (auto simp: is_ok_iff)
  with False vet_distinct apply_update [OF assms] show ?thesis by blast
qed

text \<open>Rounds with whatever the kubeconfig, the network and the disk answer.\<close>

lemma rounds_keep_inv:
  assumes "disc_inv s" "\<And>r s. r \<in> set rs \<Longrightarrow> \<exists>addrs opts calls pk l po. r s = poll_apply validate opts calls addrs
      (s\<lparr>dpool := (dpool s)\<lparr>pool_picker := pk\<rparr>, dlog := l, poller := po\<rparr>)"
  shows "disc_inv (fold (\<lambda>r. r) rs s)"
  using assms
proof (induction rs arbitrary: s)
  case (Cons r rs)
  from Cons.prems(2) [of r s] obtain addrs opts calls pk l po where
    r: "r s = poll_apply validate opts calls addrs (s\<lparr>dpool := (dpool s)\<lparr>pool_picker := pk\<rparr>, dlog := l, poller := po\<rparr>)"
    by auto
  have "disc_inv (s\<lparr>dpool := (dpool s)\<lparr>pool_picker := pk\<rparr>, dlog := l, poller := po\<rparr>)"
    using Cons.prems(1) by (simp add: disc_inv_def pool_inv_def pool_addrs_def)
  from apply_keeps_inv [OF this] Cons show ?case by (simp add: r)
qed simp

end

interpretation vet: server_vetting "\<lambda>ss. ValidateServers ss listen lookup" for listen lookup
  by unfold_locales (auto simp: ValidateServers_Inr_iff servers_ok_def)

lemma saved_by_persist:
  "fst (persist opts calls addrs f) = (if StatePath opts = [] then f else last (fst (saveState calls (StatePath opts) addrs f)))"
  by (simp add: persist_def split_beta)

text \<open>What applying a list amounts to, in terms of sets of addresses.\<close>

lemma apply_outcome:
  assumes inv: "disc_inv s" and s': "s' = poll_apply (\<lambda>ss. ValidateServers ss listen lookup) opts calls addrs s"
  shows "disc_inv s' \<and>
    (if addrs = [] \<or> set addrs = set (pool_addrs (dw s) (dpool s)) \<or> \<not> is_ok (ValidateServers addrs listen lookup)
     then dw s' = dw s \<and> dpool s' = dpool s \<and> dfs s' = dfs s
     else pool_addrs (dw s') (dpool s') = addrs \<and>
       dfs s' = (if StatePath opts = [] then dfs s else last (fst (saveState calls (StatePath opts) addrs (dfs s)))) \<and>
       (\<forall>b \<in> set (backends (dpool s)).
          if Addr (bheap (dw s) ! b) \<in> set addrs then b \<in> set (backends (dpool s')) \<and> bheap (dw s') ! b = bheap (dw s) ! b
          else b \<notin> set (backends (dpool s')) \<and> ActiveConns (bheap (dw s') ! b) = 0))"
proof (cases "addrs = [] \<or> set addrs = set (pool_addrs (dw s) (dpool s)) \<or> \<not> is_ok (ValidateServers addrs listen lookup)")
  case True
  have "sameAddrs (dw s) addrs (Backends (dpool s))"
    if "set addrs = set (pool_addrs (dw s) (dpool s))" "is_ok (ValidateServers addrs listen lookup)"
  proof -
    from that(2) obtain u where "ValidateServers addrs listen lookup = Inr u" by (auto simp: is_ok_iff)
    with that(1) inv vet.vet_distinct show ?thesis by (subst sameAddrs_iff) (auto simp: disc_inv_def)
  qed
  with True have "addrs = [] \<or> sameAddrs (dw s) addrs (Backends (dpool s)) \<or> \<not> is_ok (ValidateServers addrs listen lookup)" by blast
  with True poll_apply_kept [of addrs s "\<lambda>ss. ValidateServers ss listen lookup" opts calls] vet.apply_keeps_inv [OF inv]
  show ?thesis by (simp add: s')
next
  case False
  then obtain u where u: "ValidateServers addrs listen lookup = Inr u" by (auto simp: is_ok_iff)
  note dist = vet.vet_distinct [OF u]
  have ns: "\<not> sameAddrs (dw s) addrs (Backends (dpool s))"
    using False inv sameAddrs_iff [OF _ dist, of "dw s" "dpool s"] by (simp add: disc_inv_def)
  from False apply_update [where validate = "\<lambda>ss. ValidateServers ss listen lookup", OF inv _ dist ns u]
  show ?thesis unfolding if_not_P [OF False] s' saved_by_persist by blast
qed

text \<open>The credentials a round works with: those of an earlier round, or the kubeconfig's.\<close>

definition credentials :: "kube_env \<Rightarrow> disc_options \<Rightarrow> Poller \<Rightarrow> Auth option" where
  "credentials env opts p =
     (case p_auth p of Some a \<Rightarrow> Some a | None \<Rightarrow> (case Load env (KubeconfigPath opts) of Inr a \<Rightarrow> Some a | Inl _ \<Rightarrow> None))"

lemma pollOnce_dormant:
  assumes "credentials env opts (poller s) = None"
  obtains po l where "pollOnce validate opts env net calls s = s\<lparr>poller := po, dlog := l\<rparr>" "p_auth po = None"
proof -
  from assms obtain e where e: "p_auth (poller s) = None" "Load env (KubeconfigPath opts) = Inl e"
    by (auto simp: credentials_def split: option.splits sum.splits)
  show thesis
  proof (cases "loggedWaiting (poller s)")
    case True
    show thesis by (rule that [where po = "poller s" and l = "dlog s"]) (simp_all add: pollOnce_def e True)
  next
    case False
    show thesis
      by (rule that [where po = "(poller s)\<lparr>loggedWaiting := True\<rparr>" and l = "dlog s @ [LogWaiting e]"]) (simp_all add: pollOnce_def e False)
  qed
qed

lemma pollOnce_active:
  assumes "credentials env opts (poller s) = Some auth"
  obtains po l where "p_auth po = Some auth" "pollOnce validate opts env net calls s =
    (case snd (fetch env net auth (dw s) (dpool s)) of
       Inl e \<Rightarrow> s\<lparr>dpool := fst (fetch env net auth (dw s) (dpool s)), poller := po, dlog := l @ [LogFetchFailed]\<rparr>
     | Inr addrs \<Rightarrow> poll_apply validate opts calls addrs
         (s\<lparr>dpool := fst (fetch env net auth (dw s) (dpool s)), poller := po, dlog := l\<rparr>))"
proof -
  have comm: "s\<lparr>poller := po, dlog := l, dpool := p\<rparr> = s\<lparr>dpool := p, poller := po, dlog := l\<rparr>" for po l p
    by (cases s) simp
  show thesis
  proof (cases "p_auth (poller s)")
    case (Some a)
    with assms have "a = auth" by (simp add: credentials_def)
    with Some show thesis
      by (intro that [where po = "poller s" and l = "dlog s"]) (simp_all add: pollOnce_def split_beta Let_def split: sum.split)
  next
    case None
    with assms have "Load env (KubeconfigPath opts) = Inr auth" by (auto simp: credentials_def split: sum.splits)
    with None show thesis
      by (intro that [where po = "(poller s)\<lparr>p_auth := Some auth\<rparr>" and l = "dlog s @ [LogActivated]"])
        (simp_all add: pollOnce_def split_beta Let_def comm split: sum.split)
  qed
qed

lemma p_auth_apply [simp]: "p_auth (poller (poll_apply validate opts calls addrs s)) = p_auth (poller s)"
  by (simp add: poll_apply_def Let_def split_beta split: sum.split)

lemma example_dstate_inv: "disc_inv example_dstate"
  using wf_example_world
  by (simp add: disc_inv_def example_dstate_def pool_inv_def pool_addrs_def example_world_simps Addr_def
      backend_New_def add_ConnTotal_def)

lemma scan_example_body:
  "scan example_body = Inr (JObj [(''subsets'', JArr [JObj [
     (''addresses'', JArr [JObj [(''ip'', JStr ''::3'')], JObj [(''ip'', JStr ''::2'')]]),
     (''ports'', JArr [JObj [(''port'', JNum ''6443'')]])]])], [])"
  by code_simp

lemma dec_example_body:
  "dec_endpoints \<lparr>Subsets = []\<rparr> (JObj [(''subsets'', JArr [JObj [
     (''addresses'', JArr [JObj [(''ip'', JStr ''::3'')], JObj [(''ip'', JStr ''::2'')]]),
     (''ports'', JArr [JObj [(''port'', JNum ''6443'')]])]])]) =
   Some \<lparr>Subsets = [\<lparr>Addresses = [\<lparr>ep_IP = ''::3''\<rparr>, \<lparr>ep_IP = ''::2''\<rparr>], Ports = [\<lparr>ep_Port = 6443\<rparr>]\<rparr>]\<rparr>"
  by code_simp

lemma collect_example:
  "collect_addrs [\<lparr>Addresses = [\<lparr>ep_IP = ''::3''\<rparr>, \<lparr>ep_IP = ''::2''\<rparr>], Ports = [\<lparr>ep_Port = 6443\<rparr>]\<rparr>] =
     [''[::3]:6443'', ''[::2]:6443'']"
proof -
  have "nat_digits 6443 = ''6443''" by (simp add: nat_digits.simps char_of_eq_iff)
  then show ?thesis by (simp add: collect_addrs_def add_hp_def JoinHostPort_def Itoa_def Let_def)
qed

lemma fetch_example:
  "fetchFrom example_kube_env example_net example_auth ''10.0.0.11:6443'' = Inr [''[::2]:6443'', ''[::3]:6443'']"
  by (simp add: fetchFrom_def Let_def BearerToken_def example_net_def example_auth_def Decode_def scan_example_body dec_example_body collect_example)

lemma vet_example:
  "ValidateServers [''10.0.0.12:6443'', ''10.0.0.13:6443''] ''127.0.0.1:6443'' (\<lambda>_. Inl []) = Inr ()"
  by code_simp

lemma differs_example:
  "set [''10.0.0.12:6443'', ''10.0.0.13:6443''] \<noteq> set (pool_addrs (dw example_dstate) (dpool example_dstate))"
  "set [''[::2]:6443'', ''[::3]:6443''] \<noteq> set (pool_addrs (dw example_dstate) (dpool example_dstate))"
  by code_simp+

lemma fetch_round_example:
  "snd (fetch example_kube_env example_net example_auth (dw example_dstate) (dpool example_dstate)) = Inr [''[::2]:6443'', ''[::3]:6443'']"
proof -
  have "map_option (\<lambda>(p, order, d). map (\<lambda>b. Addr (bheap (dw example_dstate) ! b)) order)
      (case Candidates (dw example_dstate) (dpool example_dstate) of Inl _ \<Rightarrow> None | Inr x \<Rightarrow> Some x) =
    Some [''10.0.0.11:6443'', ''10.0.0.12:6443'']"
    by code_simp
  then show ?thesis using fetch_example by (auto simp: fetch_def split: sum.splits)
qed

lemma vet_round_example: "ValidateServers [''[::2]:6443'', ''[::3]:6443''] ''127.0.0.1:6443'' (\<lambda>_. Inl []) = Inr ()"
  by code_simp

lemma not_same_example:
  "\<not> sameAddrs (dw example_dstate) [''10.0.0.12:6443'', ''10.0.0.13:6443''] (Backends (dpool example_dstate))"
  by code_simp


section \<open>Properties\<close>

text \<open>C25: what the poller takes from an Endpoints object is every address combined with every port of
  its subset, each once and in byte order; a response that is not a 200 with a decodable object
  gives an error.\<close>

theorem fetchFrom_addresses:
  assumes "fetchFrom env net auth host = Inr addrs"
  shows "sorted addrs \<and> distinct addrs \<and>
    (\<exists>header body eps. d_Do net auth (endpoints_url host) header = Inr (200, body) \<and>
       Decode dec_endpoints \<lparr>Subsets = []\<rparr> body = Inr eps \<and> set addrs = set (endpoint_hps (Subsets eps)))"
proof -
  from assms obtain header body eps where
    d: "d_Do net auth (endpoints_url host) header = Inr (200, body)" "Decode dec_endpoints \<lparr>Subsets = []\<rparr> body = Inr eps"
    and a: "addrs = sort (collect_addrs (Subsets eps))"
    by (auto simp: fetchFrom_def Let_def res_bind_Inr_iff split: option.splits sum.splits if_splits prod.splits)
  with collect_addrs_spec [of "Subsets eps"] show ?thesis by auto
qed

theorem fetchFrom_addresses_witness:
  "fetchFrom example_kube_env example_net example_auth ''10.0.0.11:6443'' = Inr [''[::2]:6443'', ''[::3]:6443''] \<and>
   sorted [''[::2]:6443'', ''[::3]:6443'']"
  using fetchFrom_addresses [OF fetch_example] fetch_example by blast



text \<open>C4: applying a discovered list is safe: an empty list, a list with the same addresses as the pool and a
  list that fails the validation of \<open>--servers\<close> leave the pool, its connections and the state file alone; any
  other makes the pool exactly that list, saves it, keeps every remaining backend with its health and its
  connections and drains every removed one; and the pool is never left empty.\<close>

theorem apply_safe:
  assumes inv: "disc_inv s" and s'_def: "s' = poll_apply (\<lambda>ss. ValidateServers ss listen lookup) opts calls addrs s"
  shows "disc_inv s' \<and>
    (if addrs = [] \<or> set addrs = set (pool_addrs (dw s) (dpool s)) \<or> \<not> is_ok (ValidateServers addrs listen lookup)
     then dw s' = dw s \<and> dpool s' = dpool s \<and> dfs s' = dfs s
     else pool_addrs (dw s') (dpool s') = addrs \<and>
       dfs s' = (if StatePath opts = [] then dfs s else last (fst (saveState calls (StatePath opts) addrs (dfs s)))) \<and>
       (\<forall>b \<in> set (backends (dpool s)).
          if Addr (bheap (dw s) ! b) \<in> set addrs then b \<in> set (backends (dpool s')) \<and> bheap (dw s') ! b = bheap (dw s) ! b
          else b \<notin> set (backends (dpool s')) \<and> ActiveConns (bheap (dw s') ! b) = 0))"
  by (rule apply_outcome [OF assms])

theorem apply_safe_witness:
  "pool_addrs (dw (poll_apply (\<lambda>ss. ValidateServers ss ''127.0.0.1:6443'' (\<lambda>_. Inl [])) \<lparr>KubeconfigPath = [], StatePath = []\<rparr> io_ok
      [''10.0.0.12:6443'', ''10.0.0.13:6443''] example_dstate))
    (dpool (poll_apply (\<lambda>ss. ValidateServers ss ''127.0.0.1:6443'' (\<lambda>_. Inl [])) \<lparr>KubeconfigPath = [], StatePath = []\<rparr> io_ok
      [''10.0.0.12:6443'', ''10.0.0.13:6443''] example_dstate)) = [''10.0.0.12:6443'', ''10.0.0.13:6443'']"
  using apply_safe [OF example_dstate_inv refl, of "''127.0.0.1:6443''" "\<lambda>_. Inl []" "\<lparr>KubeconfigPath = [], StatePath = []\<rparr>" io_ok
      "[''10.0.0.12:6443'', ''10.0.0.13:6443'']"] vet_example differs_example(1)
  by simp

text \<open>C24: what a round of discovery does. Without usable credentials nothing changes and the next round tries
  again. With them the candidates of the pool are asked; when none answers, backends and state file stay.
  When one answers with a list, an empty or invalid one changes nothing, and otherwise the pool ends up with
  exactly the addresses of the list: untouched if it had them already, replaced by the list in its order and
  saved if not.\<close>

theorem pollOnce_converges:
  assumes inv: "disc_inv s" and small: "length (backends (dpool s)) < 2 ^ 63"
    and s': "s' = pollOnce (\<lambda>ss. ValidateServers ss listen lookup) opts env net calls s"
  shows "disc_inv s' \<and> p_auth (poller s') = credentials env opts (poller s) \<and>
    (case credentials env opts (poller s) of
       None \<Rightarrow> dw s' = dw s \<and> dpool s' = dpool s \<and> dfs s' = dfs s
     | Some auth \<Rightarrow>
         (case snd (fetch env net auth (dw s) (dpool s)) of
            Inl e \<Rightarrow> dw s' = dw s \<and> backends (dpool s') = backends (dpool s) \<and> dfs s' = dfs s
          | Inr addrs \<Rightarrow>
              if addrs = [] \<or> set addrs = set (pool_addrs (dw s) (dpool s)) \<or> \<not> is_ok (ValidateServers addrs listen lookup)
              then dw s' = dw s \<and> backends (dpool s') = backends (dpool s) \<and> dfs s' = dfs s
              else pool_addrs (dw s') (dpool s') = addrs \<and>
                dfs s' = (if StatePath opts = [] then dfs s else last (fst (saveState calls (StatePath opts) addrs (dfs s))))))"
proof (cases "credentials env opts (poller s)")
  case None
  from pollOnce_dormant [OF None] obtain po l where "s' = s\<lparr>poller := po, dlog := l\<rparr>" "p_auth po = None" unfolding s' by blast
  with None inv show ?thesis by (simp add: disc_inv_def)
next
  case (Some auth)
  let ?v = "\<lambda>ss. ValidateServers ss listen lookup" and ?f = "fetch env net auth (dw s) (dpool s)"
  obtain pk where pk: "fst ?f = (dpool s)\<lparr>pool_picker := pk\<rparr>"
    by (rule Candidates_cases [OF small, of "dw s"]) (simp add: fetch_def)
  from pollOnce_active [OF Some] obtain po l where po: "p_auth po = Some auth" and e: "s' = (case snd ?f of
      Inl e \<Rightarrow> s\<lparr>dpool := fst ?f, poller := po, dlog := l @ [LogFetchFailed]\<rparr>
    | Inr addrs \<Rightarrow> poll_apply ?v opts calls addrs (s\<lparr>dpool := fst ?f, poller := po, dlog := l\<rparr>))"
    unfolding s' by blast
  let ?s = "s\<lparr>dpool := (dpool s)\<lparr>pool_picker := pk\<rparr>, poller := po, dlog := l\<rparr>"
  have inv1: "disc_inv ?s" and same: "pool_addrs (dw ?s) (dpool ?s) = pool_addrs (dw s) (dpool s)"
    using inv by (simp_all add: disc_inv_def pool_inv_def pool_addrs_def)
  show ?thesis
  proof (cases "snd ?f")
    case (Inl err)
    with Some e pk po inv1 show ?thesis by (simp add: disc_inv_def)
  next
    case (Inr addrs)
    with e pk have e': "s' = poll_apply ?v opts calls addrs ?s" by simp
    from apply_outcome [OF inv1 e'] same Some Inr po show ?thesis by (auto simp: e' split: if_splits)
  qed
qed

theorem pollOnce_converges_witness:
  "pool_addrs (dw (pollOnce (\<lambda>ss. ValidateServers ss ''127.0.0.1:6443'' (\<lambda>_. Inl [])) \<lparr>KubeconfigPath = [], StatePath = []\<rparr>
       example_kube_env example_net io_ok example_dstate))
     (dpool (pollOnce (\<lambda>ss. ValidateServers ss ''127.0.0.1:6443'' (\<lambda>_. Inl [])) \<lparr>KubeconfigPath = [], StatePath = []\<rparr>
       example_kube_env example_net io_ok example_dstate)) = [''[::2]:6443'', ''[::3]:6443'']"
  using pollOnce_converges [OF example_dstate_inv _ refl, of "''127.0.0.1:6443''" "\<lambda>_. Inl []"
      "\<lparr>KubeconfigPath = [], StatePath = []\<rparr>" example_kube_env example_net io_ok] fetch_round_example vet_round_example
    differs_example(2)
  by (simp add: credentials_def example_dstate_def NewPoller_def)

end
