(* ===== verification/Pipe.thy ===== *)
theory Pipe
  imports Backend
begin

text \<open>
  \<^verbatim>\<open>src/internal/proxy/proxy.go\<close>, \<open>copyThenCloseWrite\<close>: one direction of a proxied connection.

  A direction reads a chunk of at most 32 KiB from its source, writes it to its destination, and so
  on until the source ends or a call fails, as \<open>io.Copy\<close> does; then it shuts down the write side of
  the destination. Between any two calls another goroutine can run, so each call is an action of
  its own, \<open>dir_exec\<close>; what the network answers is an argument of the action. A call on a connection
  that this process has closed fails. Reading appends to the \<open>received\<close> bytes of the source connection,
  writing to the \<open>sent\<close> bytes of the destination.
\<close>

section \<open>State\<close>

datatype side = ToBackend | ToClient

text \<open>Where a direction stands.\<close>

datatype dir =
    DCopying \<comment> \<open>in \<open>Read\<close>\<close>
  | DWriting string \<comment> \<open>in \<open>Write\<close> with this chunk\<close>
  | DEnded bool \<comment> \<open>\<open>io.Copy\<close> returned; true when it reached the end of the source\<close>
  | DFinished bool \<comment> \<open>the destination has been told\<close>

datatype dir_act =
    DRead string
  | DReadEnd bool \<comment> \<open>end of file, or an error\<close>
  | DWriteOk
  | DWriteFail nat \<comment> \<open>bytes written before the error\<close>
  | DCloseWrite

definition dir_new :: dir where
  "dir_new = DCopying"


section \<open>Operations\<close>

text \<open>The two connections of a direction, for the client connection \<open>c\<close> and the tracked one \<open>tc\<close>.\<close>

definition src_of :: "side \<Rightarrow> sockid \<Rightarrow> tcid \<Rightarrow> world \<Rightarrow> sockid" where
  "src_of sd c tc w = (case sd of ToBackend \<Rightarrow> c | ToClient \<Rightarrow> tc_Conn (theap w ! tc))"

definition dst_of :: "side \<Rightarrow> sockid \<Rightarrow> tcid \<Rightarrow> world \<Rightarrow> sockid" where
  "dst_of sd c tc w = (case sd of ToBackend \<Rightarrow> tc_Conn (theap w ! tc) | ToClient \<Rightarrow> c)"

text \<open>The statement after \<open>io.Copy\<close>. A \<open>*trackedConn\<close> has the method \<open>CloseWrite\<close>, so the first branch
  is taken for it whatever it wraps; the error is ignored.\<close>

definition close_write :: "side \<Rightarrow> sockid \<Rightarrow> tcid \<Rightarrow> world \<Rightarrow> world" where
  "close_write sd c tc w =
     (case sd of
        ToBackend \<Rightarrow> fst (CloseWrite tc w)
      | ToClient \<Rightarrow> if has_CloseWrite (sheap w ! c) then fst (sock_CloseWrite c w) else fst (sock_Close c w))"

definition sock_read :: "sockid \<Rightarrow> string \<Rightarrow> world \<Rightarrow> world" where
  "sock_read x bytes w = w\<lparr>sheap := (sheap w)[x := (sheap w ! x)\<lparr>received := received (sheap w ! x) @ bytes\<rparr>]\<rparr>"

definition sock_write :: "sockid \<Rightarrow> string \<Rightarrow> world \<Rightarrow> world" where
  "sock_write x bytes w = w\<lparr>sheap := (sheap w)[x := (sheap w ! x)\<lparr>sent := sent (sheap w ! x) @ bytes\<rparr>]\<rparr>"

text \<open>One call of \<open>copyThenCloseWrite\<close>, when it can return with the given answer.\<close>

definition dir_exec :: "dir_act \<Rightarrow> side \<Rightarrow> sockid \<Rightarrow> tcid \<Rightarrow> world \<Rightarrow> dir \<Rightarrow> (world \<times> dir) option" where
  "dir_exec a sd c tc w d =
     (let src = src_of sd c tc w; dst = dst_of sd c tc w in
      case (a, d) of
        (DRead chunk, DCopying) \<Rightarrow>
          if chunk \<noteq> [] \<and> length chunk \<le> 32768 \<and> \<not> closed (sheap w ! src)
          then Some (sock_read src chunk w, DWriting chunk) else None
      | (DReadEnd eof, DCopying) \<Rightarrow>
          if eof \<and> closed (sheap w ! src) then None else Some (w, DEnded eof)
      | (DWriteOk, DWriting chunk) \<Rightarrow>
          if closed (sheap w ! dst) \<or> write_closed (sheap w ! dst) then None
          else Some (sock_write dst chunk w, DCopying)
      | (DWriteFail k, DWriting chunk) \<Rightarrow>
          if k < length chunk \<and> (closed (sheap w ! dst) \<or> write_closed (sheap w ! dst) \<longrightarrow> k = 0)
          then Some (sock_write dst (take k chunk) w, DEnded False) else None
      | (DCloseWrite, DEnded eof) \<Rightarrow> Some (close_write sd c tc w, DFinished eof)
      | _ \<Rightarrow> None)"

fun dir_execs :: "dir_act list \<Rightarrow> side \<Rightarrow> sockid \<Rightarrow> tcid \<Rightarrow> world \<Rightarrow> dir \<Rightarrow> (world \<times> dir) option" where
  "dir_execs [] sd c tc w d = Some (w, d)"
| "dir_execs (a # as) sd c tc w d =
     (case dir_exec a sd c tc w d of None \<Rightarrow> None | Some (w', d') \<Rightarrow> dir_execs as sd c tc w' d')"


section \<open>Specification\<close>

definition dir_finished :: "dir \<Rightarrow> bool" where
  "dir_finished d = (case d of DFinished _ \<Rightarrow> True | _ \<Rightarrow> False)"

text \<open>Bytes pass in order and unchanged: nothing is written to the destination that was not read from the
  source, what is missing is the chunk in flight or lost to a write error, and after the end of the source
  nothing is missing.\<close>

definition dir_ok :: "sock \<Rightarrow> sock \<Rightarrow> dir \<Rightarrow> bool" where
  "dir_ok src dst d =
     (case d of
        DCopying \<Rightarrow> sent dst = received src
      | DWriting chunk \<Rightarrow> chunk \<noteq> [] \<and> received src = sent dst @ chunk
      | DEnded eof \<Rightarrow> if eof then sent dst = received src else prefix (sent dst) (received src)
      | DFinished eof \<Rightarrow> if eof then sent dst = received src else prefix (sent dst) (received src))"

text \<open>A source that sends the given chunks and ends, and a destination that takes them.\<close>

definition full_copy :: "string list \<Rightarrow> dir_act list" where
  "full_copy chunks = concat (map (\<lambda>chunk. [DRead chunk, DWriteOk]) chunks) @ [DReadEnd True, DCloseWrite]"


section \<open>Lemmas\<close>

lemma dir_ok_cong: "received src = received src' \<Longrightarrow> sent dst = sent dst' \<Longrightarrow> dir_ok src dst d = dir_ok src' dst' d"
  by (cases d) (simp_all add: dir_ok_def)

lemma dir_ok_prefix: "dir_ok src dst d \<Longrightarrow> prefix (sent dst) (received src)"
  by (auto simp: dir_ok_def split: dir.splits if_splits)

text \<open>What a call does to the connections, and that the bytes stay in step.\<close>

lemma dir_exec_cases:
  assumes "dir_exec a sd c tc w d = Some (w', d')"
  obtains (read) chunk where "w' = sock_read (src_of sd c tc w) chunk w" "d = DCopying" "d' = DWriting chunk" "chunk \<noteq> []"
  | (ended) eof where "w' = w" "d = DCopying" "d' = DEnded eof"
  | (wrote) chunk where "w' = sock_write (dst_of sd c tc w) chunk w" "d = DWriting chunk" "d' = DCopying"
  | (failed) chunk k where "w' = sock_write (dst_of sd c tc w) (take k chunk) w" "d = DWriting chunk" "d' = DEnded False"
  | (told) eof where "w' = close_write sd c tc w" "d = DEnded eof" "d' = DFinished eof"
  using assms by (auto simp: dir_exec_def Let_def split: dir_act.splits dir.splits if_splits)

lemma dir_exec_finished: "dir_exec a sd c tc w d = Some (w', d') \<Longrightarrow> \<not> dir_finished d"
  by (auto simp: dir_exec_def dir_finished_def Let_def split: dir_act.splits dir.splits if_splits)

lemma dir_execs_append:
  "dir_execs (as @ bs) sd c tc w d =
     (case dir_execs as sd c tc w d of None \<Rightarrow> None | Some (w', d') \<Rightarrow> dir_execs bs sd c tc w' d')"
  by (induction "as" arbitrary: w d) (auto split: option.splits)

lemma sock_io_frame [simp]:
  "theap (sock_read x bs w) = theap w" "bheap (sock_read x bs w) = bheap w" "length (sheap (sock_read x bs w)) = length (sheap w)"
  "theap (sock_write x bs w) = theap w" "bheap (sock_write x bs w) = bheap w" "length (sheap (sock_write x bs w)) = length (sheap w)"
  "src_of sd c tc (sock_read x bs w) = src_of sd c tc w" "src_of sd c tc (sock_write x bs w) = src_of sd c tc w"
  "dst_of sd c tc (sock_read x bs w) = dst_of sd c tc w" "dst_of sd c tc (sock_write x bs w) = dst_of sd c tc w"
  by (cases sd; simp add: sock_read_def sock_write_def src_of_def dst_of_def)+

lemma sock_io_nth:
  "sheap (sock_read x bs w) ! y = (if x = y \<and> y < length (sheap w) then (sheap w ! y)\<lparr>received := received (sheap w ! y) @ bs\<rparr> else sheap w ! y)"
  "sheap (sock_write x bs w) ! y = (if x = y \<and> y < length (sheap w) then (sheap w ! y)\<lparr>sent := sent (sheap w ! y) @ bs\<rparr> else sheap w ! y)"
  by (cases "x = y"; cases "y < length (sheap w)"; simp add: sock_read_def sock_write_def list_update_beyond)+

lemma sock_io_fields [simp]:
  "closed (sheap (sock_read x bs w) ! y) = closed (sheap w ! y)" "closed (sheap (sock_write x bs w) ! y) = closed (sheap w ! y)"
  "write_closed (sheap (sock_read x bs w) ! y) = write_closed (sheap w ! y)"
  "write_closed (sheap (sock_write x bs w) ! y) = write_closed (sheap w ! y)"
  "has_CloseWrite (sheap (sock_read x bs w) ! y) = has_CloseWrite (sheap w ! y)"
  "has_CloseWrite (sheap (sock_write x bs w) ! y) = has_CloseWrite (sheap w ! y)"
  "sent (sheap (sock_read x bs w) ! y) = sent (sheap w ! y)" "received (sheap (sock_write x bs w) ! y) = received (sheap w ! y)"
  "received (sheap (sock_read x bs w) ! y) = received (sheap w ! y) @ (if x = y \<and> y < length (sheap w) then bs else [])"
  "sent (sheap (sock_write x bs w) ! y) = sent (sheap w ! y) @ (if x = y \<and> y < length (sheap w) then bs else [])"
  by (simp_all add: sock_io_nth)

text \<open>What a run of a direction leaves alone.\<close>

definition same_but_sent :: "sockid \<Rightarrow> string \<Rightarrow> world \<Rightarrow> world \<Rightarrow> bool" where
  "same_but_sent dst bytes w w' \<longleftrightarrow>
     theap w' = theap w \<and> length (sheap w') = length (sheap w) \<and>
     (\<forall>x. closed (sheap w' ! x) = closed (sheap w ! x) \<and> has_CloseWrite (sheap w' ! x) = has_CloseWrite (sheap w ! x) \<and>
        (x \<noteq> dst \<longrightarrow> write_closed (sheap w' ! x) = write_closed (sheap w ! x)) \<and>
        sent (sheap w' ! x) = sent (sheap w ! x) @ (if x = dst then bytes else []))"

lemma same_but_sent_refl: "same_but_sent dst [] w w"
  by (simp add: same_but_sent_def)

lemma same_but_sent_trans:
  "same_but_sent dst xs w v \<Longrightarrow> same_but_sent dst ys v u \<Longrightarrow> same_but_sent dst (xs @ ys) w u"
  by (simp add: same_but_sent_def)

lemma same_but_sent_chunk:
  "dst < length (sheap w) \<Longrightarrow> same_but_sent dst chunk w (sock_write dst chunk (sock_read src chunk w))"
  by (simp add: same_but_sent_def)

lemma same_but_sent_ends:
  "same_but_sent dst bytes w w' \<Longrightarrow> src_of sd c tc w' = src_of sd c tc w \<and> dst_of sd c tc w' = dst_of sd c tc w"
  by (cases sd) (simp_all add: same_but_sent_def src_of_def dst_of_def)

lemma sock_CloseWrite_nth:
  "sheap (fst (sock_CloseWrite x w)) ! y =
     (if x = y \<and> y < length (sheap w) \<and> has_CloseWrite (sheap w ! y) \<and> \<not> closed (sheap w ! y)
      then (sheap w ! y)\<lparr>write_closed := True\<rparr> else sheap w ! y)"
  by (cases "x = y"; cases "y < length (sheap w)"; simp add: sock_CloseWrite_def list_update_beyond)

lemma close_write_eq:
  "has_CloseWrite (sheap w ! dst_of sd c tc w) \<Longrightarrow> close_write sd c tc w = fst (sock_CloseWrite (dst_of sd c tc w) w)"
  by (cases sd) (simp_all add: close_write_def CloseWrite_def dst_of_def)

lemma close_write_nth:
  assumes "has_CloseWrite (sheap w ! c)"
  shows "sheap (close_write sd c tc w) ! x =
     (if x = dst_of sd c tc w \<and> x < length (sheap w) \<and> has_CloseWrite (sheap w ! x) \<and> \<not> closed (sheap w ! x)
      then (sheap w ! x)\<lparr>write_closed := True\<rparr> else sheap w ! x)"
  using assms by (cases sd) (auto simp: close_write_def CloseWrite_def dst_of_def sock_CloseWrite_nth)

lemma close_write_frame [simp]:
  "theap (close_write sd c tc w) = theap w" "length (sheap (close_write sd c tc w)) = length (sheap w)"
  by (simp_all add: close_write_def CloseWrite_def sock_CloseWrite_def sock_Close_def split: side.splits)

lemma close_write_effect:
  assumes "dst_of sd c tc w < length (sheap w)" "has_CloseWrite (sheap w ! dst_of sd c tc w)" "\<not> closed (sheap w ! dst_of sd c tc w)"
  shows "same_but_sent (dst_of sd c tc w) [] w (close_write sd c tc w)" "write_closed (sheap (close_write sd c tc w) ! dst_of sd c tc w)"
  using assms close_write_frame [of sd c tc w]
  by (simp_all add: same_but_sent_def close_write_eq sock_CloseWrite_nth del: close_write_frame)

lemma full_copy_runs:
  assumes "\<forall>chunk \<in> set chunks. chunk \<noteq> [] \<and> length chunk \<le> 32768" and "dst_of sd c tc w < length (sheap w)"
    and "\<not> closed (sheap w ! src_of sd c tc w)" "\<not> closed (sheap w ! dst_of sd c tc w)"
    and "\<not> write_closed (sheap w ! dst_of sd c tc w)"
  shows "\<exists>w'. dir_execs (concat (map (\<lambda>chunk. [DRead chunk, DWriteOk]) chunks)) sd c tc w DCopying = Some (w', DCopying) \<and>
    same_but_sent (dst_of sd c tc w) (concat chunks) w w'"
  using assms
proof (induction chunks arbitrary: w)
  case Nil
  then show ?case by (simp add: same_but_sent_refl)
next
  case (Cons chunk chunks)
  let ?w = "sock_write (dst_of sd c tc w) chunk (sock_read (src_of sd c tc w) chunk w)"
  have run: "dir_execs [DRead chunk, DWriteOk] sd c tc w DCopying = Some (?w, DCopying)"
    using Cons.prems by (simp add: dir_exec_def Let_def)
  have one: "same_but_sent (dst_of sd c tc w) chunk w ?w" by (rule same_but_sent_chunk [OF Cons.prems(2)])
  have "\<exists>w'. dir_execs (concat (map (\<lambda>chunk. [DRead chunk, DWriteOk]) chunks)) sd c tc ?w DCopying = Some (w', DCopying) \<and>
    same_but_sent (dst_of sd c tc ?w) (concat chunks) ?w w'"
    using Cons.prems by (intro Cons.IH) simp_all
  then obtain w' where "dir_execs (concat (map (\<lambda>chunk. [DRead chunk, DWriteOk]) chunks)) sd c tc ?w DCopying = Some (w', DCopying)"
    "same_but_sent (dst_of sd c tc w) (concat chunks) ?w w'" by (metis one same_but_sent_ends)
  with same_but_sent_trans [OF one] run show ?case
    unfolding list.map concat.simps dir_execs_append by auto
qed

lemma full_copy_effect:
  assumes "\<forall>chunk \<in> set chunks. chunk \<noteq> [] \<and> length chunk \<le> 32768"
    and "dst_of sd c tc w < length (sheap w)" and "has_CloseWrite (sheap w ! dst_of sd c tc w)"
    and "\<not> closed (sheap w ! src_of sd c tc w)" "\<not> closed (sheap w ! dst_of sd c tc w)"
    and "\<not> write_closed (sheap w ! dst_of sd c tc w)"
  shows "\<exists>w'. dir_execs (full_copy chunks) sd c tc w DCopying = Some (w', DFinished True) \<and>
    same_but_sent (dst_of sd c tc w) (concat chunks) w w' \<and> write_closed (sheap w' ! dst_of sd c tc w)"
proof -
  obtain v where v: "dir_execs (concat (map (\<lambda>chunk. [DRead chunk, DWriteOk]) chunks)) sd c tc w DCopying = Some (v, DCopying)"
    and same: "same_but_sent (dst_of sd c tc w) (concat chunks) w v"
    using full_copy_runs [OF assms(1,2,4-6)] by blast
  have ends: "src_of sd c tc v = src_of sd c tc w" "dst_of sd c tc v = dst_of sd c tc w"
    using same_but_sent_ends [OF same] by simp_all
  have "dst_of sd c tc v < length (sheap v)" "has_CloseWrite (sheap v ! dst_of sd c tc v)"
    "\<not> closed (sheap v ! dst_of sd c tc v)" "\<not> closed (sheap v ! src_of sd c tc v)"
    using assms same unfolding ends by (simp_all add: same_but_sent_def)
  then have "dir_execs [DReadEnd True, DCloseWrite] sd c tc v DCopying = Some (close_write sd c tc v, DFinished True)"
    and "same_but_sent (dst_of sd c tc w) [] v (close_write sd c tc v)" "write_closed (sheap (close_write sd c tc v) ! dst_of sd c tc w)"
    using close_write_effect [of sd c tc v] by (simp_all add: dir_exec_def Let_def ends)
  with v same_but_sent_trans [OF same, of "[]"] show ?thesis by (auto simp: full_copy_def dir_execs_append)
qed


section \<open>Properties\<close>

text \<open>C32: a direction delivers everything: whatever chunks the source sends before it ends, a destination
  that takes them receives exactly their concatenation, in order, and then the end of the stream.\<close>

theorem copy_delivers:
  assumes "\<forall>chunk \<in> set chunks. chunk \<noteq> [] \<and> length chunk \<le> 32768"
    and "dst_of sd c tc w < length (sheap w)" and "has_CloseWrite (sheap w ! dst_of sd c tc w)"
    and "\<not> closed (sheap w ! src_of sd c tc w)" "\<not> closed (sheap w ! dst_of sd c tc w)"
    and "\<not> write_closed (sheap w ! dst_of sd c tc w)"
  shows "\<exists>w'. dir_execs (full_copy chunks) sd c tc w dir_new = Some (w', DFinished True) \<and>
    sent (sheap w' ! dst_of sd c tc w) = sent (sheap w ! dst_of sd c tc w) @ concat chunks \<and>
    write_closed (sheap w' ! dst_of sd c tc w) \<and> \<not> closed (sheap w' ! dst_of sd c tc w)"
  using full_copy_effect [OF assms] assms(5) by (auto simp: dir_new_def same_but_sent_def)

theorem copy_delivers_witness:
  "\<exists>w'. dir_execs (full_copy [''GET /'', ''healthz'']) ToBackend 1 0 example_world dir_new = Some (w', DFinished True) \<and>
     sent (sheap w' ! 0) = ''GET /healthz'' \<and> write_closed (sheap w' ! 0)"
proof -
  have e: "sheap example_world = replicate 3 new_sock" "theap example_world ! 0 = \<lparr>tc_Conn = 0, tc_backend = 0, tc_once = False\<rparr>"
    by (simp_all add: example_world_simps new_sock_def)
  have dst: "dst_of ToBackend 1 0 example_world = 0" by (simp add: dst_of_def e)
  have "\<exists>w'. dir_execs (full_copy [''GET /'', ''healthz'']) ToBackend 1 0 example_world dir_new = Some (w', DFinished True) \<and>
     sent (sheap w' ! dst_of ToBackend 1 0 example_world) = sent (sheap example_world ! dst_of ToBackend 1 0 example_world) @ concat [''GET /'', ''healthz''] \<and>
     write_closed (sheap w' ! dst_of ToBackend 1 0 example_world) \<and> \<not> closed (sheap w' ! dst_of ToBackend 1 0 example_world)"
    by (rule copy_delivers) (simp_all add: e src_of_def dst_of_def new_sock_def nth_Cons')
  then show ?thesis unfolding dst by (auto simp: e new_sock_def)
qed

end
