(* ===== verification/Proxy.thy ===== *)
theory Proxy
  imports Pool Pipe
begin

text \<open>
  \<^verbatim>\<open>src/internal/proxy/proxy.go\<close>: the server that accepts clients, connects each to the first backend
  that answers and shuts down gracefully.

  \<open>handle_connect\<close> is the part of \<open>handle\<close> up to \<open>Track\<close>, executed without interruption. The whole
  server is the labelled transition function \<open>pexec\<close>: one action per lock, system call or goroutine
  start of \<open>Serve\<close>, \<open>Shutdown\<close>, \<open>handle\<close> and \<open>pipe\<close>, interleaved with each other and with what the
  health checker and discovery do to backends and pool; \<open>Candidates\<close> is one action. A deferred call is
  an action of its own, in the order the deferred calls run. \<open>s.wg\<close> is the counter \<open>wg\<close>, the channel
  \<open>done\<close> the flag \<open>wg_done\<close>. \<open>main\<close> calls \<open>Serve\<close> and \<open>Shutdown\<close> once each. Debug messages are left out.
\<close>

section \<open>State\<close>

record proxy_options =
  ProxyDialTimeout :: int
  ProxyKeepalivePeriod :: int

record Server =
  listener :: bool \<comment> \<open>\<open>s.listener\<close> is set\<close>
  ln_closed :: bool \<comment> \<open>the listener itself was closed\<close>
  clientConns :: "sockid list"
  shuttingDown :: bool
  wg :: nat

text \<open>Where a connection handler stands.\<close>

datatype hpc =
    HAccepted \<comment> \<open>the goroutine was started\<close>
  | HRegistered \<comment> \<open>the client is registered, its keepalive configured\<close>
  | HDialing "bid list" \<comment> \<open>candidates still to try\<close>
  | HConnected bid sockid \<comment> \<open>the dial succeeded\<close>
  | HPiping tcid dir dir \<comment> \<open>in \<open>pipe\<close>: to the backend, to the client\<close>
  | HUnregister \<comment> \<open>first deferred call: \<open>trackClient(c, false)\<close>\<close>
  | HCloseClient \<comment> \<open>second deferred call: \<open>clientConn.Close()\<close>\<close>
  | HReturned \<comment> \<open>before \<open>wg.Done()\<close>\<close>
  | HDone

record handler =
  h_client :: sockid
  h_pc :: hpc

datatype serve_pc = ServeStart | Accepting | Accepted sockid | ServeReturned "string option"

datatype shut_pc =
    ShIdle
  | ShMarked bool \<comment> \<open>\<open>shuttingDown\<close> is set; was there a listener to close?\<close>
  | ShWait \<comment> \<open>in \<open>select\<close>\<close>
  | ShForced nat \<comment> \<open>the grace expired with that many clients left\<close>
  | ShReturned

record pstate =
  pw :: world
  ppool :: Pool
  srv :: Server
  handlers :: "handler list" \<comment> \<open>every handler goroutine ever started\<close>
  serve :: serve_pc
  shut :: shut_pc
  wg_done :: bool
  keepalive :: "sockid \<rightharpoonup> int" \<comment> \<open>the period set on a connection, 0 when switched off\<close>


section \<open>Connecting a client\<close>

definition Server_New :: Server where
  "Server_New = \<lparr>listener = False, ln_closed = False, clientConns = [], shuttingDown = False, wg = 0\<rparr>"

definition trackClient :: "sockid \<Rightarrow> bool \<Rightarrow> Server \<Rightarrow> Server" where
  "trackClient c add sv =
     (if add then sv\<lparr>clientConns := List.insert c (clientConns sv)\<rparr>
      else sv\<lparr>clientConns := removeAll c (clientConns sv)\<rparr>)"

text \<open>The connections of the listener and the dialer are TCP connections, the ones with a write side
  that can be shut down.\<close>

definition configureKeepalive :: "proxy_options \<Rightarrow> sockid \<Rightarrow> world \<Rightarrow> (sockid \<rightharpoonup> int) \<Rightarrow> (sockid \<rightharpoonup> int)" where
  "configureKeepalive opts c w k =
     (if \<not> has_CloseWrite (sheap w ! c) then k
      else if ProxyKeepalivePeriod opts \<le> 0 then k(c \<mapsto> 0)
      else k(c \<mapsto> ProxyKeepalivePeriod opts))"

definition dialed :: "world \<Rightarrow> world \<times> sockid" where
  "dialed w = (w\<lparr>sheap := sheap w @ [new_sock]\<rparr>, length (sheap w))"

definition dial_failed :: "bid \<Rightarrow> world \<Rightarrow> world" where
  "dial_failed b w = upd_backend b add_DialError w"

text \<open>The loop over the candidates; \<open>dial a\<close> tells whether a dial to \<open>a\<close> succeeds.\<close>

fun dial_loop :: "(string \<Rightarrow> bool) \<Rightarrow> bid list \<Rightarrow> world \<Rightarrow> world \<times> (bid \<times> tcid) option" where
  "dial_loop dial [] w = (w, None)"
| "dial_loop dial (b # bs) w =
     (if dial (Addr (bheap w ! b)) then
        let (w, c) = dialed w; (w, tc) = Track b c w in (w, Some (b, tc))
      else dial_loop dial bs (dial_failed b w))"

definition handle_connect ::
  "(string \<Rightarrow> bool) \<Rightarrow> world \<Rightarrow> Pool \<Rightarrow> (go_panic, world \<times> Pool \<times> (bid \<times> tcid) option) res" where
  "handle_connect dial w pool =
     res_bind (Candidates w pool) (\<lambda>(pool, candidates, degraded).
       let (w, r) = dial_loop dial candidates w in Inr (w, pool, r))"


section \<open>The server\<close>

definition set_hpc :: "nat \<Rightarrow> hpc \<Rightarrow> pstate \<Rightarrow> pstate" where
  "set_hpc i pc s = s\<lparr>handlers := (handlers s)[i := (handlers s ! i)\<lparr>h_pc := pc\<rparr>]\<rparr>"

text \<open>The next call of handler \<open>i\<close> where its outcome does not depend on the network. A panic of
  \<open>Candidates\<close> is no step; \<open>Candidates_cases\<close> shows that there is none.\<close>

definition handler_next :: "proxy_options \<Rightarrow> nat \<Rightarrow> pstate \<Rightarrow> pstate option" where
  "handler_next opts i s =
     (let c = h_client (handlers s ! i) in
      case h_pc (handlers s ! i) of
        HAccepted \<Rightarrow>
          Some (set_hpc i HRegistered (s\<lparr>srv := trackClient c True (srv s),
            keepalive := configureKeepalive opts c (pw s) (keepalive s)\<rparr>))
      | HRegistered \<Rightarrow>
          (case Candidates (pw s) (ppool s) of
             Inl _ \<Rightarrow> None
           | Inr (pool, candidates, degraded) \<Rightarrow> Some (set_hpc i (HDialing candidates) (s\<lparr>ppool := pool\<rparr>)))
      | HDialing bs \<Rightarrow> if bs = [] then Some (set_hpc i HUnregister s) else None
      | HConnected b bc \<Rightarrow>
          let (w, tc) = Track b bc (pw s) in
          Some (set_hpc i (HPiping tc dir_new dir_new)
            (s\<lparr>pw := w, keepalive := configureKeepalive opts bc (pw s) (keepalive s)\<rparr>))
      | HPiping tc db dc \<Rightarrow>
          if dir_finished db \<and> dir_finished dc
          then Some (set_hpc i HUnregister (s\<lparr>pw := fst (Close tc (pw s))\<rparr>)) else None
      | HUnregister \<Rightarrow> Some (set_hpc i HCloseClient (s\<lparr>srv := trackClient c False (srv s)\<rparr>))
      | HCloseClient \<Rightarrow> Some (set_hpc i HReturned (s\<lparr>pw := fst (sock_Close c (pw s))\<rparr>))
      | HReturned \<Rightarrow> Some (set_hpc i HDone (s\<lparr>srv := (srv s)\<lparr>wg := wg (srv s) - 1\<rparr>\<rparr>))
      | HDone \<Rightarrow> None)"

definition handler_dial :: "nat \<Rightarrow> bool \<Rightarrow> pstate \<Rightarrow> pstate option" where
  "handler_dial i ok s =
     (case h_pc (handlers s ! i) of
        HDialing (b # bs) \<Rightarrow>
          if ok then let (w, c) = dialed (pw s) in Some (set_hpc i (HConnected b c) (s\<lparr>pw := w\<rparr>))
          else Some (set_hpc i (HDialing bs) (s\<lparr>pw := dial_failed b (pw s)\<rparr>))
      | _ \<Rightarrow> None)"

definition handler_copy :: "nat \<Rightarrow> side \<Rightarrow> dir_act \<Rightarrow> pstate \<Rightarrow> pstate option" where
  "handler_copy i sd a s =
     (let c = h_client (handlers s ! i) in
      case h_pc (handlers s ! i) of
        HPiping tc db dc \<Rightarrow>
          (case dir_exec a sd c tc (pw s) (case sd of ToBackend \<Rightarrow> db | ToClient \<Rightarrow> dc) of
             None \<Rightarrow> None
           | Some (w, d) \<Rightarrow>
               Some (set_hpc i (case sd of ToBackend \<Rightarrow> HPiping tc d dc | ToClient \<Rightarrow> HPiping tc db d) (s\<lparr>pw := w\<rparr>)))
      | _ \<Rightarrow> None)"

text \<open>\<open>Serve\<close>: registering the listener, \<open>Accept\<close> with its two outcomes, starting a handler.\<close>

definition serve_start :: "pstate \<Rightarrow> pstate option" where
  "serve_start s =
     (if serve s \<noteq> ServeStart then None
      else
        let s = s\<lparr>srv := (srv s)\<lparr>listener := True\<rparr>\<rparr> in
        if shuttingDown (srv s) then Some (s\<lparr>srv := (srv s)\<lparr>ln_closed := True\<rparr>, serve := ServeReturned None\<rparr>)
        else Some (s\<lparr>serve := Accepting\<rparr>))"

definition serve_accept :: "pstate \<Rightarrow> pstate option" where
  "serve_accept s =
     (if serve s = Accepting \<and> \<not> ln_closed (srv s)
      then let (w, c) = dialed (pw s) in Some (s\<lparr>pw := w, serve := Accepted c\<rparr>) else None)"

definition serve_error :: "string \<Rightarrow> pstate \<Rightarrow> pstate option" where
  "serve_error e s =
     (if serve s = Accepting
      then Some (s\<lparr>serve := ServeReturned (if shuttingDown (srv s) then None else Some e)\<rparr>) else None)"

definition serve_spawn :: "pstate \<Rightarrow> pstate option" where
  "serve_spawn s =
     (case serve s of
        Accepted c \<Rightarrow> Some (s\<lparr>srv := (srv s)\<lparr>wg := wg (srv s) + 1\<rparr>,
          handlers := handlers s @ [\<lparr>h_client = c, h_pc = HAccepted\<rparr>], serve := Accepting\<rparr>)
      | _ \<Rightarrow> None)"

text \<open>\<open>Shutdown\<close>: mark, close the listener, wait; force-close the clients when the grace is over.\<close>

definition shut_next :: "pstate \<Rightarrow> pstate option" where
  "shut_next s =
     (case shut s of
        ShIdle \<Rightarrow> Some (s\<lparr>srv := (srv s)\<lparr>shuttingDown := True\<rparr>, shut := ShMarked (listener (srv s))\<rparr>)
      | ShMarked l \<Rightarrow> Some (s\<lparr>srv := (srv s)\<lparr>ln_closed := ln_closed (srv s) \<or> l\<rparr>, shut := ShWait\<rparr>)
      | _ \<Rightarrow> None)"

definition waiting :: "pstate \<Rightarrow> bool" where
  "waiting s = (case shut s of ShWait \<Rightarrow> True | ShForced _ \<Rightarrow> True | _ \<Rightarrow> False)"

definition shut_wait_done :: "pstate \<Rightarrow> pstate option" where
  "shut_wait_done s = (if waiting s \<and> wg (srv s) = 0 then Some (s\<lparr>wg_done := True\<rparr>) else None)"

fun close_clients :: "sockid list \<Rightarrow> world \<Rightarrow> world" where
  "close_clients [] w = w"
| "close_clients (c # cs) w = close_clients cs (fst (sock_Close c w))"

definition shut_expire :: "pstate \<Rightarrow> pstate option" where
  "shut_expire s =
     (if shut s = ShWait
      then Some (s\<lparr>pw := close_clients (clientConns (srv s)) (pw s), shut := ShForced (length (clientConns (srv s)))\<rparr>)
      else None)"

definition shut_return :: "pstate \<Rightarrow> pstate option" where
  "shut_return s = (if waiting s \<and> wg_done s then Some (s\<lparr>shut := ShReturned\<rparr>) else None)"

text \<open>What the health checker and discovery do meanwhile. Discovery's lists have passed validation, so
  they have no repetition, and a Go slice has less than \<open>2^63\<close> elements.\<close>

definition env_report :: "bid \<Rightarrow> bool \<Rightarrow> int \<Rightarrow> int \<Rightarrow> pstate \<Rightarrow> pstate option" where
  "env_report b ok fall rise s =
     Some (s\<lparr>pw := upd_backend b (\<lambda>x. fst (ReportHealth ok fall rise x)) (pw s)\<rparr>)"

definition env_drain :: "bid \<Rightarrow> pstate \<Rightarrow> pstate option" where
  "env_drain b s = (if b < length (bheap (pw s)) then Some (s\<lparr>pw := fst (DrainAll b (pw s))\<rparr>) else None)"

definition env_addrs :: "string list \<Rightarrow> pstate \<Rightarrow> pstate option" where
  "env_addrs addrs s =
     (if distinct addrs \<and> length addrs < 2 ^ 63
      then let (w, p, added, removed) = SetAddrs addrs (pw s) (ppool s) in Some (s\<lparr>pw := w, ppool := p\<rparr>)
      else None)"

datatype pact =
    AServe
  | AAccept
  | AAcceptErr string
  | ASpawn
  | AHandler nat
  | ADial nat bool
  | ACopy nat side dir_act
  | AShut
  | AWaitDone
  | AExpire
  | AReturn
  | AReport bid bool int int
  | ADrain bid
  | ASetAddrs "string list"

definition pexec :: "proxy_options \<Rightarrow> pact \<Rightarrow> pstate \<Rightarrow> pstate option" where
  "pexec opts a s =
     (case a of
        AServe \<Rightarrow> serve_start s
      | AAccept \<Rightarrow> serve_accept s
      | AAcceptErr e \<Rightarrow> serve_error e s
      | ASpawn \<Rightarrow> serve_spawn s
      | AHandler i \<Rightarrow> if i < length (handlers s) then handler_next opts i s else None
      | ADial i ok \<Rightarrow> if i < length (handlers s) then handler_dial i ok s else None
      | ACopy i sd d \<Rightarrow> if i < length (handlers s) then handler_copy i sd d s else None
      | AShut \<Rightarrow> shut_next s
      | AWaitDone \<Rightarrow> shut_wait_done s
      | AExpire \<Rightarrow> shut_expire s
      | AReturn \<Rightarrow> shut_return s
      | AReport b ok fall rise \<Rightarrow> env_report b ok fall rise s
      | ADrain b \<Rightarrow> env_drain b s
      | ASetAddrs addrs \<Rightarrow> env_addrs addrs s)"

inductive pstep :: "proxy_options \<Rightarrow> pstate \<Rightarrow> pstate \<Rightarrow> bool" for opts where
  act: "pexec opts a s = Some t \<Longrightarrow> pstep opts s t"

fun pexecs :: "proxy_options \<Rightarrow> pact list \<Rightarrow> pstate \<Rightarrow> pstate option" where
  "pexecs opts [] s = Some s"
| "pexecs opts (a # as) s = (case pexec opts a s of None \<Rightarrow> None | Some t \<Rightarrow> pexecs opts as t)"

text \<open>The state in which \<open>main\<close> starts the server: fresh backends, no connection yet.\<close>

definition pinit :: "backend list \<Rightarrow> Pool \<Rightarrow> pstate" where
  "pinit bs pool = \<lparr>pw = \<lparr>bheap = bs, theap = [], sheap = []\<rparr>, ppool = pool, srv = Server_New, handlers = [],
     serve = ServeStart, shut = ShIdle, wg_done = False, keepalive = Map.empty\<rparr>"


section \<open>Invariants\<close>

definition alive :: "handler \<Rightarrow> bool" where
  "alive h \<longleftrightarrow> h_pc h \<noteq> HDone"

definition pending :: "pstate \<Rightarrow> sockid list" where
  "pending s = (case serve s of Accepted c \<Rightarrow> [c] | _ \<Rightarrow> [])"

text \<open>The connections a running server still has to deal with: one accepted but not yet handed to a
  handler, and those of the handlers that have not ended.\<close>

definition in_flight :: "pstate \<Rightarrow> nat" where
  "in_flight s = length (pending s) + length (filter alive (handlers s))"

text \<open>The counter of the wait group, and what \<open>Shutdown\<close> has achieved at each of its points.\<close>

definition srv_inv :: "pstate \<Rightarrow> bool" where
  "srv_inv s \<longleftrightarrow>
     wg (srv s) = length (filter alive (handlers s)) \<and>
     (serve s \<noteq> ServeStart \<longrightarrow> listener (srv s)) \<and>
     (case shut s of
        ShIdle \<Rightarrow> \<not> wg_done s
      | ShMarked l \<Rightarrow> shuttingDown (srv s) \<and> \<not> wg_done s \<and> (l \<or> \<not> listener (srv s) \<or> ln_closed (srv s))
      | _ \<Rightarrow> shuttingDown (srv s) \<and> (\<not> listener (srv s) \<or> ln_closed (srv s))) \<and>
     (shut s = ShReturned \<longrightarrow> wg_done s) \<and>
     (wg_done s \<longrightarrow> in_flight s \<le> 1)"


section \<open>The wait group and shutdown\<close>

lemma length_filter_update:
  "i < length xs \<Longrightarrow> length (filter P (xs[i := x])) + (if P (xs ! i) then 1 else 0) =
     length (filter P xs) + (if P x then 1 else 0)"
proof (induction xs arbitrary: i)
  case (Cons y xs)
  then show ?case by (cases i) auto
qed simp

lemma set_hpc_simps [simp]:
  "pw (set_hpc i pc s) = pw s" "ppool (set_hpc i pc s) = ppool s" "srv (set_hpc i pc s) = srv s"
  "serve (set_hpc i pc s) = serve s" "shut (set_hpc i pc s) = shut s" "wg_done (set_hpc i pc s) = wg_done s"
  "keepalive (set_hpc i pc s) = keepalive s" "length (handlers (set_hpc i pc s)) = length (handlers s)"
  by (simp_all add: set_hpc_def)

lemma alive_set_hpc:
  assumes "i < length (handlers s)" "h_pc (handlers s ! i) \<noteq> HDone"
  shows "length (filter alive (handlers (set_hpc i pc s))) =
    (if pc = HDone then length (filter alive (handlers s)) - 1 else length (filter alive (handlers s)))"
  using assms length_filter_update [of i "handlers s" alive "(handlers s ! i)\<lparr>h_pc := pc\<rparr>"]
  by (auto simp: set_hpc_def alive_def)

lemma srv_inv_cong:
  assumes "srv_inv s" "length (filter alive (handlers t)) = length (filter alive (handlers s))"
    and "wg (srv t) = wg (srv s)" "listener (srv t) = listener (srv s)" "ln_closed (srv t) = ln_closed (srv s)"
    and "shuttingDown (srv t) = shuttingDown (srv s)" "serve t = serve s" "shut t = shut s" "wg_done t = wg_done s"
  shows "srv_inv t"
  using assms by (cases "shut s") (simp_all add: srv_inv_def in_flight_def pending_def)

lemma trackClient_simps [simp]:
  "wg (trackClient c add sv) = wg sv" "listener (trackClient c add sv) = listener sv"
  "ln_closed (trackClient c add sv) = ln_closed sv" "shuttingDown (trackClient c add sv) = shuttingDown sv"
  by (simp_all add: trackClient_def)

lemma srv_inv_handler:
  assumes "srv_inv s" "i < length (handlers s)" "handler_next opts i s = Some t"
  shows "srv_inv t"
proof (cases "h_pc (handlers s ! i) = HReturned")
  case True
  then have t: "t = set_hpc i HDone (s\<lparr>srv := (srv s)\<lparr>wg := wg (srv s) - 1\<rparr>\<rparr>)"
    using assms(3) by (simp add: handler_next_def)
  have "length (filter alive (handlers t)) = length (filter alive (handlers s)) - 1"
    using alive_set_hpc [of i s HDone] assms(2) True by (simp add: t set_hpc_def)
  with assms(1) show ?thesis
    by (cases "shut s"; cases "serve s") (auto simp: srv_inv_def t in_flight_def pending_def)
next
  case False
  have "srv_inv (set_hpc i pc u)" if "h_pc (handlers s ! i) \<noteq> HDone" "pc \<noteq> HDone" "handlers u = handlers s"
    "wg (srv u) = wg (srv s)" "listener (srv u) = listener (srv s)" "ln_closed (srv u) = ln_closed (srv s)"
    "shuttingDown (srv u) = shuttingDown (srv s)" "serve u = serve s" "shut u = shut s" "wg_done u = wg_done s" for pc u
    using that assms(2) by (intro srv_inv_cong [OF assms(1)]) (simp_all add: alive_set_hpc)
  with False assms(3) show ?thesis
    by (cases "h_pc (handlers s ! i)") (auto simp: handler_next_def Let_def split_beta split: if_splits sum.splits)
qed

lemma srv_inv_dial:
  assumes "srv_inv s" "i < length (handlers s)" "handler_dial i ok s = Some t"
  shows "srv_inv t"
  using assms
  by (auto simp: handler_dial_def alive_set_hpc split: hpc.splits list.splits if_splits prod.splits
      intro!: srv_inv_cong [OF assms(1)])

lemma srv_inv_copy:
  assumes "srv_inv s" "i < length (handlers s)" "handler_copy i sd a s = Some t"
  shows "srv_inv t"
  using assms
  by (auto simp: handler_copy_def Let_def alive_set_hpc split: hpc.splits option.splits side.splits
      intro!: srv_inv_cong [OF assms(1)])

lemma srv_inv_serve_start:
  assumes "srv_inv s" "serve_start s = Some t"
  shows "srv_inv t"
  using assms
  by (cases "shut s"; cases "serve s")
    (simp_all add: serve_start_def srv_inv_def in_flight_def pending_def Let_def split: if_splits, auto)

lemma srv_inv_accept:
  assumes "srv_inv s" "serve_accept s = Some t"
  shows "srv_inv t"
  using assms
  by (cases "shut s"; cases "serve s")
    (simp_all add: serve_accept_def dialed_def srv_inv_def in_flight_def pending_def Let_def split: if_splits, auto)

lemma srv_inv_accept_error:
  assumes "srv_inv s" "serve_error e s = Some t"
  shows "srv_inv t"
  using assms
  by (cases "shut s"; cases "serve s")
    (simp_all add: serve_error_def srv_inv_def in_flight_def pending_def Let_def split: if_splits, auto)

lemma srv_inv_spawn:
  assumes "srv_inv s" "serve_spawn s = Some t"
  shows "srv_inv t"
  using assms
  by (cases "shut s"; cases "serve s")
    (simp_all add: serve_spawn_def srv_inv_def in_flight_def pending_def Let_def split: if_splits, auto simp: alive_def)

lemma srv_inv_shut_next:
  assumes "srv_inv s" "shut_next s = Some t"
  shows "srv_inv t"
  using assms
  by (cases "shut s"; cases "serve s")
    (simp_all add: shut_next_def srv_inv_def in_flight_def pending_def Let_def split: if_splits, auto)

lemma srv_inv_wait_done:
  assumes "srv_inv s" "shut_wait_done s = Some t"
  shows "srv_inv t"
  using assms
  by (cases "shut s"; cases "serve s")
    (simp_all add: shut_wait_done_def waiting_def srv_inv_def in_flight_def pending_def Let_def split: if_splits, auto)

lemma srv_inv_expire:
  assumes "srv_inv s" "shut_expire s = Some t"
  shows "srv_inv t"
  using assms
  by (cases "shut s"; cases "serve s")
    (simp_all add: shut_expire_def srv_inv_def in_flight_def pending_def Let_def split: if_splits, auto)

lemma srv_inv_return:
  assumes "srv_inv s" "shut_return s = Some t"
  shows "srv_inv t"
  using assms
  by (cases "shut s"; cases "serve s")
    (simp_all add: shut_return_def waiting_def srv_inv_def in_flight_def pending_def Let_def split: if_splits, auto)

lemma srv_inv_env:
  "srv_inv s \<Longrightarrow> env_report b ok fall rise s = Some t \<Longrightarrow> srv_inv t"
  "srv_inv s \<Longrightarrow> env_drain b s = Some t \<Longrightarrow> srv_inv t"
  "srv_inv s \<Longrightarrow> env_addrs addrs s = Some t \<Longrightarrow> srv_inv t"
  by (auto simp: env_report_def env_drain_def env_addrs_def split: if_splits prod.splits intro: srv_inv_cong)

lemmas srv_inv_keeps = srv_inv_handler srv_inv_dial srv_inv_copy srv_inv_serve_start srv_inv_accept
  srv_inv_accept_error srv_inv_spawn srv_inv_shut_next srv_inv_wait_done srv_inv_expire srv_inv_return srv_inv_env

lemma srv_inv_exec:
  assumes "srv_inv s" "pexec opts a s = Some t"
  shows "srv_inv t"
  using assms by (cases a) (auto simp: pexec_def split: if_splits intro: srv_inv_keeps)

interpretation psrv: inductive_invariant "pstep opts" srv_inv for opts
  by unfold_locales (auto elim!: pstep.cases intro: srv_inv_exec)



section \<open>Connecting a client\<close>

lemma dial_failed_simps [simp]:
  "length (bheap (dial_failed b w)) = length (bheap w)" "theap (dial_failed b w) = theap w" "sheap (dial_failed b w) = sheap w"
  "Addr (bheap (dial_failed b w) ! x) = Addr (bheap w ! x)"
  using map_field_list_update [of addr add_DialError "bheap w" b x]
  by (simp_all add: dial_failed_def upd_backend_def Addr_def add_DialError_def)

lemma fold_dial_failed:
  assumes "distinct bs" "set bs \<subseteq> {..<length (bheap w)}"
  shows "theap (fold dial_failed bs w) = theap w \<and> sheap (fold dial_failed bs w) = sheap w \<and>
    length (bheap (fold dial_failed bs w)) = length (bheap w) \<and>
    (\<forall>x < length (bheap w). bheap (fold dial_failed bs w) ! x = (if x \<in> set bs then add_DialError (bheap w ! x) else bheap w ! x))"
  using assms
proof (induction bs arbitrary: w)
  case (Cons b bs)
  with Cons.IH [of "dial_failed b w"] show ?case
    by (auto simp: dial_failed_def upd_backend_def nth_list_update)
qed simp

lemma wf_fold_dial_failed: "wf_world w \<Longrightarrow> wf_world (fold dial_failed bs w)"
proof (induction bs arbitrary: w)
  case (Cons b bs)
  have "wf_world (dial_failed b w)"
    unfolding dial_failed_def by (rule wf_upd_backend [OF Cons.prems]) (simp add: add_DialError_def)
  with Cons.IH show ?case by simp
qed simp

text \<open>The loop passes over the candidates that do not answer and stops at the first that does.\<close>

lemma dial_loop_split:
  "dial_loop dial bs w =
     (let skip = takeWhile (\<lambda>b. \<not> dial (Addr (bheap w ! b))) bs; w1 = fold dial_failed skip w in
      case drop (length skip) bs of
        [] \<Rightarrow> (w1, None)
      | b # _ \<Rightarrow> (fst (Track b (snd (dialed w1)) (fst (dialed w1))), Some (b, snd (Track b (snd (dialed w1)) (fst (dialed w1))))))"
  by (induction bs arbitrary: w) (simp_all add: Let_def split_beta split: list.split)

lemma candidates_distinct:
  assumes inv: "pool_inv w pool" and small: "length (backends pool) < 2 ^ 63"
    and c: "Candidates w pool = Inr (pool', order, degraded)"
  shows "distinct order" "set order \<subseteq> {..<length (bheap w)}"
proof -
  have d: "distinct (backends pool)" using inv by (auto simp: pool_inv_def pool_addrs_def distinct_map)
  from small show "distinct order"
  proof (rule Candidates_cases [of pool w])
    fix pk o' deg
    assume *: "Candidates w pool = Inr (pool\<lparr>pool_picker := pk\<rparr>, o', deg)" "deg \<Longrightarrow> o' = backends pool"
      "\<not> deg \<Longrightarrow> mset o' = mset (filter (\<lambda>b. Healthy (bheap w ! b)) (backends pool))"
    have "o' = order" using *(1) c by simp
    moreover have "distinct (filter (\<lambda>b. Healthy (bheap w ! b)) (backends pool))" using d by simp
    ultimately show "distinct order" using *(2,3) d mset_eq_imp_distinct_iff by (cases deg) blast+
  qed
  from small show "set order \<subseteq> {..<length (bheap w)}"
    by (rule Candidates_cases [of pool w]) (use c inv in \<open>auto simp: pool_inv_def\<close>)
qed


section \<open>Properties\<close>

text \<open>C11: a new client is connected to the first candidate that accepts a dial, in the balancer's order.
  It is turned away only if no candidate accepts; each candidate that was tried in vain counts one
  dial error, the chosen backend counts and tracks the connection, and nothing else changes.\<close>

theorem handle_connects:
  assumes wf: "wf_world w" and inv: "pool_inv w pool" and small: "length (backends pool) < 2 ^ 63"
  shows "\<exists>pool' order degraded w' r pre post.
    Candidates w pool = Inr (pool', order, degraded) \<and> handle_connect dial w pool = Inr (w', pool', r) \<and> wf_world w' \<and>
    order = pre @ post \<and> (\<forall>b \<in> set pre. \<not> dial (Addr (bheap w ! b))) \<and>
    (case post of
       [] \<Rightarrow> r = None \<and> theap w' = theap w
     | b # _ \<Rightarrow> dial (Addr (bheap w ! b)) \<and> r = Some (b, length (theap w)) \<and>
         theap w' = theap w @ [\<lparr>tc_Conn = length (sheap w), tc_backend = b, tc_once = False\<rparr>]) \<and>
    (\<forall>x < length (bheap w). bheap w' ! x =
       (if x \<in> set pre then add_DialError (bheap w ! x)
        else if post \<noteq> [] \<and> x = hd post then (add_ConnTotal (bheap w ! x))\<lparr>conns := conns (bheap w ! x) @ [length (theap w)]\<rparr>
        else bheap w ! x))"
proof -
  from small obtain pool' order degraded where c: "Candidates w pool = Inr (pool', order, degraded)"
    by (rule Candidates_cases [of pool w])
  note o = candidates_distinct [OF inv small c]
  define pre where "pre = takeWhile (\<lambda>b. \<not> dial (Addr (bheap w ! b))) order"
  define post where "post = dropWhile (\<lambda>b. \<not> dial (Addr (bheap w ! b))) order"
  define w1 where "w1 = fold dial_failed pre w"
  have split: "order = pre @ post" "drop (length pre) order = post"
    by (simp_all add: pre_def post_def flip: dropWhile_eq_drop)
  have skip: "\<forall>b \<in> set pre. \<not> dial (Addr (bheap w ! b))" unfolding pre_def by (auto dest: set_takeWhileD)
  have pre: "distinct pre" "set pre \<subseteq> {..<length (bheap w)}" using o split(1) by auto
  note f = fold_dial_failed [OF pre, folded w1_def]
  have wf1: "wf_world w1" unfolding w1_def by (rule wf_fold_dial_failed [OF wf])
  show ?thesis
  proof (cases post)
    case Nil
    have "dial_loop dial order w = (w1, None)"
      unfolding dial_loop_split Let_def pre_def [symmetric] split(2) w1_def [symmetric] by (simp add: Nil)
    with c Nil split skip f wf1 show ?thesis
      by (intro exI [of _ pool'] exI [of _ order] exI [of _ degraded] exI [of _ w1] exI [of _ None] exI [of _ pre] exI [of _ post])
        (simp add: handle_connect_def)
  next
    case (Cons b rest)
    let ?v = "fst (dialed w1)" and ?n = "length (sheap w)"
    have b: "b < length (bheap w)" "b \<notin> set pre" using o split(1) Cons by auto
    have bv: "b < length (bheap ?v)" using b(1) f by (simp add: dialed_def)
    have n: "snd (dialed w1) = ?n" using f by (simp add: dialed_def)
    have tv: "theap ?v = theap w" "bheap ?v = bheap w1" using f by (simp_all add: dialed_def)
    define w' where "w' = fst (Track b ?n ?v)"
    have loop: "dial_loop dial order w = (w', Some (b, length (theap w)))"
      unfolding dial_loop_split Let_def pre_def [symmetric] split(2) w1_def [symmetric]
      by (simp add: Cons n w'_def Track_simps(1) [OF bv] tv)
    have v: "wf_world ?v" "fresh_sock ?v ?n"
    proof -
      show "wf_world ?v" using wf_new_sock [OF wf1] by (simp add: dialed_def)
      have "\<forall>tc < length (theap w). tc_Conn (theap w ! tc) \<noteq> ?n" using wf_tracked(1) [OF wf] less_irrefl by metis
      with f show "fresh_sock ?v ?n" by (simp add: dialed_def fresh_sock_def new_sock_def)
    qed
    have "wf_world w'" unfolding w'_def by (rule wf_Track [OF v(1) bv v(2)])
    moreover have "dial (Addr (bheap w ! b))" using Cons hd_dropWhile [of "\<lambda>b. \<not> dial (Addr (bheap w ! b))" order]
      by (simp add: post_def)
    moreover have "theap w' = theap w @ [\<lparr>tc_Conn = ?n, tc_backend = b, tc_once = False\<rparr>]"
      by (simp add: w'_def Track_simps(3) [OF bv] tv)
    moreover have "bheap w' ! x = (if x \<in> set pre then add_DialError (bheap w ! x)
        else if x = b then (add_ConnTotal (bheap w ! x))\<lparr>conns := conns (bheap w ! x) @ [length (theap w)]\<rparr>
        else bheap w ! x)" if "x < length (bheap w)" for x
      using f b that by (auto simp: w'_def Track_simps(2) [OF bv] tv nth_list_update)
    ultimately show ?thesis
      using c Cons split skip loop
      by (intro exI [of _ pool'] exI [of _ order] exI [of _ degraded] exI [of _ w'] exI [of _ "Some (b, length (theap w))"]
          exI [of _ pre] exI [of _ post]) (simp add: handle_connect_def)
  qed
qed

theorem handle_connects_witness:
  "\<exists>w' pool' r. handle_connect (\<lambda>a. a = ''10.0.0.12:6443'') example_world \<lparr>backends = [0, 1], pool_picker = RoundRobin \<lparr>rr_next = 0\<rparr>\<rparr> =
     Inr (w', pool', r) \<and> wf_world w'"
proof -
  have "pool_inv example_world \<lparr>backends = [0, 1], pool_picker = RoundRobin \<lparr>rr_next = 0\<rparr>\<rparr>"
    by (simp add: pool_inv_def pool_addrs_def example_world_simps Addr_def backend_New_def add_ConnTotal_def)
  from handle_connects [OF wf_example_world this, of "\<lambda>a. a = ''10.0.0.12:6443''"] show ?thesis by auto
qed

end
