(* ===== verification/ProxySockets.thy ===== *)
theory ProxySockets
  imports Proxy
begin

text \<open>
  Who owns which connection of the proxy: every accepted or dialed connection belongs to exactly one
  handler until it is closed, a tracked connection that is not closed belongs to a handler that is
  piping it, the registry of clients is that of the handlers that have registered and not yet
  unregistered, every connection that was ever opened is one of these or was tracked, and the bytes and
  write sides of a piped pair are those of \<open>pipe_ok\<close>. The invariant \<open>sock_inv\<close> holds in every interleaving. The relation \<open>quiet\<close> says what an operation may do to the connections of
  others.
\<close>

section \<open>Ownership\<close>

text \<open>The connections of a handler that no backend tracks, and the tracked one it pipes.\<close>

definition raw_of :: "handler \<Rightarrow> sockid list" where
  "raw_of h = h_client h # (case h_pc h of HConnected b bc \<Rightarrow> [bc] | _ \<Rightarrow> [])"

definition tc_of :: "handler \<Rightarrow> tcid list" where
  "tc_of h = (case h_pc h of HPiping tc db dc \<Rightarrow> [tc] | _ \<Rightarrow> [])"

definition raw_socks :: "pstate \<Rightarrow> sockid list" where
  "raw_socks s = concat (map raw_of (handlers s)) @ pending s"

definition piped :: "pstate \<Rightarrow> tcid list" where
  "piped s = concat (map tc_of (handlers s))"

definition untracked :: "world \<Rightarrow> sockid \<Rightarrow> bool" where
  "untracked w x \<longleftrightarrow> (\<forall>tc < length (theap w). tc_Conn (theap w ! tc) \<noteq> x)"

definition registered_pc :: "hpc \<Rightarrow> bool" where
  "registered_pc pc = (pc \<notin> {HAccepted, HCloseClient, HReturned, HDone})"

text \<open>A connection nobody has used yet.\<close>

definition fresh_conn :: "sock \<Rightarrow> bool" where
  "fresh_conn x \<longleftrightarrow> \<not> write_closed x \<and> has_CloseWrite x \<and> received x = [] \<and> sent x = []"

text \<open>A client and a backend connection piped into each other: what was sent on one was received on the
  other, and a write side is shut down when, and only when, the direction into it has ended.\<close>

definition pipe_ok :: "sock \<Rightarrow> sock \<Rightarrow> dir \<Rightarrow> dir \<Rightarrow> bool" where
  "pipe_ok c b db dc \<longleftrightarrow>
     has_CloseWrite c \<and> has_CloseWrite b \<and> dir_ok c b db \<and> dir_ok b c dc \<and>
     (write_closed b \<longrightarrow> dir_finished db) \<and> (write_closed c \<longrightarrow> dir_finished dc) \<and>
     (dir_finished db \<longrightarrow> write_closed b \<or> closed b) \<and> (dir_finished dc \<longrightarrow> write_closed c \<or> closed c)"

text \<open>What holds of a handler's connections at each point.\<close>

definition handler_ok :: "world \<Rightarrow> handler \<Rightarrow> bool" where
  "handler_ok w h =
     (case h_pc h of
        HAccepted \<Rightarrow> fresh_conn (sheap w ! h_client h)
      | HRegistered \<Rightarrow> fresh_conn (sheap w ! h_client h)
      | HDialing bs \<Rightarrow> fresh_conn (sheap w ! h_client h) \<and> set bs \<subseteq> {..<length (bheap w)}
      | HConnected b bc \<Rightarrow> fresh_conn (sheap w ! h_client h) \<and> b < length (bheap w) \<and>
          \<not> closed (sheap w ! bc) \<and> fresh_conn (sheap w ! bc)
      | HPiping tc db dc \<Rightarrow> tc < length (theap w) \<and> pipe_ok (sheap w ! h_client h) (sheap w ! tc_Conn (theap w ! tc)) db dc
      | HUnregister \<Rightarrow> True
      | HCloseClient \<Rightarrow> True
      | HReturned \<Rightarrow> closed (sheap w ! h_client h)
      | HDone \<Rightarrow> closed (sheap w ! h_client h))"

definition sock_inv :: "pstate \<Rightarrow> bool" where
  "sock_inv s \<longleftrightarrow>
     wf_world (pw s) \<and> pool_inv (pw s) (ppool s) \<and>
     distinct (raw_socks s) \<and> (\<forall>x \<in> set (raw_socks s). x < length (sheap (pw s)) \<and> untracked (pw s) x) \<and>
     (\<forall>x < length (sheap (pw s)). x \<in> set (raw_socks s) \<or> \<not> untracked (pw s) x) \<and>
     (\<forall>x \<in> set (pending s). fresh_conn (sheap (pw s) ! x)) \<and>
     (\<forall>h \<in> set (handlers s). handler_ok (pw s) h) \<and>
     distinct (piped s) \<and>
     (\<forall>tc < length (theap (pw s)). \<not> tc_once (theap (pw s) ! tc) \<longrightarrow> tc \<in> set (piped s)) \<and>
     distinct (clientConns (srv s)) \<and>
     set (clientConns (srv s)) = h_client ` {h \<in> set (handlers s). registered_pc (h_pc h)}"

text \<open>An operation that leaves every connection open but possibly those of \<open>C\<close>, the bytes and the
  write side of every connection but possibly those of \<open>W\<close>, and everything else about existing objects that an owner relies on.\<close>

definition quiet :: "sockid set \<Rightarrow> sockid set \<Rightarrow> world \<Rightarrow> world \<Rightarrow> bool" where
  "quiet C W w w' \<longleftrightarrow>
     length (bheap w) \<le> length (bheap w') \<and> length (theap w) \<le> length (theap w') \<and> length (sheap w) \<le> length (sheap w') \<and>
     (\<forall>b < length (bheap w). Addr (bheap w' ! b) = Addr (bheap w ! b)) \<and>
     (\<forall>tc < length (theap w). tc_Conn (theap w' ! tc) = tc_Conn (theap w ! tc) \<and>
        (tc_once (theap w ! tc) \<longrightarrow> tc_once (theap w' ! tc))) \<and>
     (\<forall>x < length (sheap w). (closed (sheap w ! x) \<longrightarrow> closed (sheap w' ! x)) \<and>
        (x \<notin> C \<longrightarrow> closed (sheap w' ! x) = closed (sheap w ! x)) \<and>
        has_CloseWrite (sheap w' ! x) = has_CloseWrite (sheap w ! x) \<and>
        (x \<notin> W \<longrightarrow> write_closed (sheap w' ! x) = write_closed (sheap w ! x) \<and>
           received (sheap w' ! x) = received (sheap w ! x) \<and> sent (sheap w' ! x) = sent (sheap w ! x)))"


section \<open>What the operations do to other connections\<close>

lemma fresh_new_sock [simp]: "fresh_conn new_sock" "\<not> closed new_sock"
  by (simp_all add: fresh_conn_def new_sock_def)

lemma nth_update_lt: "j < length xs \<Longrightarrow> xs[i := x] ! j = (if i = j then x else xs ! j)"
  by (metis nth_list_update nth_list_update_neq)

lemma quiet_refl [simp]: "quiet C W w w"
  by (simp add: quiet_def)

lemma quiet_trans:
  assumes "quiet C W w v" "quiet C W v u" shows "quiet C W w u"
  using assms by (auto simp: quiet_def)

lemma quiet_mono: "quiet C W w w' \<Longrightarrow> C \<subseteq> C' \<Longrightarrow> W \<subseteq> W' \<Longrightarrow> quiet C' W' w w'"
  unfolding quiet_def by blast

lemma quiet_upd_backend: "(\<And>b. addr (f b) = addr b) \<Longrightarrow> quiet {} {} w (upd_backend b f w)"
  by (auto simp: quiet_def upd_backend_def Addr_def nth_update_lt)

lemma quiet_dialed: "quiet {} {} w (fst (dialed w))"
  by (simp add: quiet_def dialed_def nth_append)

lemma quiet_Track: "b < length (bheap w) \<Longrightarrow> quiet {} {} w (fst (Track b c w))"
  by (auto simp: quiet_def Track_simps nth_append nth_update_lt Addr_def add_ConnTotal_def)

lemma quiet_closed_world: "quiet {x. \<not> untracked w x} {} w (closed_world T w)"
  by (auto simp: quiet_def untracked_def Addr_def)

lemma quiet_Close: "wf_world w \<Longrightarrow> tc < length (theap w) \<Longrightarrow> quiet {x. \<not> untracked w x} {} w (fst (Close tc w))"
  by (simp add: Close_closed_world quiet_closed_world)

lemma quiet_Drain:
  assumes "wf_world w" "b < length (bheap w)"
  shows "quiet {x. \<not> untracked w x} {} w (fst (DrainAll b w))"
proof -
  let ?v = "closed_world (set (conns (bheap w ! b))) w"
  have "quiet {x. \<not> untracked w x} {} ?v (upd_backend b (add_Drained (ActiveConns (bheap w ! b))) ?v)"
    by (rule quiet_mono [OF quiet_upd_backend]) (simp_all add: add_Drained_def)
  with quiet_closed_world show ?thesis
    unfolding DrainAll_closed_world [OF assms] fst_conv by (rule quiet_trans)
qed

lemma quiet_sock_Close: "quiet {c} {} w (fst (sock_Close c w))"
  by (auto simp: quiet_def sock_Close_def nth_update_lt)

lemma quiet_close_clients: "quiet (set cs) {} w (close_clients cs w)"
proof (induction cs arbitrary: w)
  case (Cons c cs)
  have "quiet (set (c # cs)) {} w (fst (sock_Close c w))" by (rule quiet_mono [OF quiet_sock_Close]) auto
  moreover have "quiet (set (c # cs)) {} (fst (sock_Close c w)) (close_clients cs (fst (sock_Close c w)))"
    by (rule quiet_mono [OF Cons.IH]) auto
  ultimately show ?case using quiet_trans by (simp del: set_simps)
qed simp

lemma quiet_close_write: "quiet {c} {c, tc_Conn (theap w ! tc)} w (close_write sd c tc w)"
  by (auto simp: quiet_def close_write_def CloseWrite_def sock_CloseWrite_def sock_Close_def nth_update_lt dst_of_def
      split: side.splits)

lemma quiet_copy:
  assumes "dir_exec a sd c tc w d = Some (w', d')"
  shows "quiet {c} {c, tc_Conn (theap w ! tc)} w w'"
  using assms
proof (cases rule: dir_exec_cases)
  case told
  then show ?thesis by (simp add: quiet_close_write)
qed (cases sd; simp add: quiet_def src_of_def dst_of_def)+

lemma quiet_SetAddrs:
  assumes "pool_inv w p" "distinct addrs" "SetAddrs addrs w p = (w', p', added, removed)"
  shows "quiet {} {} w w'"
  using SetAddrs_spec(1) [OF assms] by (simp add: quiet_def nth_append)

text \<open>The heap stays well-formed.\<close>

lemma wf_sock_Close [wf_intros]: "wf_world w \<Longrightarrow> untracked w c \<Longrightarrow> wf_world (fst (sock_Close c w))"
  by (auto simp: wf_world_def sock_Close_def untracked_def nth_update_lt)

lemma sock_Close_theap [simp]: "theap (fst (sock_Close c w)) = theap w" "bheap (fst (sock_Close c w)) = bheap w"
  "length (sheap (fst (sock_Close c w))) = length (sheap w)"
  by (simp_all add: sock_Close_def)

lemma sock_Close_closed: "c < length (sheap w) \<Longrightarrow> closed (sheap (fst (sock_Close c w)) ! c)"
  by (simp add: sock_Close_def)

lemma wf_close_clients [wf_intros]:
  "wf_world w \<Longrightarrow> \<forall>c \<in> set cs. untracked w c \<Longrightarrow> wf_world (close_clients cs w)"
  by (induction cs arbitrary: w) (simp_all add: wf_sock_Close untracked_def)

lemma close_clients_frame [simp]: "theap (close_clients cs w) = theap w" "length (sheap (close_clients cs w)) = length (sheap w)"
  by (induction cs arbitrary: w) simp_all

lemma wf_sock_CloseWrite [wf_intros]: "wf_world w \<Longrightarrow> wf_world (fst (sock_CloseWrite c w))"
  using map_field_list_update [of closed "\<lambda>x. x\<lparr>write_closed := True\<rparr>" "sheap w"]
  by (simp add: wf_world_def sock_CloseWrite_def)

lemma wf_close_write [wf_intros]: "wf_world w \<Longrightarrow> untracked w c \<Longrightarrow> wf_world (close_write sd c tc w)"
  by (auto simp: close_write_def CloseWrite_def intro: wf_intros split: side.splits)

lemma wf_sock_io [wf_intros]: "wf_world w \<Longrightarrow> wf_world (sock_read x bs w)" "wf_world w \<Longrightarrow> wf_world (sock_write x bs w)"
  by (simp_all add: wf_world_def)

lemma wf_copy:
  assumes "wf_world w" "untracked w c" "dir_exec a sd c tc w d = Some (w', d')"
  shows "wf_world w'" "theap w' = theap w" "length (sheap w') = length (sheap w)"
  using assms(3) by (cases rule: dir_exec_cases; use assms(1,2) in \<open>simp add: wf_sock_io wf_close_write\<close>)+

text \<open>No call of a direction closes a connection, and each keeps the pair in step.\<close>

lemma copy_closed:
  assumes "dir_exec a sd c tc w d = Some (w', d')" "has_CloseWrite (sheap w ! c)"
  shows "closed (sheap w' ! x) = closed (sheap w ! x)"
  using assms(1)
proof (cases rule: dir_exec_cases)
  case told
  with assms(2) show ?thesis by (simp add: close_write_nth)
qed simp_all

lemma copy_pipe_ok:
  assumes e: "dir_exec a sd c tc w (case sd of ToBackend \<Rightarrow> db | ToClient \<Rightarrow> dc) = Some (w', d)"
    and ok: "pipe_ok (sheap w ! c) (sheap w ! tc_Conn (theap w ! tc)) db dc"
    and x: "c < length (sheap w)" "tc_Conn (theap w ! tc) < length (sheap w)" "tc_Conn (theap w ! tc) \<noteq> c"
  shows "pipe_ok (sheap w' ! c) (sheap w' ! tc_Conn (theap w ! tc))
    (case sd of ToBackend \<Rightarrow> d | ToClient \<Rightarrow> db) (case sd of ToBackend \<Rightarrow> dc | ToClient \<Rightarrow> d)"
proof -
  let ?b = "tc_Conn (theap w ! tc)" and ?d = "case sd of ToBackend \<Rightarrow> db | ToClient \<Rightarrow> dc"
  have cw: "has_CloseWrite (sheap w ! c)" "has_CloseWrite (sheap w ! ?b)" using ok by (simp_all add: pipe_ok_def)
  have mine: "dir_ok (sheap w ! src_of sd c tc w) (sheap w ! dst_of sd c tc w) ?d"
    and ends: "src_of sd c tc w \<noteq> dst_of sd c tc w" "src_of sd c tc w < length (sheap w)" "dst_of sd c tc w < length (sheap w)"
    using ok x by (cases sd; simp add: pipe_ok_def src_of_def dst_of_def)+
  have new: "dir_ok (sheap w' ! src_of sd c tc w) (sheap w' ! dst_of sd c tc w) d"
    using e by (cases rule: dir_exec_cases)
      (use mine ends cw in \<open>auto simp: dir_ok_def close_write_nth take_is_prefix same_prefix_prefix\<close>)
  have same: "dir_ok (sheap w' ! dst_of sd c tc w) (sheap w' ! src_of sd c tc w) =
      dir_ok (sheap w ! dst_of sd c tc w) (sheap w ! src_of sd c tc w)"
    using e by (intro ext dir_ok_cong; cases rule: dir_exec_cases) (use ends cw in \<open>auto simp: close_write_nth\<close>)
  have fields: "has_CloseWrite (sheap w' ! y) = has_CloseWrite (sheap w ! y) \<and> closed (sheap w' ! y) = closed (sheap w ! y) \<and>
      write_closed (sheap w' ! y) = (write_closed (sheap w ! y) \<or>
        y = dst_of sd c tc w \<and> dir_finished d \<and> \<not> closed (sheap w ! y))" if "y \<in> {c, ?b}" for y
    using e by (cases rule: dir_exec_cases) (use that x cw in \<open>auto simp: close_write_nth dir_finished_def\<close>)
  show ?thesis
    using ok x new same fields [of c] fields [of ?b] dir_exec_finished [OF e]
    by (cases sd) (auto simp: pipe_ok_def src_of_def dst_of_def)
qed

lemma pool_inv_quiet:
  assumes "pool_inv w p" "quiet C W w w'" "backends p' = backends p"
  shows "pool_inv w' p'"
proof -
  have "pool_addrs w' p' = pool_addrs w p"
    using assms by (auto simp: pool_addrs_def pool_inv_def quiet_def)
  with assms show ?thesis by (auto simp: pool_inv_def quiet_def)
qed


section \<open>One handler moves\<close>

lemma pipe_ok_frame:
  assumes "pipe_ok c b db dc"
    and "received c' = received c" "sent c' = sent c" "write_closed c' = write_closed c" "has_CloseWrite c' = has_CloseWrite c"
    and "received b' = received b" "sent b' = sent b" "write_closed b' = write_closed b" "has_CloseWrite b' = has_CloseWrite b"
    and "closed c \<longrightarrow> closed c'" "closed b \<longrightarrow> closed b'"
  shows "pipe_ok c' b' db dc"
  using assms by (auto simp: pipe_ok_def dir_ok_def split: dir.splits)

lemma handler_ok_quiet:
  assumes "quiet C W w w'" "handler_ok w h" "h_client h < length (sheap w)" "h_client h \<notin> W"
    and "\<And>b bc. h_pc h = HConnected b bc \<Longrightarrow> bc < length (sheap w) \<and> bc \<notin> C \<and> bc \<notin> W"
    and "\<And>tc db dc. h_pc h = HPiping tc db dc \<Longrightarrow>
      tc_Conn (theap w ! tc) < length (sheap w) \<and> tc_Conn (theap w ! tc) \<notin> W"
  shows "handler_ok w' h"
proof (cases "h_pc h")
  case (HPiping tc db dc)
  then have "tc < length (theap w)" "pipe_ok (sheap w ! h_client h) (sheap w ! tc_Conn (theap w ! tc)) db dc"
    using assms(2) by (simp_all add: handler_ok_def)
  moreover have "tc_Conn (theap w' ! tc) = tc_Conn (theap w ! tc)" "tc < length (theap w')"
    using \<open>tc < length (theap w)\<close> assms(1) by (simp_all add: quiet_def)
  moreover have "pipe_ok (sheap w' ! h_client h) (sheap w' ! tc_Conn (theap w ! tc)) db dc"
    by (rule pipe_ok_frame [OF calculation(2)]) (use assms(1,3,4) assms(6) [OF HPiping] in \<open>simp_all add: quiet_def\<close>)
  ultimately show ?thesis using HPiping by (simp add: handler_ok_def)
qed (use assms in \<open>auto simp: handler_ok_def quiet_def fresh_conn_def\<close>)

lemma tc_of_bound: "handler_ok w g \<Longrightarrow> tc \<in> set (tc_of g) \<Longrightarrow> tc < length (theap w)"
  by (cases "h_pc g") (auto simp: tc_of_def handler_ok_def)

text \<open>The handlers that do not move keep what they rely on.\<close>

lemma others_ok:
  assumes inv: "sock_inv s" and q: "quiet C W (pw s) w'" and g: "g \<in> set (handlers s)"
    and C: "C \<subseteq> {x. \<not> untracked (pw s) x} \<union> h_client ` set (handlers s)"
    and W: "h_client g \<notin> W" "\<forall>b bc. h_pc g = HConnected b bc \<longrightarrow> bc \<notin> W"
      "\<forall>tc \<in> set (tc_of g). tc_Conn (theap (pw s) ! tc) \<notin> W"
  shows "handler_ok w' g"
proof (rule handler_ok_quiet [OF q])
  have ok: "handler_ok (pw s) g" and wf: "wf_world (pw s)" using inv g by (simp_all add: sock_inv_def)
  have raw: "set (raw_of g) \<subseteq> set (raw_socks s)" using g by (auto simp: raw_socks_def)
  then have bound: "\<forall>x \<in> set (raw_of g). x < length (sheap (pw s)) \<and> untracked (pw s) x"
    using inv by (auto simp: sock_inv_def)
  show "handler_ok (pw s) g" by (rule ok)
  show "h_client g < length (sheap (pw s))" using bound by (simp add: raw_of_def)
  show "h_client g \<notin> W" by (rule W)
  show "bc < length (sheap (pw s)) \<and> bc \<notin> C \<and> bc \<notin> W" if pc: "h_pc g = HConnected b bc" for b bc
  proof -
    have "bc \<in> set (raw_of g)" using pc by (simp add: raw_of_def)
    moreover have "bc \<noteq> h_client f" if f: "f \<in> set (handlers s)" for f
    proof
      assume e: "bc = h_client f"
      have d: "distinct (concat (map raw_of (handlers s)))" using inv by (simp add: sock_inv_def raw_socks_def)
      obtain as bs where hs: "handlers s = as @ g # bs" using g by (meson split_list)
      have "bc \<in> set (raw_of f)" using e by (simp add: raw_of_def)
      then have "f \<notin> set as \<and> f \<notin> set bs" using d pc unfolding hs by (auto simp: raw_of_def)
      with f have "f = g" by (simp add: hs)
      with d e pc show False unfolding hs by (simp add: raw_of_def)
    qed
    ultimately show ?thesis using bound C W(2) pc by auto
  qed
  show "tc_Conn (theap (pw s) ! tc) < length (sheap (pw s)) \<and> tc_Conn (theap (pw s) ! tc) \<notin> W"
    if pc: "h_pc g = HPiping tc db dc" for tc db dc
    using ok pc W(3) wf_tracked(1) [OF wf] by (auto simp: handler_ok_def tc_of_def)
qed

lemma distinct_replace:
  assumes "distinct (A @ M @ B)" "distinct M'" "\<forall>x \<in> set M'. x \<in> set M \<or> n \<le> x"
    and "\<forall>x \<in> set A \<union> set B. x < (n :: nat)"
  shows "distinct (A @ M' @ B)"
proof -
  have "x \<notin> set A \<union> set B" if "x \<in> set M'" for x
  proof -
    from assms(3) that consider "x \<in> set M" | "n \<le> x" by blast
    then show ?thesis
    proof cases
      case 1
      with assms(1) show ?thesis by auto
    next
      case 2
      with assms(4) show ?thesis by (auto dest: leD)
    qed
  qed
  with assms(1,2) show ?thesis by auto
qed

text \<open>The facts about one handler \<open>h\<close> and the others in a state of the invariant.\<close>

definition others :: "(handler \<Rightarrow> 'a list) \<Rightarrow> handler list \<Rightarrow> handler list \<Rightarrow> 'a list" where
  "others f as bs = concat (map f as) @ concat (map f bs)"

lemma set_others: "x \<in> set (others f as bs) \<longleftrightarrow> (\<exists>g \<in> set as \<union> set bs. x \<in> set (f g))"
  by (auto simp: others_def)

lemma split_raw:
  assumes inv: "sock_inv s" and hs: "handlers s = as @ h # bs"
  shows "distinct (concat (map raw_of as) @ raw_of h @ concat (map raw_of bs) @ pending s)"
    "set (raw_of h) \<inter> (set (others raw_of as bs) \<union> set (pending s)) = {}"
    "\<And>x. x \<in> set (others raw_of as bs) \<union> set (pending s) \<union> set (raw_of h) \<Longrightarrow>
       x < length (sheap (pw s)) \<and> untracked (pw s) x"
proof -
  show d: "distinct (concat (map raw_of as) @ raw_of h @ concat (map raw_of bs) @ pending s)"
    using inv unfolding sock_inv_def raw_socks_def hs by simp
  then show "set (raw_of h) \<inter> (set (others raw_of as bs) \<union> set (pending s)) = {}"
    unfolding others_def by auto
  have "set (raw_socks s) = set (others raw_of as bs) \<union> set (pending s) \<union> set (raw_of h)"
    unfolding raw_socks_def hs others_def by auto
  with inv show "x < length (sheap (pw s)) \<and> untracked (pw s) x"
    if "x \<in> set (others raw_of as bs) \<union> set (pending s) \<union> set (raw_of h)" for x
    using that unfolding sock_inv_def by metis
qed

lemma split_piped:
  assumes inv: "sock_inv s" and hs: "handlers s = as @ h # bs"
  shows "distinct (concat (map tc_of as) @ tc_of h @ concat (map tc_of bs))"
    "set (tc_of h) \<inter> set (others tc_of as bs) = {}"
    "\<And>tc. tc \<in> set (others tc_of as bs) \<union> set (tc_of h) \<Longrightarrow> tc < length (theap (pw s))"
proof -
  show d: "distinct (concat (map tc_of as) @ tc_of h @ concat (map tc_of bs))"
    using inv unfolding sock_inv_def piped_def hs by simp
  then show "set (tc_of h) \<inter> set (others tc_of as bs) = {}" unfolding others_def by auto
  show "tc < length (theap (pw s))" if "tc \<in> set (others tc_of as bs) \<union> set (tc_of h)" for tc
  proof -
    from that obtain g where "g \<in> set (handlers s)" "tc \<in> set (tc_of g)" by (auto simp: set_others hs)
    moreover have "handler_ok (pw s) g" using inv \<open>g \<in> set (handlers s)\<close> unfolding sock_inv_def by blast
    ultimately show ?thesis using tc_of_bound by blast
  qed
qed

text \<open>A tracked connection is none of the raw ones, and two handlers pipe different ones.\<close>

lemma tracked_conn:
  assumes inv: "sock_inv s" and hs: "handlers s = as @ h # bs" and tc: "tc < length (theap (pw s))"
  shows "tc_Conn (theap (pw s) ! tc) < length (sheap (pw s))"
    "tc_Conn (theap (pw s) ! tc) \<notin> set (others raw_of as bs) \<union> set (pending s) \<union> set (raw_of h)"
proof -
  have "wf_world (pw s)" using inv by (simp add: sock_inv_def)
  from wf_tracked(1) [OF this tc] show "tc_Conn (theap (pw s) ! tc) < length (sheap (pw s))" .
  show "tc_Conn (theap (pw s) ! tc) \<notin> set (others raw_of as bs) \<union> set (pending s) \<union> set (raw_of h)"
    using split_raw(3) [OF inv hs] tc unfolding untracked_def by blast
qed

lemma not_in_W:
  assumes inv: "sock_inv s" and hs: "handlers s = as @ h # bs"
    and W: "W \<subseteq> {h_client h} \<union> (\<lambda>tc. tc_Conn (theap (pw s) ! tc)) ` set (tc_of h)"
  shows "x \<in> set (others raw_of as bs) \<union> set (pending s) \<Longrightarrow> x \<notin> W"
    "tc \<in> set (others tc_of as bs) \<Longrightarrow> tc_Conn (theap (pw s) ! tc) \<notin> W"
proof -
  have c: "h_client h \<in> set (raw_of h)" by (simp add: raw_of_def)
  have wf: "wf_world (pw s)" using inv by (simp add: sock_inv_def)
  note pb = split_piped(3) [OF inv hs]
  show "x \<notin> W" if x: "x \<in> set (others raw_of as bs) \<union> set (pending s)"
  proof
    assume "x \<in> W"
    with W consider "x = h_client h" | tc where "tc \<in> set (tc_of h)" "x = tc_Conn (theap (pw s) ! tc)" by blast
    then show False
    proof cases
      case 1
      with x c split_raw(2) [OF inv hs] show False by blast
    next
      case 2
      with x tracked_conn(2) [OF inv hs] pb show False by blast
    qed
  qed
  show "tc_Conn (theap (pw s) ! tc) \<notin> W" if tc: "tc \<in> set (others tc_of as bs)"
  proof
    assume "tc_Conn (theap (pw s) ! tc) \<in> W"
    with W consider "tc_Conn (theap (pw s) ! tc) = h_client h"
      | tc' where "tc' \<in> set (tc_of h)" "tc_Conn (theap (pw s) ! tc) = tc_Conn (theap (pw s) ! tc')" by blast
    then show False
    proof cases
      case 1
      with tracked_conn(2) [OF inv hs] pb tc c show False by (metis UnCI)
    next
      case 2
      moreover have "tc \<in> {..<length (theap (pw s))}" "tc' \<in> {..<length (theap (pw s))}" using pb tc 2(1) by simp_all
      ultimately have "tc = tc'" using inj_onD [OF wf_inj [OF wf]] by metis
      with tc 2(1) split_piped(2) [OF inv hs] show False by blast
    qed
  qed
qed

lemma sock_inv_handlerI:
  assumes inv: "sock_inv s" and hs: "handlers s = as @ h # bs" "handlers t = as @ h' # bs"
    and pend: "pending t = pending s"
    and q: "quiet C W (pw s) (pw t)" and wf: "wf_world (pw t)" and pool: "pool_inv (pw t) (ppool t)"
    and ok: "handler_ok (pw t) h'"
    and C: "C \<subseteq> {x. \<not> untracked (pw s) x} \<union> {h_client h}"
    and W: "W \<subseteq> {h_client h} \<union> (\<lambda>tc. tc_Conn (theap (pw s) ! tc)) ` set (tc_of h)"
    and raw: "distinct (raw_of h')"
      "\<forall>x \<in> set (raw_of h'). x < length (sheap (pw t)) \<and> (x \<in> set (raw_of h) \<or> length (sheap (pw s)) \<le> x)"
    and new: "\<forall>tc. length (theap (pw s)) \<le> tc \<longrightarrow> tc < length (theap (pw t)) \<longrightarrow>
      tc_Conn (theap (pw t) ! tc) \<in> set (raw_of h) - set (raw_of h')"
    and cover: "\<forall>x < length (sheap (pw t)). x \<in> set (raw_of h') \<or> \<not> untracked (pw t) x \<or>
      x < length (sheap (pw s)) \<and> x \<notin> set (raw_of h)"
    and tcs: "distinct (tc_of h')" "\<forall>tc \<in> set (tc_of h'). tc \<in> set (tc_of h) \<or> length (theap (pw s)) \<le> tc"
    and live: "\<forall>tc < length (theap (pw t)). \<not> tc_once (theap (pw t) ! tc) \<longrightarrow>
      tc \<in> set (tc_of h') \<or> tc < length (theap (pw s)) \<and> tc \<notin> set (tc_of h)"
    and clients: "h_client h' = h_client h" "distinct (clientConns (srv t))"
      "set (clientConns (srv t)) = (set (clientConns (srv s)) - {h_client h}) \<union>
         (if registered_pc (h_pc h') then {h_client h} else {})"
  shows "sock_inv t"
proof -
  note R = split_raw [OF inv hs(1)] and P = split_piped [OF inv hs(1)] and T = tracked_conn [OF inv hs(1)]
    and W' = not_in_W [OF inv hs(1) W]
  have qs: "length (sheap (pw s)) \<le> length (sheap (pw t))"
    "\<And>tc. tc < length (theap (pw s)) \<Longrightarrow> tc_Conn (theap (pw t) ! tc) = tc_Conn (theap (pw s) ! tc) \<and>
       (tc_once (theap (pw s) ! tc) \<longrightarrow> tc_once (theap (pw t) ! tc))"
    using q by (simp_all add: quiet_def)
  have oks: "handler_ok (pw t) g" if g: "g \<in> set as \<union> set bs" for g
  proof (rule others_ok [OF inv q])
    show "g \<in> set (handlers s)" using g by (auto simp: hs)
    show "C \<subseteq> {x. \<not> untracked (pw s) x} \<union> h_client ` set (handlers s)" using C by (auto simp: hs)
    have "x \<notin> W" if "x \<in> set (raw_of g)" for x using W'(1) [of x] g that by (auto simp: set_others)
    then show "h_client g \<notin> W" "\<forall>b bc. h_pc g = HConnected b bc \<longrightarrow> bc \<notin> W" by (simp_all add: raw_of_def)
    show "\<forall>tc \<in> set (tc_of g). tc_Conn (theap (pw s) ! tc) \<notin> W" using W'(2) g by (auto simp: set_others)
  qed
  have dr: "distinct (raw_socks t)"
    using distinct_replace [OF R(1) raw(1), of "length (sheap (pw s))"] R(3) raw(2)
    by (simp add: raw_socks_def hs pend others_def)
  have br: "x < length (sheap (pw t)) \<and> untracked (pw t) x" if "x \<in> set (raw_socks t)" for x
  proof -
    from that have x: "x \<in> set (others raw_of as bs) \<union> set (pending s) \<or> x \<in> set (raw_of h')"
      unfolding raw_socks_def hs pend others_def by auto
    have "tc_Conn (theap (pw t) ! tc) \<noteq> x" if tc: "tc < length (theap (pw t))" for tc
    proof (cases "tc < length (theap (pw s))")
      case True
      with T(2) [OF True] T(1) [OF True] qs(2) [OF True] x raw(2) show ?thesis by (metis UnCI leD)
    next
      case False
      with new tc have "tc_Conn (theap (pw t) ! tc) \<in> set (raw_of h) - set (raw_of h')" by simp
      with x R(2) show ?thesis by blast
    qed
    moreover have "x < length (sheap (pw t))" using x raw(2) R(3) qs(1) by (metis UnCI less_le_trans)
    ultimately show ?thesis by (simp add: untracked_def)
  qed
  have cv: "x \<in> set (raw_socks t) \<or> \<not> untracked (pw t) x" if "x < length (sheap (pw t))" for x
  proof (cases "x < length (sheap (pw s)) \<and> x \<notin> set (raw_of h)")
    case True
    then have "x \<in> set (raw_socks s) \<or> \<not> untracked (pw s) x" using inv by (simp add: sock_inv_def)
    moreover have "\<not> untracked (pw t) x" if "\<not> untracked (pw s) x"
      using that q unfolding quiet_def untracked_def by (metis less_le_trans)
    ultimately show ?thesis using True by (auto simp: raw_socks_def hs pend)
  qed (use cover that in \<open>auto simp: raw_socks_def hs\<close>)
  have pe: "fresh_conn (sheap (pw t) ! x)" if "x \<in> set (pending t)" for x
    using inv q W'(1) [of x] R(3) [of x] that by (simp add: pend sock_inv_def quiet_def fresh_conn_def)
  have dp: "distinct (piped t)"
    using distinct_replace [OF P(1) tcs(1), of "length (theap (pw s))"] P(3) tcs(2)
    by (simp add: piped_def hs others_def)
  have lv: "tc \<in> set (piped t)" if "tc < length (theap (pw t))" "\<not> tc_once (theap (pw t) ! tc)" for tc
  proof (cases "tc \<in> set (tc_of h')")
    case False
    with live that have tc: "tc < length (theap (pw s))" "tc \<notin> set (tc_of h)" by blast+
    then have "tc \<in> set (piped s)" using inv qs(2) that(2) unfolding sock_inv_def by blast
    with tc(2) show ?thesis by (auto simp: piped_def hs)
  qed (simp add: piped_def hs)
  have cl: "set (clientConns (srv t)) = h_client ` {g \<in> set (handlers t). registered_pc (h_pc g)}"
  proof -
    let ?O = "{g \<in> set as \<union> set bs. registered_pc (h_pc g)}"
    have "h_client h \<notin> h_client ` ?O" using R(2) by (auto simp: raw_of_def set_others)
    moreover have "set (clientConns (srv s)) = h_client ` {g \<in> set (handlers s). registered_pc (h_pc g)}"
      using inv by (simp add: sock_inv_def)
    moreover have "{g \<in> set (handlers s). registered_pc (h_pc g)} = ?O \<union> (if registered_pc (h_pc h) then {h} else {})"
      by (auto simp: hs)
    ultimately have "set (clientConns (srv s)) - {h_client h} = h_client ` ?O" by (simp add: image_Un)
    moreover have "{g \<in> set (handlers t). registered_pc (h_pc g)} = ?O \<union> (if registered_pc (h_pc h') then {h'} else {})"
      by (auto simp: hs)
    ultimately show ?thesis by (simp only: clients image_Un) (simp add: clients(1))
  qed
  show ?thesis
    unfolding sock_inv_def using wf pool dr br cv pe dp lv clients(2) cl ok oks by (simp add: hs(2) Ball_def)
qed

lemma handlers_split:
  assumes "i < length (handlers s)"
  shows "handlers s = take i (handlers s) @ handlers s ! i # drop (Suc i) (handlers s)"
  using assms by (rule id_take_nth_drop)

lemma handlers_set_hpc:
  assumes "i < length (handlers s)" "handlers u = handlers s"
  shows "handlers (set_hpc i pc u) =
    take i (handlers s) @ (handlers s ! i)\<lparr>h_pc := pc\<rparr> # drop (Suc i) (handlers s)"
  using assms by (simp add: set_hpc_def upd_conv_take_nth_drop)

lemma handler_facts:
  assumes inv: "sock_inv s" and hs: "handlers s = as @ h # bs"
  shows "handler_ok (pw s) h" "distinct (raw_of h)"
    "\<And>x. x \<in> set (raw_of h) \<Longrightarrow> x < length (sheap (pw s)) \<and> untracked (pw s) x"
    "\<And>tc. tc \<in> set (tc_of h) \<Longrightarrow> tc < length (theap (pw s))"
    "h_client h \<in> set (clientConns (srv s)) \<longleftrightarrow> registered_pc (h_pc h)"
proof -
  show ok: "handler_ok (pw s) h" using inv by (simp add: sock_inv_def hs)
  have "distinct (raw_socks s)" using inv by (simp add: sock_inv_def)
  then have d: "distinct (concat (map raw_of as) @ raw_of h @ concat (map raw_of bs))"
    by (auto simp: raw_socks_def hs)
  then show "distinct (raw_of h)" by simp
  show "x < length (sheap (pw s)) \<and> untracked (pw s) x" if "x \<in> set (raw_of h)" for x
    using inv that by (simp add: sock_inv_def raw_socks_def hs)
  show "tc < length (theap (pw s))" if "tc \<in> set (tc_of h)" for tc
    by (rule tc_of_bound [OF ok that])
  have other: "\<forall>g \<in> set as \<union> set bs. h_client g \<noteq> h_client h"
    using d by (auto simp: raw_of_def)
  have "set (clientConns (srv s)) = h_client ` {g \<in> set as \<union> set bs \<union> {h}. registered_pc (h_pc g)}"
    using inv by (simp add: sock_inv_def hs Un_commute insert_commute)
  then show "h_client h \<in> set (clientConns (srv s)) \<longleftrightarrow> registered_pc (h_pc h)"
    using other by (auto simp: image_iff)
qed

text \<open>A step of one handler that touches no connection.\<close>

lemma sock_inv_pcI:
  assumes inv: "sock_inv s" and i: "i < length (handlers s)" "handlers s ! i = h"
    and u: "handlers u = handlers s" "serve u = serve s" "pw u = pw s" "backends (ppool u) = backends (ppool s)"
    and same: "raw_of (h\<lparr>h_pc := pc\<rparr>) = raw_of h" "tc_of (h\<lparr>h_pc := pc\<rparr>) = tc_of h"
    and ok: "handler_ok (pw s) (h\<lparr>h_pc := pc\<rparr>)"
    and clients: "distinct (clientConns (srv u))"
      "set (clientConns (srv u)) = (set (clientConns (srv s)) - {h_client h}) \<union>
         (if registered_pc pc then {h_client h} else {})"
  shows "sock_inv (set_hpc i pc u)"
proof -
  obtain as bs where hs: "handlers s = as @ h # bs" "handlers (set_hpc i pc u) = as @ h\<lparr>h_pc := pc\<rparr> # bs"
    using handlers_split [OF i(1)] handlers_set_hpc [OF i(1) u(1)] unfolding i(2) by blast
  have w: "wf_world (pw s)" "pool_inv (pw s) (ppool s)" using inv by (simp_all add: sock_inv_def)
  have "pool_inv (pw s) (ppool u)" using w(2) u(4) by (simp add: pool_inv_def pool_addrs_def)
  moreover have "distinct (tc_of h)" by (cases "h_pc h") (simp_all add: tc_of_def)
  moreover have "\<forall>x < length (sheap (pw s)). x \<in> set (raw_of h) \<or> x \<notin> set (raw_of h)" by blast
  ultimately show ?thesis
    using handler_facts [OF inv hs(1)] w ok clients
    by (intro sock_inv_handlerI [OF inv hs, where C = "{}" and W = "{}"]) (simp_all add: u same pending_def)
qed


text \<open>The steps of a handler, one by one.\<close>

lemmas handler_simps = raw_of_def tc_of_def handler_ok_def registered_pc_def

lemma sock_inv_register:
  assumes "sock_inv s" "i < length (handlers s)" "h_pc (handlers s ! i) = HAccepted"
  shows "sock_inv (set_hpc i HRegistered (s\<lparr>srv := trackClient (h_client (handlers s ! i)) True (srv s), keepalive := k\<rparr>))"
  using assms handler_facts [OF assms(1) handlers_split [OF assms(2)]]
  by (intro sock_inv_pcI [OF assms(1,2) refl]) (auto simp: handler_simps trackClient_def sock_inv_def)

lemma sock_inv_candidates:
  assumes inv: "sock_inv s" and i: "i < length (handlers s)" "h_pc (handlers s ! i) = HRegistered"
    and small: "length (backends (ppool s)) < 2 ^ 63" and c: "Candidates (pw s) (ppool s) = Inr (pool, order, degraded)"
  shows "sock_inv (set_hpc i (HDialing order) (s\<lparr>ppool := pool\<rparr>))"
proof -
  from Candidates_cases [OF small, of "pw s"] c obtain pk where p: "pool = (ppool s)\<lparr>pool_picker := pk\<rparr>"
    and o: "set order \<subseteq> set (backends (ppool s))" by (metis Pair_inject sum.inject(2))
  have "set (backends (ppool s)) \<subseteq> {..<length (bheap (pw s))}" using inv by (simp add: sock_inv_def pool_inv_def)
  with o have "set order \<subseteq> {..<length (bheap (pw s))}" by (rule subset_trans)
  then show ?thesis
    using i handler_facts [OF inv handlers_split [OF i(1)]] inv
    by (intro sock_inv_pcI [OF inv i(1) refl]) (auto simp: handler_simps p sock_inv_def)
qed

lemma sock_inv_no_backend:
  assumes "sock_inv s" "i < length (handlers s)" "h_pc (handlers s ! i) = HDialing []"
  shows "sock_inv (set_hpc i HUnregister s)"
  using assms handler_facts [OF assms(1) handlers_split [OF assms(2)]]
  by (intro sock_inv_pcI [OF assms(1,2) refl]) (auto simp: handler_simps sock_inv_def)

lemma sock_inv_unregister:
  assumes "sock_inv s" "i < length (handlers s)" "h_pc (handlers s ! i) = HUnregister"
  shows "sock_inv (set_hpc i HCloseClient (s\<lparr>srv := trackClient (h_client (handlers s ! i)) False (srv s)\<rparr>))"
  using assms handler_facts [OF assms(1) handlers_split [OF assms(2)]]
  by (intro sock_inv_pcI [OF assms(1,2) refl]) (auto simp: handler_simps trackClient_def sock_inv_def distinct_removeAll)

lemma sock_inv_done:
  assumes "sock_inv s" "i < length (handlers s)" "h_pc (handlers s ! i) = HReturned"
  shows "sock_inv (set_hpc i HDone (s\<lparr>srv := (srv s)\<lparr>wg := n\<rparr>\<rparr>))"
  using assms handler_facts [OF assms(1) handlers_split [OF assms(2)]]
  by (intro sock_inv_pcI [OF assms(1,2) refl]) (auto simp: handler_simps sock_inv_def)


lemmas sock_inv_moveI = sock_inv_handlerI [OF _ handlers_split handlers_set_hpc]

lemma pool_inv_moved: "sock_inv s \<Longrightarrow> quiet C W (pw s) w \<Longrightarrow> pool_inv w (ppool s)"
  by (auto simp: sock_inv_def intro: pool_inv_quiet)

lemma sock_inv_dial_ok:
  assumes inv: "sock_inv s" and i: "i < length (handlers s)" and pc: "h_pc (handlers s ! i) = HDialing (b # bs)"
  shows "sock_inv (set_hpc i (HConnected b (length (sheap (pw s)))) (s\<lparr>pw := fst (dialed (pw s))\<rparr>))"
proof -
  note f = handler_facts [OF inv handlers_split [OF i]]
  have wf: "wf_world (fst (dialed (pw s)))" using inv by (simp add: sock_inv_def dialed_def wf_new_sock)
  have new: "sheap (fst (dialed (pw s))) ! length (sheap (pw s)) = new_sock" by (simp add: dialed_def)
  show ?thesis
    by (rule sock_inv_moveI [OF inv i i, where C = "{}" and W = "{}"])
      (use f pc wf pool_inv_moved [OF inv quiet_dialed] quiet_dialed inv in
        \<open>auto simp: handler_simps pending_def sock_inv_def new dialed_def nth_append untracked_def less_Suc_eq\<close>)
qed

lemma sock_inv_dial_fail:
  assumes inv: "sock_inv s" and i: "i < length (handlers s)" and pc: "h_pc (handlers s ! i) = HDialing (b # bs)"
  shows "sock_inv (set_hpc i (HDialing bs) (s\<lparr>pw := dial_failed b (pw s)\<rparr>))"
proof -
  note f = handler_facts [OF inv handlers_split [OF i]]
  have q: "quiet {} {} (pw s) (dial_failed b (pw s))"
    unfolding dial_failed_def by (rule quiet_upd_backend) (simp add: add_DialError_def)
  have wf: "wf_world (dial_failed b (pw s))"
    unfolding dial_failed_def using inv by (intro wf_upd_backend) (simp_all add: sock_inv_def add_DialError_def)
  show ?thesis
    by (rule sock_inv_moveI [OF inv i i, where C = "{}" and W = "{}"])
      (use f pc wf pool_inv_moved [OF inv q] q inv in
        \<open>auto simp: handler_simps pending_def sock_inv_def dial_failed_def upd_backend_def\<close>)
qed

lemma sock_inv_track:
  assumes inv: "sock_inv s" and i: "i < length (handlers s)" and pc: "h_pc (handlers s ! i) = HConnected b bc"
  shows "sock_inv (set_hpc i (HPiping (snd (Track b bc (pw s))) dir_new dir_new)
    (s\<lparr>pw := fst (Track b bc (pw s)), keepalive := k\<rparr>))"
proof -
  note f = handler_facts [OF inv handlers_split [OF i]]
  have b: "b < length (bheap (pw s))" and raw: "raw_of (handlers s ! i) = [h_client (handlers s ! i), bc]"
    and op: "\<not> closed (sheap (pw s) ! bc)" "fresh_conn (sheap (pw s) ! bc)" "fresh_conn (sheap (pw s) ! h_client (handlers s ! i))"
    using f(1) pc by (simp_all add: handler_ok_def raw_of_def)
  have fresh: "fresh_sock (pw s) bc" using f(3) [of bc] raw op by (auto simp: fresh_sock_def untracked_def)
  have wf: "wf_world (fst (Track b bc (pw s)))" using inv by (intro wf_Track b fresh) (simp add: sock_inv_def)
  note q = quiet_Track [OF b, of bc] and T = Track_simps [OF b, of bc]
  show ?thesis
    by (rule sock_inv_moveI [OF inv i i, where C = "{}" and W = "{}"])
      (use f pc wf pool_inv_moved [OF inv q] q inv op raw in
        \<open>auto simp: handler_simps pending_def sock_inv_def T nth_append pipe_ok_def dir_ok_def fresh_conn_def dir_finished_def dir_new_def less_Suc_eq untracked_def\<close>)
qed

lemma sock_inv_join:
  assumes inv: "sock_inv s" and i: "i < length (handlers s)" and pc: "h_pc (handlers s ! i) = HPiping tc db dc"
  shows "sock_inv (set_hpc i HUnregister (s\<lparr>pw := fst (Close tc (pw s))\<rparr>))"
proof -
  note f = handler_facts [OF inv handlers_split [OF i]]
  have wf0: "wf_world (pw s)" using inv by (simp add: sock_inv_def)
  have tc: "tc < length (theap (pw s))" using f(4) pc by (simp add: tc_of_def)
  have wf: "wf_world (fst (Close tc (pw s)))" using wf0 tc by (simp add: Close_closed_world wf_closed_world)
  note q = quiet_Close [OF wf0 tc]
  show ?thesis
    by (rule sock_inv_moveI [OF inv i i, where C = "{x. \<not> untracked (pw s) x}" and W = "{}"])
      (use f pc wf pool_inv_moved [OF inv q] q inv tc wf0 in
        \<open>auto simp: handler_simps pending_def sock_inv_def Close_closed_world\<close>)
qed

lemma sock_inv_close_client:
  assumes inv: "sock_inv s" and i: "i < length (handlers s)" and pc: "h_pc (handlers s ! i) = HCloseClient"
  shows "sock_inv (set_hpc i HReturned (s\<lparr>pw := fst (sock_Close (h_client (handlers s ! i)) (pw s))\<rparr>))"
proof -
  note f = handler_facts [OF inv handlers_split [OF i]]
  have c: "h_client (handlers s ! i) < length (sheap (pw s))" "untracked (pw s) (h_client (handlers s ! i))"
    using f(3) by (simp_all add: raw_of_def)
  have wf: "wf_world (fst (sock_Close (h_client (handlers s ! i)) (pw s)))"
    using inv c(2) by (intro wf_sock_Close) (simp_all add: sock_inv_def)
  note q = quiet_sock_Close [of "h_client (handlers s ! i)" "pw s"]
  show ?thesis
    by (rule sock_inv_moveI [OF inv i i, where C = "{h_client (handlers s ! i)}" and W = "{}"])
      (use f pc wf pool_inv_moved [OF inv q] q inv c sock_Close_closed [OF c(1)] in
        \<open>auto simp: handler_simps pending_def sock_inv_def\<close>)
qed


lemma sock_inv_copy:
  assumes inv: "sock_inv s" and i: "i < length (handlers s)" and t: "handler_copy i sd a s = Some t"
  shows "sock_inv t"
proof -
  let ?c = "h_client (handlers s ! i)"
  from t obtain tc db dc w d where pc: "h_pc (handlers s ! i) = HPiping tc db dc"
    and e: "dir_exec a sd ?c tc (pw s) (case sd of ToBackend \<Rightarrow> db | ToClient \<Rightarrow> dc) = Some (w, d)"
    and t': "t = set_hpc i (HPiping tc (case sd of ToBackend \<Rightarrow> d | ToClient \<Rightarrow> db) (case sd of ToBackend \<Rightarrow> dc | ToClient \<Rightarrow> d)) (s\<lparr>pw := w\<rparr>)"
    by (cases sd) (auto simp: handler_copy_def Let_def split: hpc.splits option.splits)
  note f = handler_facts [OF inv handlers_split [OF i]]
  have c: "?c < length (sheap (pw s))" "untracked (pw s) ?c" using f(3) by (simp_all add: raw_of_def)
  have tc: "tc < length (theap (pw s))" "tc_Conn (theap (pw s) ! tc) \<noteq> ?c" "tc_Conn (theap (pw s) ! tc) < length (sheap (pw s))"
    using f(4) [of tc] pc c(2) inv wf_tracked(1) by (auto simp: tc_of_def untracked_def sock_inv_def)
  note q = quiet_copy [OF e]
  have "wf_world (pw s)" using inv by (simp add: sock_inv_def)
  note wf = wf_copy [OF this c(2) e]
  have "pipe_ok (sheap (pw s) ! ?c) (sheap (pw s) ! tc_Conn (theap (pw s) ! tc)) db dc" using f(1) pc by (simp add: handler_ok_def)
  note ok = copy_pipe_ok [OF e this c(1) tc(3,2)]
  show ?thesis unfolding t'
    by (rule sock_inv_moveI [OF inv i i, where C = "{?c}" and W = "{?c, tc_Conn (theap (pw s) ! tc)}"])
      (use f pc wf pool_inv_moved [OF inv q] q inv c tc ok in \<open>auto simp: handler_simps pending_def sock_inv_def\<close>)
qed

lemma sock_inv_next:
  assumes inv: "sock_inv s" and small: "length (backends (ppool s)) < 2 ^ 63" and i: "i < length (handlers s)"
    and t: "handler_next opts i s = Some t"
  shows "sock_inv t"
  using t inv i small sock_inv_candidates [OF inv i _ small]
  by (cases "h_pc (handlers s ! i)")
    (auto simp: handler_next_def Let_def split_beta
      intro: sock_inv_register sock_inv_no_backend sock_inv_unregister sock_inv_done sock_inv_track sock_inv_join
        sock_inv_close_client
      split: if_splits sum.splits)

lemma sock_inv_dial:
  assumes inv: "sock_inv s" and i: "i < length (handlers s)" and t: "handler_dial i ok s = Some t"
  shows "sock_inv t"
proof -
  from t obtain b bs where "h_pc (handlers s ! i) = HDialing (b # bs)"
    by (auto simp: handler_dial_def split: hpc.splits list.splits)
  with t sock_inv_dial_ok [OF inv i] sock_inv_dial_fail [OF inv i] show ?thesis
    by (auto simp: handler_dial_def dialed_def split: if_splits)
qed


section \<open>Everything else moves\<close>

lemma sock_inv_envI:
  assumes inv: "sock_inv s" and same: "handlers t = handlers s" "serve t = serve s" "clientConns (srv t) = clientConns (srv s)"
    and q: "quiet C {} (pw s) (pw t)" and wf: "wf_world (pw t)" and pool: "pool_inv (pw t) (ppool t)"
    and C: "C \<subseteq> {x. \<not> untracked (pw s) x} \<union> h_client ` set (handlers s)"
    and len: "length (theap (pw t)) = length (theap (pw s))" "length (sheap (pw t)) = length (sheap (pw s))"
  shows "sock_inv t"
proof -
  have raw: "raw_socks t = raw_socks s" "piped t = piped s" "pending t = pending s"
    by (simp_all add: raw_socks_def piped_def pending_def same)
  have "handler_ok (pw t) h" if "h \<in> set (handlers s)" for h
    by (rule others_ok [OF inv q that C]) auto
  moreover have "untracked (pw t) x = untracked (pw s) x" for x
    using q len by (auto simp: untracked_def quiet_def)
  moreover have once: "\<forall>tc < length (theap (pw s)). \<not> tc_once (theap (pw t) ! tc) \<longrightarrow> tc \<in> set (piped s)"
    using inv q by (auto simp: sock_inv_def quiet_def)
  moreover have "fresh_conn (sheap (pw t) ! x)" if "x \<in> set (pending s)" for x
    using inv q that by (auto simp: sock_inv_def quiet_def raw_socks_def fresh_conn_def)
  ultimately show ?thesis
    using inv wf pool len once by (simp add: sock_inv_def raw same)
qed

lemma sock_inv_accept:
  assumes inv: "sock_inv s" and t: "serve_accept s = Some t"
  shows "sock_inv t"
proof -
  let ?n = "length (sheap (pw s))" and ?w = "fst (dialed (pw s))"
  from t have ac: "serve s = Accepting" and t': "t = s\<lparr>pw := ?w, serve := Accepted ?n\<rparr>"
    by (auto simp: serve_accept_def dialed_def split: if_splits)
  have p: "pending s = []" "pending t = [?n]" by (simp_all add: pending_def ac t')
  have w: "theap ?w = theap (pw s)" "length (sheap ?w) = Suc ?n" "sheap ?w ! ?n = new_sock"
    by (simp_all add: dialed_def)
  have "handler_ok ?w h" if "h \<in> set (handlers s)" for h
    by (rule others_ok [OF inv quiet_dialed that]) auto
  moreover have "\<forall>x \<in> set (raw_socks s). x < ?n \<and> untracked (pw s) x" using inv by (simp add: sock_inv_def)
  moreover have "untracked ?w ?n" using inv wf_tracked(1) by (fastforce simp: untracked_def sock_inv_def w)
  moreover have "wf_world ?w" using inv by (simp add: sock_inv_def dialed_def wf_new_sock)
  ultimately show ?thesis
    using inv pool_inv_moved [OF inv quiet_dialed] w
    by (auto simp: sock_inv_def raw_socks_def piped_def p(1) p(2) [unfolded t'] t' untracked_def less_Suc_eq)
qed

lemma sock_inv_spawn:
  assumes inv: "sock_inv s" and t: "serve_spawn s = Some t"
  shows "sock_inv t"
proof -
  from t obtain c where c: "serve s = Accepted c" and t': "t = s\<lparr>srv := (srv s)\<lparr>wg := wg (srv s) + 1\<rparr>,
      handlers := handlers s @ [\<lparr>h_client = c, h_pc = HAccepted\<rparr>], serve := Accepting\<rparr>"
    by (auto simp: serve_spawn_def split: serve_pc.splits)
  have "raw_socks t = raw_socks s" "piped t = piped s" "pending t = []" "pending s = [c]"
    by (simp_all add: raw_socks_def piped_def pending_def c t' raw_of_def tc_of_def)
  moreover have "{h \<in> set (handlers t). registered_pc (h_pc h)} = {h \<in> set (handlers s). registered_pc (h_pc h)}"
    by (auto simp: t' registered_pc_def)
  ultimately show ?thesis using inv by (simp add: sock_inv_def t' handler_ok_def)
qed

lemma sock_inv_expire:
  assumes inv: "sock_inv s" and t: "shut_expire s = Some t"
  shows "sock_inv t"
proof -
  let ?w = "close_clients (clientConns (srv s)) (pw s)"
  from t have t': "t = s\<lparr>pw := ?w, shut := ShForced (length (clientConns (srv s)))\<rparr>"
    by (auto simp: shut_expire_def split: if_splits)
  have c: "set (clientConns (srv s)) \<subseteq> h_client ` set (handlers s)" using inv by (auto simp: sock_inv_def)
  have "untracked (pw s) x" if "x \<in> h_client ` set (handlers s)" for x
    using inv that by (auto simp: sock_inv_def raw_socks_def raw_of_def)
  with c inv have wf: "wf_world ?w" by (intro wf_close_clients) (auto simp: sock_inv_def)
  show ?thesis
    by (rule sock_inv_envI [OF inv, where C = "set (clientConns (srv s))"])
      (use c wf quiet_close_clients pool_inv_moved [OF inv quiet_close_clients] in \<open>auto simp: t'\<close>)
qed

lemma sock_inv_env:
  assumes inv: "sock_inv s"
  shows "env_report b ok fall rise s = Some t \<Longrightarrow> sock_inv t"
    "env_drain b s = Some t \<Longrightarrow> sock_inv t"
    "env_addrs addrs s = Some t \<Longrightarrow> sock_inv t"
proof -
  have w: "wf_world (pw s)" "pool_inv (pw s) (ppool s)" using inv by (simp_all add: sock_inv_def)
  let ?r = "upd_backend b (\<lambda>x. fst (ReportHealth ok fall rise x)) (pw s)"
  have q: "quiet {} {} (pw s) ?r" by (rule quiet_upd_backend) (simp add: ReportHealth_frame)
  have wf: "wf_world ?r" by (rule wf_upd_backend [OF w(1)]) (simp add: ReportHealth_frame)
  show "sock_inv t" if "env_report b ok fall rise s = Some t"
    using that q wf pool_inv_moved [OF inv q]
    by (intro sock_inv_envI [OF inv, where C = "{}"]) (auto simp: env_report_def upd_backend_def)
  show "sock_inv t" if "env_drain b s = Some t"
  proof -
    from that have b: "b < length (bheap (pw s))" and t: "t = s\<lparr>pw := fst (DrainAll b (pw s))\<rparr>"
      by (auto simp: env_drain_def split: if_splits)
    note q = quiet_Drain [OF w(1) b]
    have "length (theap (fst (DrainAll b (pw s)))) = length (theap (pw s))" "length (sheap (fst (DrainAll b (pw s)))) = length (sheap (pw s))"
      by (simp_all add: DrainAll_closed_world [OF w(1) b] upd_backend_def)
    then show ?thesis
      using q wf_DrainAll [OF w(1) b] pool_inv_moved [OF inv q]
      by (intro sock_inv_envI [OF inv, where C = "{x. \<not> untracked (pw s) x}"]) (auto simp: t)
  qed
  show "sock_inv t" if "env_addrs addrs s = Some t"
  proof -
    obtain w' p ad rm where e: "SetAddrs addrs (pw s) (ppool s) = (w', p, ad, rm)" by (metis prod_cases4)
    with that have d: "distinct addrs" and t: "t = s\<lparr>pw := w', ppool := p\<rparr>"
      by (auto simp: env_addrs_def split: if_splits)
    have w': "w' = (pw s)\<lparr>bheap := bheap (pw s) @ map backend_New (filter (\<lambda>a. a \<notin> set (pool_addrs (pw s) (ppool s))) addrs)\<rparr>"
      by (rule SetAddrs_spec(1) [OF w(2) d e])
    show ?thesis
      by (rule sock_inv_envI [OF inv, where C = "{}"])
        (use quiet_SetAddrs [OF w(2) d e] SetAddrs_inv [OF w(2) d e] wf_alloc [OF w(1)] in \<open>simp_all add: t w'\<close>)
  qed
qed


definition pinv :: "pstate \<Rightarrow> bool" where
  "pinv s \<longleftrightarrow> sock_inv s \<and> length (backends (ppool s)) < 2 ^ 63"

lemma backends_next:
  assumes "handler_next opts i s = Some t" "length (backends (ppool s)) < 2 ^ 63"
  shows "backends (ppool t) = backends (ppool s)"
proof -
  obtain pk where "\<And>p order d. Candidates (pw s) (ppool s) = Inr (p, order, d) \<Longrightarrow> p = (ppool s)\<lparr>pool_picker := pk\<rparr>"
    using Candidates_cases [OF assms(2), of "pw s"] by (metis Pair_inject sum.inject(2))
  with assms(1) show ?thesis
    by (cases "h_pc (handlers s ! i)") (auto simp: handler_next_def Let_def split_beta split: if_splits sum.splits)
qed

lemma backends_addrs:
  assumes "sock_inv s" "env_addrs addrs s = Some t"
  shows "length (backends (ppool t)) < 2 ^ 63"
proof -
  obtain w' p ad rm where e: "SetAddrs addrs (pw s) (ppool s) = (w', p, ad, rm)" by (metis prod_cases4)
  with assms(2) have d: "distinct addrs" "length addrs < 2 ^ 63" and t: "ppool t = p"
    by (auto simp: env_addrs_def split: if_splits)
  have "pool_addrs w' p = addrs" by (rule SetAddrs_spec(2) [OF _ d(1) e]) (use assms(1) in \<open>simp add: sock_inv_def\<close>)
  then have "length (backends p) = length addrs" by (metis length_map pool_addrs_def)
  with d(2) t show ?thesis by simp
qed

lemma sock_inv_same:
  assumes "sock_inv s" "handlers t = handlers s" "pending t = pending s" "clientConns (srv t) = clientConns (srv s)"
    and "pw t = pw s" "ppool t = ppool s"
  shows "sock_inv t"
  using assms by (simp add: sock_inv_def raw_socks_def piped_def)

lemma pinv_exec:
  assumes inv: "pinv s" and a: "pexec opts a s = Some t"
  shows "pinv t"
proof -
  have s: "sock_inv s" "length (backends (ppool s)) < 2 ^ 63" using inv by (simp_all add: pinv_def)
  note calm = pinv_def pending_def
  show ?thesis
  proof (cases a)
    case AServe
    with a s show ?thesis
      by (auto simp: pexec_def serve_start_def Let_def calm split: if_splits intro!: sock_inv_same [OF s(1)])
  next
    case (AAcceptErr e)
    with a s show ?thesis
      by (auto simp: pexec_def serve_error_def calm split: if_splits intro!: sock_inv_same [OF s(1)])
  next
    case AShut
    with a s show ?thesis
      by (auto simp: pexec_def shut_next_def calm split: shut_pc.splits intro!: sock_inv_same [OF s(1)])
  next
    case AWaitDone
    with a s show ?thesis
      by (auto simp: pexec_def shut_wait_done_def calm split: if_splits intro!: sock_inv_same [OF s(1)])
  next
    case AReturn
    with a s show ?thesis
      by (auto simp: pexec_def shut_return_def calm split: if_splits intro!: sock_inv_same [OF s(1)])
  next
    case AAccept
    with a s sock_inv_accept [OF s(1)] show ?thesis
      by (auto simp: pexec_def pinv_def serve_accept_def dialed_def split: if_splits)
  next
    case ASpawn
    with a s sock_inv_spawn [OF s(1)] show ?thesis
      by (auto simp: pexec_def pinv_def serve_spawn_def split: serve_pc.splits)
  next
    case (AHandler i)
    with a have "handler_next opts i s = Some t" "i < length (handlers s)" by (auto simp: pexec_def split: if_splits)
    with s sock_inv_next [OF s(1,2)] backends_next show ?thesis by (simp add: pinv_def)
  next
    case (ADial i ok)
    with a have t: "handler_dial i ok s = Some t" "i < length (handlers s)" by (auto simp: pexec_def split: if_splits)
    have "ppool t = ppool s" using t(1) by (auto simp: handler_dial_def dialed_def split: hpc.splits list.splits if_splits)
    with t s sock_inv_dial [OF s(1)] show ?thesis by (simp add: pinv_def)
  next
    case (ACopy i sd d)
    with a have t: "handler_copy i sd d s = Some t" "i < length (handlers s)" by (auto simp: pexec_def split: if_splits)
    have "ppool t = ppool s" using t(1) by (auto simp: handler_copy_def Let_def split: hpc.splits option.splits)
    with t s sock_inv_copy [OF s(1)] show ?thesis by (simp add: pinv_def)
  next
    case AExpire
    with a s sock_inv_expire [OF s(1)] show ?thesis by (auto simp: pexec_def pinv_def shut_expire_def split: if_splits)
  next
    case (AReport b ok fall rise)
    with a s sock_inv_env(1) [OF s(1)] show ?thesis by (auto simp: pexec_def pinv_def env_report_def)
  next
    case (ADrain b)
    with a s sock_inv_env(2) [OF s(1)] show ?thesis by (auto simp: pexec_def pinv_def env_drain_def split: if_splits)
  next
    case (ASetAddrs addrs)
    with a sock_inv_env(3) [OF s(1)] backends_addrs [OF s(1)] show ?thesis by (simp add: pexec_def pinv_def)
  qed
qed

interpretation psock: inductive_invariant "pstep opts" pinv for opts
  by unfold_locales (auto elim!: pstep.cases intro: pinv_exec)


section \<open>From the start\<close>

definition empty_world :: world where
  "empty_world = \<lparr>bheap = [], theap = [], sheap = []\<rparr>"

lemma pinit_inv:
  assumes new: "NewPool addrs name empty_world = Inr (w, pool)" and addrs: "distinct addrs" "length addrs < 2 ^ 63"
  shows "pinv (pinit (bheap w) pool)" "srv_inv (pinit (bheap w) pool)"
proof -
  have pool: "backends pool = [0..<length addrs]" and w: "bheap w = map backend_New addrs"
    using new alloc_backends_result [of addrs empty_world] by (auto simp: NewPool_def empty_world_def res_bind_Inr_iff)
  have "pool_addrs \<lparr>bheap = bheap w, theap = [], sheap = []\<rparr> pool = addrs"
    by (rule nth_equalityI) (simp_all add: pool_addrs_def pool w Addr_def backend_New_def)
  with addrs pool w show "pinv (pinit (bheap w) pool)"
    by (auto simp: pinv_def sock_inv_def pinit_def raw_socks_def piped_def pending_def pool_inv_def wf_world_def
        Server_New_def backend_New_def)
  show "srv_inv (pinit (bheap w) pool)"
    by (simp add: srv_inv_def pinit_def Server_New_def in_flight_def pending_def)
qed

lemma pexecs_reaches: "pexecs opts as s = Some t \<Longrightarrow> reaches (pstep opts) s t"
proof (induction "as" arbitrary: s)
  case (Cons a as)
  then obtain u where "pexec opts a s = Some u" "pexecs opts as u = Some t" by (auto split: option.splits)
  with Cons.IH show ?case by (meson pstep.act reaches_step reaches_trans)
qed (simp add: reaches.here)

text \<open>Without work in flight nothing is tracked and no client is registered.\<close>

lemma idle_clean:
  assumes inv: "sock_inv s" and idle: "in_flight s = 0"
  shows "clientConns (srv s) = []" "b < length (bheap (pw s)) \<Longrightarrow> ActiveConns (bheap (pw s) ! b) = 0"
proof -
  have "\<not> alive h" if "h \<in> set (handlers s)" for h using idle that by (simp add: in_flight_def filter_empty_conv)
  then have ended: "h_pc h = HDone" if "h \<in> set (handlers s)" for h using that by (auto simp: alive_def)
  then have "set (clientConns (srv s)) = {}" using inv by (auto simp: sock_inv_def registered_pc_def)
  then show "clientConns (srv s) = []" by simp
  show "ActiveConns (bheap (pw s) ! b) = 0" if b: "b < length (bheap (pw s))"
  proof -
    have wf: "wf_world (pw s)" using inv by (simp add: sock_inv_def)
    have "piped s = []" using ended by (auto simp: piped_def tc_of_def)
    then have "tc_once (theap (pw s) ! tc)" if "tc < length (theap (pw s))" for tc using inv that by (auto simp: sock_inv_def)
    then have "tc \<notin> set (conns (bheap (pw s) ! b))" for tc using wf_conns_iff [OF wf b] by blast
    then have "conns (bheap (pw s) ! b) = []" by (metis list.set_intros(1) neq_Nil_conv)
    then show ?thesis by (simp add: ActiveConns_def)
  qed
qed

text \<open>The facts about a piping handler of a reachable state.\<close>

lemma piping_facts:
  assumes inv: "sock_inv s" and i: "i < length (handlers s)" and pc: "h_pc (handlers s ! i) = HPiping tc db dc"
  shows "tc < length (theap (pw s))" "tc_Conn (theap (pw s) ! tc) < length (sheap (pw s))"
    "h_client (handlers s ! i) < length (sheap (pw s))" "tc_Conn (theap (pw s) ! tc) \<noteq> h_client (handlers s ! i)"
    "pipe_ok (sheap (pw s) ! h_client (handlers s ! i)) (sheap (pw s) ! tc_Conn (theap (pw s) ! tc)) db dc"
proof -
  note f = handler_facts [OF inv handlers_split [OF i]]
  show tc: "tc < length (theap (pw s))"
    and "pipe_ok (sheap (pw s) ! h_client (handlers s ! i)) (sheap (pw s) ! tc_Conn (theap (pw s) ! tc)) db dc"
    using f(1) pc by (simp_all add: handler_ok_def)
  show "h_client (handlers s ! i) < length (sheap (pw s))" "tc_Conn (theap (pw s) ! tc) \<noteq> h_client (handlers s ! i)"
    using f(3) [of "h_client (handlers s ! i)"] tc by (auto simp: raw_of_def untracked_def)
  show "tc_Conn (theap (pw s) ! tc) < length (sheap (pw s))" using inv wf_tracked(1) [OF _ tc] by (simp add: sock_inv_def)
qed

lemma set_hpc_copy:
  "set_hpc i p ((set_hpc i q (s\<lparr>pw := v\<rparr>))\<lparr>pw := w\<rparr>) = set_hpc i p (s\<lparr>pw := w\<rparr>)"
  "pw (set_hpc i q (s\<lparr>pw := v\<rparr>)) = v" "length (handlers (set_hpc i q (s\<lparr>pw := v\<rparr>))) = length (handlers s)"
  "i < length (handlers s) \<Longrightarrow> handlers (set_hpc i q (s\<lparr>pw := v\<rparr>)) ! i = (handlers s ! i)\<lparr>h_pc := q\<rparr>"
  by (cases "i < length (handlers s)"; simp add: set_hpc_def list_update_beyond)+

text \<open>The calls of one direction, run by its goroutine.\<close>

definition with_dir :: "side \<Rightarrow> tcid \<Rightarrow> dir \<Rightarrow> dir \<Rightarrow> hpc" where
  "with_dir sd tc d d' = (case sd of ToBackend \<Rightarrow> HPiping tc d d' | ToClient \<Rightarrow> HPiping tc d' d)"

lemma copies_run:
  assumes "dir_execs as sd (h_client (handlers s ! i)) tc (pw s) d = Some (w, e)" "as \<noteq> []"
    and "i < length (handlers s)" "h_pc (handlers s ! i) = with_dir sd tc d d'"
  shows "pexecs opts (map (ACopy i sd) as) s = Some (set_hpc i (with_dir sd tc e d') (s\<lparr>pw := w\<rparr>))"
  using assms
proof (induction "as" arbitrary: s d)
  case (Cons a as)
  from Cons.prems(1) obtain v f where v: "dir_exec a sd (h_client (handlers s ! i)) tc (pw s) d = Some (v, f)"
    "dir_execs as sd (h_client (handlers s ! i)) tc v f = Some (w, e)" by (auto split: option.splits)
  let ?s = "set_hpc i (with_dir sd tc f d') (s\<lparr>pw := v\<rparr>)"
  have one: "pexec opts (ACopy i sd a) s = Some ?s"
    using Cons.prems(3,4) v(1) by (cases sd) (simp_all add: pexec_def handler_copy_def with_dir_def)
  show ?case
  proof (cases "as = []")
    case True
    with one v(2) show ?thesis by simp
  next
    case False
    with Cons.IH [of ?s f] v(2) Cons.prems(3) one show ?thesis by (simp add: set_hpc_copy)
  qed
qed simp

lemma pexecs_append:
  "pexecs opts (as @ bs) s = (case pexecs opts as s of None \<Rightarrow> None | Some t \<Rightarrow> pexecs opts bs t)"
  by (induction "as" arbitrary: s) (auto split: option.splits)

lemma sock_Close_sent: "sent (sheap (fst (sock_Close c w)) ! x) = sent (sheap w ! x)"
  using map_field_list_update [of sent "\<lambda>x. x\<lparr>closed := True\<rparr>" "sheap w"] by (simp add: sock_Close_def)

lemma Close_sent: "sent (sheap (fst (Close tc w)) ! x) = sent (sheap w ! x)"
  by (simp add: Close_def Let_def sock_Close_sent) (simp add: tc_unregister_def upd_backend_def Let_def)

text \<open>The rest of \<open>handle\<close> once both directions have ended.\<close>

lemma handler_ends:
  assumes inv: "sock_inv s" and i: "i < length (handlers s)" and pc: "h_pc (handlers s ! i) = HPiping tc (DFinished x) (DFinished y)"
  shows "\<exists>u. pexecs opts (replicate 4 (AHandler i)) s = Some u \<and> h_pc (handlers u ! i) = HDone \<and>
    closed (sheap (pw u) ! h_client (handlers s ! i)) \<and> closed (sheap (pw u) ! tc_Conn (theap (pw s) ! tc)) \<and>
    (\<forall>x. sent (sheap (pw u) ! x) = sent (sheap (pw s) ! x)) \<and>
    h_client (handlers s ! i) \<notin> set (clientConns (srv u)) \<and> wg (srv u) = wg (srv s) - 1"
proof -
  let ?c = "h_client (handlers s ! i)" and ?b = "tc_Conn (theap (pw s) ! tc)" and ?v = "fst (Close tc (pw s))"
  note p = piping_facts [OF inv i pc]
  have v: "length (sheap ?v) = length (sheap (pw s))" "closed (sheap ?v ! ?b)" "sent (sheap ?v ! x) = sent (sheap (pw s) ! x)" for x
    using p(1,2) inv Close_sent [of tc "pw s"] by (auto simp: sock_inv_def Close_closed_world)
  have "pexecs opts (replicate 4 (AHandler i)) s = Some (set_hpc i HDone (s\<lparr>pw := fst (sock_Close ?c ?v),
      srv := (trackClient ?c False (srv s))\<lparr>wg := wg (srv s) - 1\<rparr>\<rparr>))"
    using i pc by (simp add: numeral_eq_Suc pexec_def handler_next_def dir_finished_def set_hpc_def trackClient_def)
  moreover have "closed (sheap (fst (sock_Close ?c ?v)) ! ?c)" "closed (sheap (fst (sock_Close ?c ?v)) ! ?b)"
    "sent (sheap (fst (sock_Close ?c ?v)) ! x) = sent (sheap ?v ! x)" for x
    using p v(1,2) by (simp_all add: sock_Close_sent) (simp_all add: sock_Close_def)
  ultimately show ?thesis using i v by (simp add: set_hpc_def trackClient_def)
qed

definition opposite :: "side \<Rightarrow> side" where
  "opposite sd = (case sd of ToBackend \<Rightarrow> ToClient | ToClient \<Rightarrow> ToBackend)"

lemma with_dir_opposite: "with_dir (opposite sd) tc d d' = with_dir sd tc d' d"
  by (cases sd) (simp_all add: with_dir_def opposite_def)

lemma direction_completes:
  assumes inv: "pinv s" and i: "i < length (handlers s)" and pc: "h_pc (handlers s ! i) = with_dir sd tc DCopying d'"
    and op: "\<not> closed (sheap (pw s) ! src_of sd (h_client (handlers s ! i)) tc (pw s))"
      "\<not> closed (sheap (pw s) ! dst_of sd (h_client (handlers s ! i)) tc (pw s))"
    and chunks: "\<forall>chunk \<in> set xs. chunk \<noteq> [] \<and> length chunk \<le> 32768"
  shows "\<exists>t. pexecs opts (map (ACopy i sd) (full_copy xs)) s = Some t \<and>
    handlers t = (handlers s)[i := (handlers s ! i)\<lparr>h_pc := with_dir sd tc (DFinished True) d'\<rparr>] \<and> srv t = srv s \<and>
    same_but_sent (dst_of sd (h_client (handlers s ! i)) tc (pw s)) (concat xs) (pw s) (pw t) \<and>
    write_closed (sheap (pw t) ! dst_of sd (h_client (handlers s ! i)) tc (pw s)) \<and> pinv t"
proof -
  let ?c = "h_client (handlers s ! i)"
  have "dst_of sd ?c tc (pw s) < length (sheap (pw s))" "has_CloseWrite (sheap (pw s) ! dst_of sd ?c tc (pw s))"
    "\<not> write_closed (sheap (pw s) ! dst_of sd ?c tc (pw s))"
    using piping_facts [OF _ i] inv pc by (cases sd; auto simp: pinv_def with_dir_def dst_of_def pipe_ok_def dir_finished_def)+
  from full_copy_effect [OF chunks this(1,2) op this(3)] obtain w where
    w: "dir_execs (full_copy xs) sd ?c tc (pw s) DCopying = Some (w, DFinished True)"
    "same_but_sent (dst_of sd ?c tc (pw s)) (concat xs) (pw s) w" "write_closed (sheap w ! dst_of sd ?c tc (pw s))" by blast
  have "full_copy xs \<noteq> []" by (simp add: full_copy_def)
  note run = copies_run [OF w(1) this i pc, of opts]
  with psock.reaches_inv [OF pexecs_reaches inv] w(2,3) show ?thesis by (simp add: set_hpc_def)
qed

text \<open>An open connection has an owner.\<close>

lemma open_owned:
  assumes inv: "sock_inv s"
  shows "\<forall>x < length (sheap (pw s)). closed (sheap (pw s) ! x) \<or> x \<in> set (pending s) \<or>
    (\<exists>h \<in> set (handlers s). alive h \<and> (x \<in> set (raw_of h) \<or> (\<exists>tc \<in> set (tc_of h). x = tc_Conn (theap (pw s) ! tc))))"
proof (intro allI impI)
  fix x assume x: "x < length (sheap (pw s))"
  have ended: "closed (sheap (pw s) ! h_client h)" if "h \<in> set (handlers s)" "\<not> alive h" for h
    using inv that by (auto simp: sock_inv_def handler_ok_def alive_def)
  have raw: "raw_of h = [h_client h]" "tc_of h = []" if "\<not> alive h" for h
    using that by (simp_all add: alive_def raw_of_def tc_of_def)
  consider "x \<in> set (raw_socks s)" | tc where "tc < length (theap (pw s))" "tc_Conn (theap (pw s) ! tc) = x"
    using inv x unfolding sock_inv_def untracked_def by blast
  then show "closed (sheap (pw s) ! x) \<or> x \<in> set (pending s) \<or>
    (\<exists>h \<in> set (handlers s). alive h \<and> (x \<in> set (raw_of h) \<or> (\<exists>tc \<in> set (tc_of h). x = tc_Conn (theap (pw s) ! tc))))"
  proof cases
    case 1
    then consider "x \<in> set (pending s)" | h where "h \<in> set (handlers s)" "x \<in> set (raw_of h)" by (auto simp: raw_socks_def)
    then show ?thesis using ended raw(1) by cases (blast, fastforce)
  next
    case 2
    have "wf_world (pw s)" using inv by (simp add: sock_inv_def)
    from wf_tracked(3) [OF this 2(1)] 2 have "closed (sheap (pw s) ! x) \<or> \<not> tc_once (theap (pw s) ! tc)" by simp
    moreover have "\<exists>h \<in> set (handlers s). alive h \<and> tc \<in> set (tc_of h)" if "\<not> tc_once (theap (pw s) ! tc)"
    proof -
      have "tc \<in> set (piped s)" using inv 2(1) that by (simp add: sock_inv_def)
      with raw(2) show ?thesis by (fastforce simp: piped_def)
    qed
    ultimately show ?thesis using 2(2) by blast
  qed
qed

text \<open>A call that waits for the network.\<close>

definition is_read :: "dir_act \<Rightarrow> bool" where
  "is_read a = (case a of DRead _ \<Rightarrow> True | DReadEnd _ \<Rightarrow> True | _ \<Rightarrow> False)"

text \<open>Schedules of the server with one backend, the one the witnesses and the last two properties use.\<close>

definition example_opts :: proxy_options where
  "example_opts = \<lparr>ProxyDialTimeout = 3000000000, ProxyKeepalivePeriod = 30000000000\<rparr>"

definition example_start :: pstate where
  "example_start = pinit [backend_New ''10.0.0.11:6443''] \<lparr>backends = [0], pool_picker = RoundRobin \<lparr>rr_next = 0\<rparr>\<rparr>"

text \<open>A client is accepted and connected to the backend.\<close>

definition connected :: "pact list" where
  "connected = [AServe, AAccept, ASpawn, AHandler 0, AHandler 0, ADial 0 True, AHandler 0]"

text \<open>It sends a request, the backend answers, both end, and the handler returns.\<close>

definition request_served :: "pact list" where
  "request_served = connected @
     [ACopy 0 ToBackend (DRead ''ping''), ACopy 0 ToBackend DWriteOk, ACopy 0 ToClient (DRead ''pong''),
      ACopy 0 ToBackend (DReadEnd True), ACopy 0 ToBackend DCloseWrite, ACopy 0 ToClient DWriteOk]"

definition client_gone :: "pact list" where
  "client_gone = request_served @
     [ACopy 0 ToClient (DReadEnd True), ACopy 0 ToClient DCloseWrite, AHandler 0, AHandler 0, AHandler 0, AHandler 0]"

definition shut_down :: "pact list" where
  "shut_down = client_gone @ [AShut, AShut, AWaitDone, AReturn]"

text \<open>\<open>Accept\<close> returns a connection just before \<open>Shutdown\<close> closes the listener; the wait group is still
  at zero when \<open>Shutdown\<close> waits, and the handler starts after it returned.\<close>

definition late_accept :: "pact list" where
  "late_accept = [AServe, AAccept, AShut, AShut, AWaitDone, AReturn, ASpawn, AHandler 0]"

text \<open>The backend stays silent; the grace expires and the client is force-closed.\<close>

definition forced :: "pact list" where
  "forced = connected @
     [AShut, AShut, AAcceptErr ''closed'', AExpire, ACopy 0 ToBackend (DReadEnd False), ACopy 0 ToBackend DCloseWrite]"

lemma example_start_eq:
  "\<exists>w. NewPool [''10.0.0.11:6443''] ''round-robin'' empty_world = Inr (w, ppool example_start) \<and>
     pinit (bheap w) (ppool example_start) = example_start"
  by (simp add: NewPool_def newPicker_def alloc_backend_def empty_world_def example_start_def pinit_def)

lemmas run_simps = connected_def request_served_def client_gone_def shut_down_def late_accept_def forced_def
  example_start_def pinit_def Server_New_def pexec_def serve_start_def serve_accept_def serve_error_def serve_spawn_def
  handler_next_def handler_dial_def handler_copy_def shut_next_def shut_wait_done_def shut_expire_def shut_return_def
  waiting_def set_hpc_def trackClient_def dialed_def Candidates_def Backends_def Healthy_def backend_New_def
  Picker_Order_def roundRobin_Order_def Track_def upd_backend_def add_ConnTotal_def dir_exec_def src_of_def dst_of_def
  new_sock_def dir_new_def dir_finished_def close_write_def CloseWrite_def sock_CloseWrite_def sock_Close_def Close_def
  tc_unregister_def sock_read_def sock_write_def Let_def

lemma example_runs:
  "map_option shut (pexecs example_opts request_served example_start) = Some ShIdle"
  "map_option shut (pexecs example_opts shut_down example_start) = Some ShReturned"
  by (simp_all add: run_simps)


section \<open>Properties\<close>

text \<open>C5: in every interleaving of the proxy with itself, the health checker and discovery, the bytes sent
  to the backend connection of a piped pair are a prefix of those received from its client connection, in
  order and unchanged, and the other way round; once a direction has reached the end of its source they
  are all of them. A write side is shut down only after the direction into it has ended, and an ended
  direction leaves it shut down (or finds the connection closed already). No call of a direction closes a
  connection, so a half-close never cuts the other direction.\<close>

theorem proxy_passthrough:
  assumes new: "NewPool addrs name empty_world = Inr (w, pool)" "distinct addrs" "length addrs < 2 ^ 63"
    and run: "reaches (pstep opts) (pinit (bheap w) pool) s"
    and i: "i < length (handlers s)" "h_pc (handlers s ! i) = HPiping tc db dc"
    and c: "c = sheap (pw s) ! h_client (handlers s ! i)" and b: "b = sheap (pw s) ! tc_Conn (theap (pw s) ! tc)"
  shows "prefix (sent b) (received c) \<and> prefix (sent c) (received b) \<and>
    (db = DFinished True \<longrightarrow> sent b = received c) \<and> (dc = DFinished True \<longrightarrow> sent c = received b) \<and>
    (write_closed b \<longrightarrow> dir_finished db) \<and> (write_closed c \<longrightarrow> dir_finished dc) \<and>
    (dir_finished db \<longrightarrow> write_closed b \<or> closed b) \<and> (dir_finished dc \<longrightarrow> write_closed c \<or> closed c) \<and>
    (\<forall>sd a t x. pexec opts (ACopy i sd a) s = Some t \<longrightarrow> closed (sheap (pw t) ! x) = closed (sheap (pw s) ! x))"
proof -
  have "sock_inv s" using psock.reaches_inv [OF run pinit_inv(1) [OF new]] by (simp add: pinv_def)
  then have ok: "pipe_ok c b db dc" unfolding b c by (rule piping_facts(5) [OF _ i])
  have "closed (sheap (pw t) ! x) = closed (sheap (pw s) ! x)" if "pexec opts (ACopy i sd a) s = Some t" for sd a t x
    using that i ok copy_closed [of a sd "h_client (handlers s ! i)" tc "pw s"]
    by (auto simp: pexec_def handler_copy_def pipe_ok_def c set_hpc_def split: option.splits)
  with ok dir_ok_prefix show ?thesis by (auto simp: pipe_ok_def dir_ok_def)
qed

theorem proxy_passthrough_witness:
  "\<exists>s. pexecs example_opts request_served example_start = Some s \<and>
     h_pc (handlers s ! 0) = HPiping 0 (DFinished True) DCopying \<and>
     sent (sheap (pw s) ! 1) = ''ping'' \<and> sent (sheap (pw s) ! 0) = ''pong'' \<and> write_closed (sheap (pw s) ! 1) \<and>
     prefix (sent (sheap (pw s) ! 0)) (received (sheap (pw s) ! 1)) \<and> sent (sheap (pw s) ! 1) = received (sheap (pw s) ! 0)"
proof -
  obtain w where w: "NewPool [''10.0.0.11:6443''] ''round-robin'' empty_world = Inr (w, ppool example_start)"
    "pinit (bheap w) (ppool example_start) = example_start" using example_start_eq by blast
  have "\<exists>s. pexecs example_opts request_served example_start = Some s \<and>
      handlers s = [\<lparr>h_client = 0, h_pc = HPiping 0 (DFinished True) DCopying\<rparr>] \<and> tc_Conn (theap (pw s) ! 0) = 1 \<and>
      sent (sheap (pw s) ! 1) = ''ping'' \<and> sent (sheap (pw s) ! 0) = ''pong'' \<and> write_closed (sheap (pw s) ! 1)"
    by (simp add: run_simps)
  then obtain s where s: "pexecs example_opts request_served example_start = Some s"
    "handlers s = [\<lparr>h_client = 0, h_pc = HPiping 0 (DFinished True) DCopying\<rparr>]" "tc_Conn (theap (pw s) ! 0) = 1"
    "sent (sheap (pw s) ! 1) = ''ping''" "sent (sheap (pw s) ! 0) = ''pong''" "write_closed (sheap (pw s) ! 1)" by blast
  have "reaches (pstep example_opts) (pinit (bheap w) (ppool example_start)) s"
    using pexecs_reaches [OF s(1)] w(2) by simp
  from proxy_passthrough [OF w(1) _ _ this _ _ refl refl, of 0 0 "DFinished True" DCopying] s show ?thesis by simp
qed

text \<open>C6: the proxy leaks nothing: the connections a backend counts as in flight are each piped by exactly
  one handler, the registry of clients holds exactly the clients of the handlers between registering
  and unregistering, the wait group counts the handlers that have not ended, and every connection that is
  still open, accepted or dialed, is the one \<open>Serve\<close> has just accepted or belongs to a handler that has
  not ended: a handler that has ended leaves both its connections closed.\<close>

theorem proxy_no_leak:
  assumes new: "NewPool addrs name empty_world = Inr (w, pool)" "distinct addrs" "length addrs < 2 ^ 63"
    and run: "reaches (pstep opts) (pinit (bheap w) pool) s"
  shows "(\<forall>b < length (bheap (pw s)). set (conns (bheap (pw s) ! b)) \<subseteq> set (piped s)) \<and> distinct (piped s) \<and>
    set (clientConns (srv s)) = h_client ` {h \<in> set (handlers s). registered_pc (h_pc h)} \<and>
    wg (srv s) = length (filter alive (handlers s)) \<and>
    (\<forall>h \<in> set (handlers s). h_pc h = HDone \<longrightarrow> closed (sheap (pw s) ! h_client h)) \<and>
    (\<forall>x < length (sheap (pw s)). closed (sheap (pw s) ! x) \<or> x \<in> set (pending s) \<or>
       (\<exists>h \<in> set (handlers s). alive h \<and> (x \<in> set (raw_of h) \<or> (\<exists>tc \<in> set (tc_of h). x = tc_Conn (theap (pw s) ! tc)))))"
proof -
  have inv: "sock_inv s" using psock.reaches_inv [OF run pinit_inv(1) [OF new]] by (simp add: pinv_def)
  then have wf: "wf_world (pw s)" by (simp add: sock_inv_def)
  have "set (conns (bheap (pw s) ! b)) \<subseteq> set (piped s)" if "b < length (bheap (pw s))" for b
    using inv wf_conns_iff [OF wf that] by (auto simp: sock_inv_def)
  moreover have "closed (sheap (pw s) ! h_client h)" if "h \<in> set (handlers s)" "h_pc h = HDone" for h
  proof -
    have "handler_ok (pw s) h" using inv that(1) by (simp add: sock_inv_def)
    with that(2) show ?thesis by (simp add: handler_ok_def)
  qed
  moreover have "wg (srv s) = length (filter alive (handlers s))"
    using psrv.reaches_inv [OF run pinit_inv(2) [OF new]] by (simp add: srv_inv_def)
  ultimately show ?thesis using inv open_owned [OF inv] by (simp add: sock_inv_def)
qed

theorem proxy_no_leak_witness:
  "\<exists>s. pexecs example_opts shut_down example_start = Some s \<and> wg (srv s) = 0 \<and> length (sheap (pw s)) = 2 \<and>
     closed (sheap (pw s) ! 0) \<and> closed (sheap (pw s) ! 1)"
proof -
  obtain w where w: "NewPool [''10.0.0.11:6443''] ''round-robin'' empty_world = Inr (w, ppool example_start)"
    "pinit (bheap w) (ppool example_start) = example_start" using example_start_eq by blast
  have "\<exists>s. pexecs example_opts shut_down example_start = Some s \<and> pending s = [] \<and>
      handlers s = [\<lparr>h_client = 0, h_pc = HDone\<rparr>] \<and> length (sheap (pw s)) = 2"
    by (simp add: run_simps pending_def)
  then obtain s where s: "pexecs example_opts shut_down example_start = Some s" "pending s = []"
    "handlers s = [\<lparr>h_client = 0, h_pc = HDone\<rparr>]" "length (sheap (pw s)) = 2" by blast
  have "reaches (pstep example_opts) (pinit (bheap w) (ppool example_start)) s" using pexecs_reaches [OF s(1)] w(2) by simp
  from proxy_no_leak [OF w(1) _ _ this] s show ?thesis by (auto simp: alive_def)
qed

text \<open>C9: when \<open>Shutdown\<close> has returned, at most one connection is still being handled, one that \<open>Accept\<close>
  had returned before the listener was closed; if there is none, every backend is free of connections
  and no client is registered.\<close>

theorem shutdown_drains:
  assumes new: "NewPool addrs name empty_world = Inr (w, pool)" "distinct addrs" "length addrs < 2 ^ 63"
    and run: "reaches (pstep opts) (pinit (bheap w) pool) s" and returned: "shut s = ShReturned"
  shows "in_flight s \<le> 1 \<and>
    (in_flight s = 0 \<longrightarrow> clientConns (srv s) = [] \<and> (\<forall>b < length (bheap (pw s)). ActiveConns (bheap (pw s) ! b) = 0))"
proof -
  have "srv_inv s" by (rule psrv.reaches_inv [OF run pinit_inv(2) [OF new]])
  with returned have "in_flight s \<le> 1" by (simp add: srv_inv_def)
  moreover have "sock_inv s" using psock.reaches_inv [OF run pinit_inv(1) [OF new]] by (simp add: pinv_def)
  ultimately show ?thesis using idle_clean by blast
qed

theorem shutdown_drains_witness:
  "\<exists>s. pexecs example_opts shut_down example_start = Some s \<and> shut s = ShReturned \<and> in_flight s \<le> 1"
proof -
  obtain w where w: "NewPool [''10.0.0.11:6443''] ''round-robin'' empty_world = Inr (w, ppool example_start)"
    "pinit (bheap w) (ppool example_start) = example_start" using example_start_eq by blast
  obtain s where s: "pexecs example_opts shut_down example_start = Some s" "shut s = ShReturned" using example_runs(2) by auto
  have "reaches (pstep example_opts) (pinit (bheap w) (ppool example_start)) s" using pexecs_reaches [OF s(1)] w(2) by simp
  from shutdown_drains [OF w(1) _ _ this s(2)] s show ?thesis by simp
qed

text \<open>C31: a half-closed connection is served to its end: when both directions of a handler are copying and
  one side, client or backend, sends \<open>xs\<close> and ends its stream, the other side gets all of it and the end of
  the stream while both connections stay open and the opposite direction goes on; whatever \<open>ys\<close> the other
  side then answers before it ends is delivered too, and the handler ends with both connections closed, its
  client unregistered and the wait group one lower.\<close>

theorem half_close_completes:
  assumes new: "NewPool addrs name empty_world = Inr (w, pool)" "distinct addrs" "length addrs < 2 ^ 63"
    and run: "reaches (pstep opts) (pinit (bheap w) pool) s"
    and i: "i < length (handlers s)" "h_pc (handlers s ! i) = HPiping tc DCopying DCopying"
    and src: "src = src_of sd (h_client (handlers s ! i)) tc (pw s)" "\<not> closed (sheap (pw s) ! src)"
    and dst: "dst = dst_of sd (h_client (handlers s ! i)) tc (pw s)" "\<not> closed (sheap (pw s) ! dst)"
    and chunks: "\<forall>chunk \<in> set xs \<union> set ys. chunk \<noteq> [] \<and> length chunk \<le> 32768"
  shows "\<exists>t u. pexecs opts (map (ACopy i sd) (full_copy xs)) s = Some t \<and>
    h_pc (handlers t ! i) = with_dir sd tc (DFinished True) DCopying \<and>
    sent (sheap (pw t) ! dst) = sent (sheap (pw s) ! dst) @ concat xs \<and> write_closed (sheap (pw t) ! dst) \<and>
    \<not> closed (sheap (pw t) ! dst) \<and> \<not> closed (sheap (pw t) ! src) \<and> \<not> write_closed (sheap (pw t) ! src) \<and>
    pexecs opts (map (ACopy i (opposite sd)) (full_copy ys) @ replicate 4 (AHandler i)) t = Some u \<and>
    sent (sheap (pw u) ! src) = sent (sheap (pw s) ! src) @ concat ys \<and>
    h_pc (handlers u ! i) = HDone \<and> closed (sheap (pw u) ! src) \<and> closed (sheap (pw u) ! dst) \<and>
    h_client (handlers s ! i) \<notin> set (clientConns (srv u)) \<and> wg (srv u) = wg (srv s) - 1"
proof -
  let ?h = "handlers s ! i"
  have inv: "pinv s" by (rule psock.reaches_inv [OF run pinit_inv(1) [OF new]])
  have pc: "h_pc ?h = with_dir sd tc DCopying DCopying" using i(2) by (cases sd) (simp_all add: with_dir_def)
  have ne: "src \<noteq> dst" "\<not> write_closed (sheap (pw s) ! src)"
    using piping_facts [OF _ i] inv src(1) dst(1)
    by (cases sd; auto simp: pinv_def src_of_def dst_of_def pipe_ok_def dir_finished_def)+
  obtain t where t: "pexecs opts (map (ACopy i sd) (full_copy xs)) s = Some t"
    "handlers t = (handlers s)[i := ?h\<lparr>h_pc := with_dir sd tc (DFinished True) DCopying\<rparr>]" "srv t = srv s"
    "same_but_sent dst (concat xs) (pw s) (pw t)" "write_closed (sheap (pw t) ! dst)" "pinv t"
    using direction_completes [OF inv i(1) pc, of xs opts] src dst chunks by auto
  have ht: "i < length (handlers t)" "handlers t ! i = ?h\<lparr>h_pc := with_dir (opposite sd) tc DCopying (DFinished True)\<rparr>"
    "theap (pw t) = theap (pw s)"
    using i(1) t by (simp_all add: with_dir_opposite same_but_sent_def)
  have ends: "src_of (opposite sd) (h_client ?h) tc (pw t) = dst" "dst_of (opposite sd) (h_client ?h) tc (pw t) = src"
    using ht(3) src(1) dst(1) by (cases sd; simp add: src_of_def dst_of_def opposite_def)+
  obtain v where v: "pexecs opts (map (ACopy i (opposite sd)) (full_copy ys)) t = Some v"
    "handlers v = (handlers t)[i := (handlers t ! i)\<lparr>h_pc := with_dir (opposite sd) tc (DFinished True) (DFinished True)\<rparr>]"
    "srv v = srv t" "same_but_sent src (concat ys) (pw t) (pw v)" "pinv v"
    using direction_completes [OF t(6) ht(1), of "opposite sd" tc "DFinished True" ys opts] t(4) src(2) dst(2) chunks
    by (auto simp: ht(2) ends same_but_sent_def)
  have hv: "i < length (handlers v)" "handlers v ! i = ?h\<lparr>h_pc := HPiping tc (DFinished True) (DFinished True)\<rparr>"
    "theap (pw v) = theap (pw s)"
    using ht v by (cases sd; simp add: with_dir_def same_but_sent_def opposite_def)+
  obtain u where u: "pexecs opts (replicate 4 (AHandler i)) v = Some u" "h_pc (handlers u ! i) = HDone"
    "closed (sheap (pw u) ! h_client ?h)" "closed (sheap (pw u) ! tc_Conn (theap (pw s) ! tc))"
    "\<forall>x. sent (sheap (pw u) ! x) = sent (sheap (pw v) ! x)"
    "h_client ?h \<notin> set (clientConns (srv u))" "wg (srv u) = wg (srv v) - 1"
    using handler_ends [OF _ hv(1), of tc True True opts] v(5) by (auto simp: hv(2,3) pinv_def)
  have "closed (sheap (pw u) ! src)" "closed (sheap (pw u) ! dst)"
    using u(3,4) src(1) dst(1) by (cases sd; simp add: src_of_def dst_of_def)+
  with t v u ht ne src(2) dst(2) show ?thesis
    by (intro exI [of _ t] exI [of _ u]) (simp add: pexecs_append with_dir_opposite same_but_sent_def)
qed

theorem half_close_completes_witness:
  "\<exists>s t u. pexecs example_opts connected example_start = Some s \<and>
     pexecs example_opts (map (ACopy 0 ToBackend) (full_copy [''GET /''])) s = Some t \<and>
     sent (sheap (pw t) ! 1) = ''GET /'' \<and> write_closed (sheap (pw t) ! 1) \<and> \<not> closed (sheap (pw t) ! 1) \<and>
     pexecs example_opts (map (ACopy 0 ToClient) (full_copy [''HTTP'', ''/1.1'']) @ replicate 4 (AHandler 0)) t = Some u \<and>
     sent (sheap (pw u) ! 0) = ''HTTP/1.1'' \<and> h_pc (handlers u ! 0) = HDone \<and>
     closed (sheap (pw u) ! 0) \<and> closed (sheap (pw u) ! 1)"
proof -
  obtain w where w: "NewPool [''10.0.0.11:6443''] ''round-robin'' empty_world = Inr (w, ppool example_start)"
    "pinit (bheap w) (ppool example_start) = example_start" using example_start_eq by blast
  have "\<exists>s. pexecs example_opts connected example_start = Some s \<and>
      handlers s = [\<lparr>h_client = 0, h_pc = HPiping 0 DCopying DCopying\<rparr>] \<and> tc_Conn (theap (pw s) ! 0) = 1 \<and>
      sheap (pw s) = [new_sock, new_sock]"
    by (simp add: run_simps)
  then obtain s where s: "pexecs example_opts connected example_start = Some s"
    "handlers s = [\<lparr>h_client = 0, h_pc = HPiping 0 DCopying DCopying\<rparr>]" "tc_Conn (theap (pw s) ! 0) = 1"
    "sheap (pw s) = [new_sock, new_sock]" by blast
  have r: "reaches (pstep example_opts) (pinit (bheap w) (ppool example_start)) s" using pexecs_reaches [OF s(1)] w(2) by simp
  have e: "src_of ToBackend 0 0 (pw s) = 0" "dst_of ToBackend 0 0 (pw s) = 1" using s(3) by (simp_all add: src_of_def dst_of_def)
  from half_close_completes [OF w(1) _ _ r, of 0 0 0 ToBackend 1 "[''GET /'']" "[''HTTP'', ''/1.1'']"] s e show ?thesis
    by (simp add: opposite_def) (auto simp: new_sock_def)
qed

text \<open>\<open>Shutdown\<close> can return while a connection is being served: the one \<open>Accept\<close> returned before the
  listener was closed is added to the wait group after \<open>Shutdown\<close> has seen it at zero.\<close>

theorem shutdown_accept_race:
  "\<exists>s. pexecs example_opts late_accept example_start = Some s \<and> shut s = ShReturned \<and> in_flight s = 1 \<and>
     clientConns (srv s) = [0] \<and> \<not> closed (sheap (pw s) ! 0)"
  by (simp add: run_simps in_flight_def pending_def alive_def)

text \<open>after the grace period \<open>Shutdown\<close> force-closes the clients only; with a backend that sends
  nothing and does not close, neither the handler nor \<open>Shutdown\<close> has a step left but to wait for the
  backend.\<close>

theorem shutdown_waits_for_backend:
  "\<exists>s. pexecs example_opts forced example_start = Some s \<and> shut s = ShForced 1 \<and> closed (sheap (pw s) ! 0) \<and>
     pexec example_opts AWaitDone s = None \<and> pexec example_opts AReturn s = None \<and> pexec example_opts (AHandler 0) s = None \<and>
     (\<forall>sd a. if sd = ToClient \<and> is_read a then True else pexec example_opts (ACopy 0 sd a) s = None)"
proof -
  have "\<exists>s. pexecs example_opts forced example_start = Some s \<and> shut s = ShForced 1 \<and> closed (sheap (pw s) ! 0) \<and>
      pexec example_opts AWaitDone s = None \<and> pexec example_opts AReturn s = None \<and> pexec example_opts (AHandler 0) s = None \<and>
      h_pc (handlers s ! 0) = HPiping 0 (DFinished False) dir_new"
    by (simp add: run_simps)
  moreover have "if sd = ToClient \<and> is_read a then True else pexec example_opts (ACopy 0 sd a) s = None"
    if "h_pc (handlers s ! 0) = HPiping 0 (DFinished False) dir_new" for s sd a
    by (cases sd; cases a) (simp_all add: that pexec_def handler_copy_def dir_exec_def dir_new_def is_read_def)
  ultimately show ?thesis by blast
qed

end
