(* ===== verification/Metrics.thy ===== *)
theory Metrics
  imports Pool GoStrings
begin

text \<open>
  \<^verbatim>\<open>src/internal/metrics/metrics.go\<close>: the endpoints \<open>/healthz\<close>, \<open>/readyz\<close> and \<open>/metrics\<close>.

  A response is its status, the \<open>Content-Type\<close> the handler sets and its body. \<open>http.ServeMux\<close> routes a
  clean path to the handler registered under it and answers 404 otherwise. The specification side is a
  reader of the Prometheus text format, \<open>parse_metrics\<close>.
\<close>

section \<open>Endpoints\<close>

record response =
  resp_status :: int
  resp_type :: "string option"
  resp_body :: string

abbreviation nl :: char where
  "nl \<equiv> CHR 0x0A"

abbreviation dquote :: char where
  "dquote \<equiv> CHR 0x22"

abbreviation backslash :: char where
  "backslash \<equiv> CHR 0x5C"

definition healthz :: response where
  "healthz = \<lparr>resp_status = 200, resp_type = None, resp_body = ''ok'' @ [nl]\<rparr>"

text \<open>\<open>http.Error\<close> adds a line end and sets the type.\<close>

definition readyz :: "world \<Rightarrow> Pool \<Rightarrow> response" where
  "readyz w pool =
     (if HealthyCount w pool = 0
      then \<lparr>resp_status = 503, resp_type = Some ''text/plain; charset=utf-8'', resp_body = ''no healthy backends'' @ [nl]\<rparr>
      else \<lparr>resp_status = 200, resp_type = None, resp_body = ''ok'' @ [nl]\<rparr>)"


section \<open>Metric families\<close>

record family =
  fname :: string
  fkind :: string
  fhelp :: string
  fvalue :: "backend \<Rightarrow> u64"

definition families :: "family list" where
  "families =
     [\<lparr>fname = ''apiserver_lb_backend_healthy'', fkind = ''gauge'',
       fhelp = ''Whether the backend is currently considered healthy (1) or not (0).'',
       fvalue = (\<lambda>b. if Healthy b then 1 else 0)\<rparr>,
      \<lparr>fname = ''apiserver_lb_backend_connections'', fkind = ''gauge'',
       fhelp = ''Number of in-flight proxied connections to the backend.'',
       fvalue = (\<lambda>b. of_nat (ActiveConns b))\<rparr>,
      \<lparr>fname = ''apiserver_lb_connections_total'', fkind = ''counter'',
       fhelp = ''Total connections proxied to the backend.'',
       fvalue = (\<lambda>b. ConnsTotal (stats b))\<rparr>,
      \<lparr>fname = ''apiserver_lb_dial_errors_total'', fkind = ''counter'',
       fhelp = ''Total failed dial attempts to the backend.'',
       fvalue = (\<lambda>b. DialErrors (stats b))\<rparr>,
      \<lparr>fname = ''apiserver_lb_health_check_failures_total'', fkind = ''counter'',
       fhelp = ''Total failed health probes against the backend.'',
       fvalue = (\<lambda>b. CheckFailures (stats b))\<rparr>,
      \<lparr>fname = ''apiserver_lb_connections_drained_total'', fkind = ''counter'',
       fhelp = ''Total connections force-closed because the backend turned unhealthy or was removed.'',
       fvalue = (\<lambda>b. Drained (stats b))\<rparr>]"

text \<open>A replacer with one-byte patterns works byte by byte.\<close>

definition escape_byte :: "char \<Rightarrow> string" where
  "escape_byte c =
     (if c = backslash then [backslash, backslash]
      else if c = dquote then [backslash, dquote]
      else if c = nl then [backslash, CHR ''n'']
      else [c])"

definition escapeLabel :: "string \<Rightarrow> string" where
  "escapeLabel s = concat (map escape_byte s)"

definition sample_line :: "string \<Rightarrow> string \<Rightarrow> u64 \<Rightarrow> string" where
  "sample_line name a v = name @ ''{server='' @ dquote # escapeLabel a @ dquote # ''} '' @ nat_digits (unat v)"

definition family_lines :: "world \<Rightarrow> bid list \<Rightarrow> family \<Rightarrow> string list" where
  "family_lines w bs f =
     (''# HELP '' @ fname f @ '' '' @ fhelp f) # (''# TYPE '' @ fname f @ '' '' @ fkind f) #
     map (\<lambda>b. sample_line (fname f) (Addr (bheap w ! b)) (fvalue f (bheap w ! b))) bs"

definition writeMetrics :: "world \<Rightarrow> Pool \<Rightarrow> string" where
  "writeMetrics w pool =
     (let bs = Backends pool in concat (map (\<lambda>f. concat (map (\<lambda>l. l @ [nl]) (family_lines w bs f))) families))"

definition NewHandler :: "world \<Rightarrow> Pool \<Rightarrow> string \<Rightarrow> response" where
  "NewHandler w pool path =
     (if path = ''/healthz'' then healthz
      else if path = ''/readyz'' then readyz w pool
      else if path = ''/metrics'' then
        \<lparr>resp_status = 200, resp_type = Some ''text/plain; version=0.0.4; charset=utf-8'', resp_body = writeMetrics w pool\<rparr>
      else \<lparr>resp_status = 404, resp_type = Some ''text/plain; charset=utf-8'', resp_body = ''404 page not found'' @ [nl]\<rparr>)"


section \<open>Reading the text format\<close>

text \<open>A quoted label value: the value and what follows the closing quote.\<close>

fun read_label :: "string \<Rightarrow> (string \<times> string) option" where
  "read_label [] = None"
| "read_label (c # r) =
     (if c = dquote then Some ([], r)
      else if c = backslash then
        (case r of
           [] \<Rightarrow> None
         | e # r' \<Rightarrow>
             if e = backslash \<or> e = dquote then map_option (\<lambda>(l, t). (e # l, t)) (read_label r')
             else if e = CHR ''n'' then map_option (\<lambda>(l, t). (nl # l, t)) (read_label r')
             else None)
      else map_option (\<lambda>(l, t). (c # l, t)) (read_label r))"

definition parse_sample :: "string \<Rightarrow> (string \<times> string \<times> nat) option" where
  "parse_sample line =
     (case IndexByte line CHR ''{'' of
        None \<Rightarrow> None
      | Some i \<Rightarrow>
          let rest = drop i line in
          if prefix (''{server='' @ [dquote]) rest then
            (case read_label (drop 9 rest) of
               None \<Rightarrow> None
             | Some (label, t) \<Rightarrow>
                 let d = drop 2 t in
                 if prefix ''} '' t \<and> d \<noteq> [] \<and> list_all is_digit d then Some (take i line, label, nat (digits_val d)) else None)
          else None)"

fun parse_lines :: "string list \<Rightarrow> (string \<times> string \<times> nat) list option" where
  "parse_lines [] = Some []"
| "parse_lines (l # ls) =
     (if l = [] \<or> prefix ''#'' l then parse_lines ls
      else
        (case parse_sample l of
           None \<Rightarrow> None
         | Some s \<Rightarrow> map_option (\<lambda>ss. s # ss) (parse_lines ls)))"

definition parse_metrics :: "string \<Rightarrow> (string \<times> string \<times> nat) list option" where
  "parse_metrics body = parse_lines (Split body nl)"

definition expected_samples :: "world \<Rightarrow> Pool \<Rightarrow> (string \<times> string \<times> nat) list" where
  "expected_samples w pool =
     concat (map (\<lambda>f. map (\<lambda>b. (fname f, Addr (bheap w ! b), unat (fvalue f (bheap w ! b)))) (backends pool)) families)"


section \<open>Lemmas\<close>

lemma escapeLabel_Cons: "escapeLabel (c # s) = escape_byte c @ escapeLabel s"
  by (simp add: escapeLabel_def)

lemma escapeLabel_no_newline: "nl \<notin> set (escapeLabel s)"
  by (induction s) (auto simp: escapeLabel_Cons escape_byte_def escapeLabel_def)

lemma read_label_escape: "read_label (escapeLabel s @ dquote # t) = Some (s, t)"
  by (induction s) (auto simp: escapeLabel_Cons escape_byte_def escapeLabel_def)

text \<open>Names a family may have: no brace, no line end, not a comment.\<close>

definition name_ok :: "string \<Rightarrow> bool" where
  "name_ok n \<longleftrightarrow> n \<noteq> [] \<and> hd n \<noteq> CHR ''#'' \<and> CHR ''{'' \<notin> set n \<and> nl \<notin> set n"

lemma parse_sample_line: "name_ok n \<Longrightarrow> parse_sample (sample_line n a v) = Some (n, a, unat v)"
  using nat_digits_ok [of "unat v"] IndexByte_None_iff [of n "CHR ''{''"]
  by (simp add: parse_sample_def sample_line_def name_ok_def read_label_escape IndexByte_append Let_def)

lemma sample_line_plain:
  assumes "name_ok n"
  shows "nl \<notin> set (sample_line n a v)" "sample_line n a v \<noteq> []" "\<not> prefix ''#'' (sample_line n a v)"
proof -
  have "nl \<notin> set (nat_digits (unat v))" using nat_digits_set is_digit_def by fastforce
  then show "nl \<notin> set (sample_line n a v)"
    using assms escapeLabel_no_newline [of a] by (auto simp: sample_line_def name_ok_def)
  show "sample_line n a v \<noteq> []" "\<not> prefix ''#'' (sample_line n a v)"
    using assms by (cases n; auto simp: sample_line_def name_ok_def)+
qed

lemma Split_lines: "\<forall>l \<in> set ls. nl \<notin> set l \<Longrightarrow> Split (concat (map (\<lambda>l. l @ [nl]) ls)) nl = ls @ [[]]"
  by (induction ls) (simp_all add: Split_append)

lemma concat_map_lines: "concat (map g (concat (map h fs))) = concat (map (\<lambda>f. concat (map g (h f))) fs)"
  by (induction fs) simp_all

lemma parse_lines_append:
  "parse_lines (as @ bs) =
     (case parse_lines as of None \<Rightarrow> None | Some xs \<Rightarrow> map_option (\<lambda>ys. xs @ ys) (parse_lines bs))"
proof (induction "as")
  case Nil
  show ?case by (cases "parse_lines bs") simp_all
next
  case (Cons a as)
  then show ?case by (cases "parse_lines bs") (auto split: option.splits)
qed

definition family_ok :: "family \<Rightarrow> bool" where
  "family_ok f \<longleftrightarrow> name_ok (fname f) \<and> nl \<notin> set (fhelp f) \<and> nl \<notin> set (fkind f)"

lemma families_ok: "list_all family_ok families"
  by (simp add: families_def family_ok_def name_ok_def)

lemma family_lines_plain: "family_ok f \<Longrightarrow> l \<in> set (family_lines w bs f) \<Longrightarrow> nl \<notin> set l"
  using sample_line_plain(1) [of "fname f"] by (auto simp: family_lines_def family_ok_def) (simp_all add: name_ok_def)

lemma parse_family_lines:
  assumes "family_ok f"
  shows "parse_lines (family_lines w bs f) = Some (map (\<lambda>b. (fname f, Addr (bheap w ! b), unat (fvalue f (bheap w ! b)))) bs)"
proof -
  have ok: "name_ok (fname f)" using assms by (simp add: family_ok_def)
  have "parse_lines (map (\<lambda>b. sample_line (fname f) (Addr (bheap w ! b)) (fvalue f (bheap w ! b))) bs) =
      Some (map (\<lambda>b. (fname f, Addr (bheap w ! b), unat (fvalue f (bheap w ! b)))) bs)"
    by (induction bs) (simp_all add: parse_sample_line [OF ok] sample_line_plain [OF ok])
  then show ?thesis by (simp add: family_lines_def)
qed

lemma parse_families:
  "list_all family_ok fs \<Longrightarrow> parse_lines (concat (map (family_lines w bs) fs)) =
     Some (concat (map (\<lambda>f. map (\<lambda>b. (fname f, Addr (bheap w ! b), unat (fvalue f (bheap w ! b)))) bs) fs))"
  by (induction fs) (simp_all add: parse_lines_append parse_family_lines)


section \<open>Properties\<close>

text \<open>C35: a reader of the Prometheus text format gets back from \<open>/metrics\<close> exactly one sample per family
  and backend, with the backend's address as the label and the value of its counter, whatever bytes the
  addresses contain.\<close>

theorem metrics_parse_back: "parse_metrics (resp_body (NewHandler w pool ''/metrics'')) = Some (expected_samples w pool)"
proof -
  let ?ls = "concat (map (family_lines w (backends pool)) families)"
  have "writeMetrics w pool = concat (map (\<lambda>l. l @ [nl]) ?ls)"
    by (simp add: writeMetrics_def Let_def Backends_def concat_map_lines)
  moreover have "\<forall>l \<in> set ?ls. nl \<notin> set l"
    using families_ok family_lines_plain by (auto simp: list_all_iff)
  ultimately have "Split (writeMetrics w pool) nl = ?ls @ [[]]" using Split_lines [of ?ls] by simp
  then show ?thesis
    using parse_families [OF families_ok, of w "backends pool"]
    by (simp add: NewHandler_def parse_metrics_def parse_lines_append expected_samples_def)
qed

text \<open>\<open>/readyz\<close> answers 200 exactly when the proxy would not be in best-effort mode, that is when
  some backend of the pool is healthy, and 503 otherwise; \<open>/healthz\<close> always answers 200.\<close>

theorem readyz_iff_healthy:
  "resp_status (NewHandler w pool ''/readyz'') = (if \<exists>b \<in> set (backends pool). Healthy (bheap w ! b) then 200 else 503) \<and>
   resp_status (NewHandler w pool ''/healthz'') = 200"
  by (auto simp: NewHandler_def readyz_def healthz_def HealthyCount_def Backends_def filter_empty_conv)

end
