(* ===== verification/GoFlag.thy ===== *)
theory GoFlag
  imports GoStrings Complex_Main "HOL-Library.Log_Nat"
begin

text \<open>
  What \<^verbatim>\<open>config.Parse\<close> uses of Go's standard library: \<open>strconv.ParseBool\<close>, \<open>strconv.ParseInt\<close> with base
  0, \<open>time.ParseDuration\<close> and the argument loop of \<open>flag.FlagSet.Parse\<close>. Every error of a conversion is
  \<open>None\<close>: the flag package only reports that the value is invalid. Fractions of a unit go through
  \<open>float64\<close> in the library, so \<open>f64\<close> is rounding to 53 significant bits, ties to even; the values that
  occur are far from the limits of the exponent.
\<close>

section \<open>Booleans and integers\<close>

definition ParseBool :: "string \<Rightarrow> bool option" where
  "ParseBool s =
     (if s \<in> set [''1'', ''t'', ''T'', ''TRUE'', ''true'', ''True''] then Some True
      else if s \<in> set [''0'', ''f'', ''F'', ''FALSE'', ''false'', ''False''] then Some False
      else None)"

text \<open>\<open>lower(c) = c | ('x' - 'X')\<close>, used on letters only.\<close>

definition lower :: "char \<Rightarrow> char" where
  "lower c = (if 65 \<le> code c \<and> code c \<le> 90 then chr (code c + 32) else c)"

definition base_digit :: "char \<Rightarrow> nat option" where
  "base_digit c =
     (if is_digit c then Some (digit_val c)
      else if 97 \<le> code (lower c) \<and> code (lower c) \<le> 122 then Some (code (lower c) - 97 + 10)
      else None)"

text \<open>The digit loop of \<open>ParseUint\<close>; the limit of 64 bits is checked on the result.\<close>

fun uint_loop :: "nat \<Rightarrow> nat \<Rightarrow> string \<Rightarrow> nat option" where
  "uint_loop base n [] = Some n"
| "uint_loop base n (c # cs) =
     (if c = CHR ''_'' then uint_loop base n cs
      else
        (case base_digit c of
           None \<Rightarrow> None
         | Some d \<Rightarrow> if base \<le> d then None else uint_loop base (n * base + d) cs))"

text \<open>\<open>underscoreOK\<close>: the class of the character seen last is digit, underscore or other.\<close>

datatype last_seen = LStart | LDigit | LUnderscore | LOther

fun underscore_loop :: "bool \<Rightarrow> last_seen \<Rightarrow> string \<Rightarrow> bool" where
  "underscore_loop hex l [] = (l \<noteq> LUnderscore)"
| "underscore_loop hex l (c # cs) =
     (if is_digit c \<or> hex \<and> 97 \<le> code (lower c) \<and> code (lower c) \<le> 102 then underscore_loop hex LDigit cs
      else if c = CHR ''_'' then (if l \<noteq> LDigit then False else underscore_loop hex LUnderscore cs)
      else if l = LUnderscore then False
      else underscore_loop hex LOther cs)"

definition base_prefix :: "string \<Rightarrow> nat \<times> string" where
  "base_prefix s =
     (case s of
        c0 # c1 # r \<Rightarrow>
          if c0 \<noteq> CHR ''0'' then (10, s)
          else if r \<noteq> [] \<and> lower c1 = CHR ''b'' then (2, r)
          else if r \<noteq> [] \<and> lower c1 = CHR ''o'' then (8, r)
          else if r \<noteq> [] \<and> lower c1 = CHR ''x'' then (16, r)
          else (8, c1 # r)
      | [c0] \<Rightarrow> if c0 = CHR ''0'' then (8, []) else (10, s)
      | [] \<Rightarrow> (10, s))"

definition underscoreOK :: "string \<Rightarrow> bool" where
  "underscoreOK s =
     (case s of
        c0 # c1 # r \<Rightarrow>
          if c0 = CHR ''0'' \<and> (lower c1 = CHR ''b'' \<or> lower c1 = CHR ''o'' \<or> lower c1 = CHR ''x'')
          then underscore_loop (lower c1 = CHR ''x'') LDigit r else underscore_loop False LStart s
      | _ \<Rightarrow> underscore_loop False LStart s)"

definition ParseUint :: "string \<Rightarrow> nat option" where
  "ParseUint s =
     (if s = [] then None
      else
        let (base, r) = base_prefix s in
        case uint_loop base 0 r of
          None \<Rightarrow> None
        | Some n \<Rightarrow> if n \<ge> 2 ^ 64 \<or> CHR ''_'' \<in> set r \<and> \<not> underscoreOK s then None else Some n)"

definition ParseInt :: "string \<Rightarrow> int option" where
  "ParseInt s =
     (case s of
        [] \<Rightarrow> None
      | c # r \<Rightarrow>
          let neg = (c = CHR ''-''); u = (if c = CHR ''+'' \<or> neg then r else s) in
          (case ParseUint u of
             None \<Rightarrow> None
           | Some n \<Rightarrow>
               if neg then (if n > 2 ^ 63 then None else Some (- int n))
               else (if n \<ge> 2 ^ 63 then None else Some (int n))))"


section \<open>Durations\<close>

text \<open>\<open>float64\<close> rounding of a positive rational.\<close>

definition round_even :: "rat \<Rightarrow> int" where
  "round_even r =
     (let k = \<lfloor>r\<rfloor>; d = r - of_int k in
      if d < 1 / 2 then k else if d > 1 / 2 then k + 1 else if even k then k else k + 1)"

definition ilog2 :: "rat \<Rightarrow> int" where
  "ilog2 r =
     (let (p, q) = quotient_of r; e = int (floorlog 2 (nat p)) - int (floorlog 2 (nat q))
      in if 2 powi e \<le> r then e else e - 1)"

definition f64 :: "rat \<Rightarrow> rat" where
  "f64 r = (if r \<le> 0 then 0 else let u = 2 powi (ilog2 r - 52) in of_int (round_even (r / u)) * u)"

text \<open>\<open>uint64(float64(f) * (float64(unit) / scale))\<close> for a fraction \<open>f\<close> of \<open>k\<close> digits.\<close>

definition frac_part :: "nat \<Rightarrow> nat \<Rightarrow> nat \<Rightarrow> nat" where
  "frac_part f k unit = nat \<lfloor>f64 (f64 (of_nat f) * f64 (of_nat unit / 10 ^ k))\<rfloor>"

fun leadingInt :: "nat \<Rightarrow> string \<Rightarrow> (nat \<times> string) option" where
  "leadingInt x [] = Some (x, [])"
| "leadingInt x (c # cs) =
     (if \<not> is_digit c then Some (x, c # cs)
      else if x > 2 ^ 63 div 10 then None
      else
        let y = x * 10 + digit_val c
        in if y > 2 ^ 63 then None else leadingInt y cs)"

text \<open>The digits of a fraction, how many of them count, and the rest.\<close>

fun leadingFraction :: "nat \<Rightarrow> nat \<Rightarrow> bool \<Rightarrow> string \<Rightarrow> nat \<times> nat \<times> string" where
  "leadingFraction x k overflow [] = (x, k, [])"
| "leadingFraction x k overflow (c # cs) =
     (if \<not> is_digit c then (x, k, c # cs)
      else if overflow \<or> x > (2 ^ 63 - 1) div 10 \<or> x * 10 + digit_val c > 2 ^ 63 then leadingFraction x k True cs
      else leadingFraction (x * 10 + digit_val c) (Suc k) False cs)"

definition unitMap :: "string \<Rightarrow> nat option" where
  "unitMap u =
     map_of [(''ns'', 1), (''us'', 1000), ([CHR 0xC2, CHR 0xB5, CHR ''s''], 1000), ([CHR 0xCE, CHR 0xBC, CHR ''s''], 1000),
       (''ms'', 1000000), (''s'', 1000000000), (''m'', 60000000000), (''h'', 3600000000000)] u"

lemma leadingInt_length: "leadingInt x s = Some (v, r) \<Longrightarrow> length r \<le> length s"
  by (induction x s rule: leadingInt.induct) (auto simp: Let_def split: if_splits)

lemma leadingFraction_length: "leadingFraction x k ov s = (f, j, r) \<Longrightarrow> length r \<le> length s"
  by (induction x k ov s rule: leadingFraction.induct) (auto split: if_splits)

text \<open>One turn of the loop: a number with its unit, in nanoseconds, and the rest of the string.\<close>

definition duration_part :: "string \<Rightarrow> (nat \<times> string) option" where
  "duration_part s =
     (if \<not> (s ! 0 = CHR ''.'' \<or> is_digit (s ! 0)) then None
      else
        case leadingInt 0 s of
          None \<Rightarrow> None
        | Some (v, s1) \<Rightarrow>
            let pre = (length s1 \<noteq> length s);
                dot = (s1 \<noteq> [] \<and> hd s1 = CHR ''.'');
                (f, k, s2) = (if dot then leadingFraction 0 0 False (tl s1) else (0, 0, s1));
                post = (dot \<and> length s2 \<noteq> length (tl s1));
                u = takeWhile (\<lambda>c. \<not> (c = CHR ''.'' \<or> is_digit c)) s2;
                s3 = drop (length u) s2
            in
            if \<not> pre \<and> \<not> post \<or> u = [] then None
            else
              (case unitMap u of
                 None \<Rightarrow> None
               | Some unit \<Rightarrow>
                   if v > 2 ^ 63 div unit then None
                   else
                     let v = v * unit + (if f > 0 then frac_part f k unit else 0)
                     in if v > 2 ^ 63 then None else Some (v, s3)))"

lemma duration_part_shorter:
  assumes "duration_part s = Some (v, r)" "s \<noteq> []"
  shows "length r < length s"
proof -
  obtain x s1 where l: "leadingInt 0 s = Some (x, s1)" using assms(1) by (auto simp: duration_part_def split: if_splits option.splits)
  let ?dot = "s1 \<noteq> [] \<and> hd s1 = CHR ''.''"
  obtain f k s2 where f: "(if ?dot then leadingFraction 0 0 False (tl s1) else (0, 0, s1)) = (f, k, s2)" by (metis prod_cases3)
  let ?u = "takeWhile (\<lambda>c. \<not> (c = CHR ''.'' \<or> is_digit c)) s2"
  have "length s2 \<le> length s1" using f leadingFraction_length [of 0 0 False "tl s1"] by (auto split: if_splits dest!: leadingFraction_length)
  moreover have "r = drop (length ?u) s2" "?u \<noteq> []"
    using assms(1) by (auto simp: duration_part_def l f Let_def split: if_splits option.splits)
  moreover have "0 < length ?u" "length ?u \<le> length s2" using \<open>?u \<noteq> []\<close> by (simp_all add: length_takeWhile_le)
  ultimately show ?thesis using leadingInt_length [OF l] by (simp del: length_greater_0_conv)
qed

function duration_loop :: "nat \<Rightarrow> string \<Rightarrow> nat option" where
  "duration_loop d s =
     (if s = [] then Some d
      else
        case duration_part s of
          None \<Rightarrow> None
        | Some (v, r) \<Rightarrow>
            let d = (d + v) mod 2 ^ 64
            in if d > 2 ^ 63 then None else duration_loop d r)"
  by pat_completeness auto
termination
  by (relation "measure (\<lambda>(d, s). length s)") (auto dest: duration_part_shorter)

declare duration_loop.simps [simp del]

definition ParseDuration :: "string \<Rightarrow> int option" where
  "ParseDuration s0 =
     (let neg = (s0 \<noteq> [] \<and> hd s0 = CHR ''-'');
          s = (if s0 \<noteq> [] \<and> (hd s0 = CHR ''-'' \<or> hd s0 = CHR ''+'') then tl s0 else s0)
      in
      if s = ''0'' then Some 0
      else if s = [] then None
      else
        (case duration_loop 0 s of
           None \<Rightarrow> None
         | Some d \<Rightarrow> if neg then Some (- int d) else if d > 2 ^ 63 - 1 then None else Some (int d)))"


section \<open>Flag sets\<close>

text \<open>A flag of a set: how its value is converted and stored in the state \<open>'c\<close>.\<close>

datatype 'c flag =
    StringVar "string \<Rightarrow> 'c \<Rightarrow> 'c"
  | BoolVar "bool \<Rightarrow> 'c \<Rightarrow> 'c"
  | IntVar "int \<Rightarrow> 'c \<Rightarrow> 'c"
  | DurationVar "int \<Rightarrow> 'c \<Rightarrow> 'c"

datatype flag_error =
    BadSyntax string
  | HelpRequested
  | NotDefined string
  | NeedsArgument string
  | InvalidValue string string

definition flag_Set :: "'c flag \<Rightarrow> string \<Rightarrow> 'c \<Rightarrow> 'c option" where
  "flag_Set f v c =
     (case f of
        StringVar upd \<Rightarrow> Some (upd v c)
      | BoolVar upd \<Rightarrow> map_option (\<lambda>b. upd b c) (ParseBool v)
      | IntVar upd \<Rightarrow> map_option (\<lambda>n. upd n c) (ParseInt v)
      | DurationVar upd \<Rightarrow> map_option (\<lambda>n. upd n c) (ParseDuration v))"

definition is_BoolVar :: "'c flag \<Rightarrow> bool" where
  "is_BoolVar f = (case f of BoolVar _ \<Rightarrow> True | _ \<Rightarrow> False)"

text \<open>\<open>-name=value\<close>: the name ends at the first equals sign after its first byte.\<close>

definition split_name :: "string \<Rightarrow> string \<times> string option" where
  "split_name n =
     (case IndexByte (tl n) CHR ''='' of
        None \<Rightarrow> (n, None)
      | Some i \<Rightarrow> (take (Suc i) n, Some (drop (i + 2) n)))"

definition flag_name :: "string \<Rightarrow> string" where
  "flag_name s = (if s ! 1 = CHR ''-'' then drop 2 s else drop 1 s)"

text \<open>The loop over the arguments: the state, the names set so far and the positional arguments.\<close>

fun FlagSet_Parse :: "(string \<times> 'c flag) list \<Rightarrow> 'c \<Rightarrow> string list \<Rightarrow> string list \<Rightarrow>
    (flag_error, 'c \<times> string list \<times> string list) res" where
  "FlagSet_Parse flags c actual [] = Inr (c, actual, [])"
| "FlagSet_Parse flags c actual (s # args) =
     (if length s < 2 \<or> hd s \<noteq> CHR ''-'' then Inr (c, actual, s # args)
      else if s = ''--'' then Inr (c, actual, args)
      else
        let n = flag_name s in
        if n = [] \<or> hd n = CHR ''-'' \<or> hd n = CHR ''='' then Inl (BadSyntax s)
        else
          let (name, value) = split_name n in
          case map_of flags name of
            None \<Rightarrow> if name = ''help'' \<or> name = ''h'' then Inl HelpRequested else Inl (NotDefined name)
          | Some f \<Rightarrow>
              let store = (\<lambda>v k. case flag_Set f v c of None \<Rightarrow> Inl (InvalidValue name v) | Some c' \<Rightarrow> k c') in
              (case value of
                 Some v \<Rightarrow> store v (\<lambda>c'. FlagSet_Parse flags c' (List.insert name actual) args)
               | None \<Rightarrow>
                   if is_BoolVar f then store ''true'' (\<lambda>c'. FlagSet_Parse flags c' (List.insert name actual) args)
                   else
                     (case args of
                        [] \<Rightarrow> Inl (NeedsArgument name)
                      | v # args' \<Rightarrow> store v (\<lambda>c'. FlagSet_Parse flags c' (List.insert name actual) args'))))"


section \<open>Numbers read back\<close>

abbreviation digit_fold :: "nat \<Rightarrow> string \<Rightarrow> nat" where
  "digit_fold n ds \<equiv> foldl (\<lambda>n c. n * 10 + digit_val c) n ds"

lemma digits_val_fold: "digits_val ds = int (digit_fold 0 ds)"
proof -
  have "foldl (\<lambda>n c. n * 10 + int (digit_val c)) (int m) ds = int (digit_fold m ds)" for m
  proof (induction ds arbitrary: m)
    case (Cons c ds)
    from Cons.IH [of "m * 10 + digit_val c"] show ?case by (simp only: foldl_Cons of_nat_add of_nat_mult of_nat_numeral)
  qed simp
  from this [of 0] show ?thesis by (simp add: digits_val_def)
qed

lemma digit_fold_nat_digits: "digit_fold 0 (nat_digits n) = n"
  using nat_digits_ok [of n] by (simp add: digits_val_fold)

lemma digit_val_lt: "is_digit c \<Longrightarrow> digit_val c < 10"
  by (auto simp: is_digit_def digit_val_def)

lemma digit_no_underscore: "is_digit c \<Longrightarrow> c \<noteq> CHR ''_''"
  by (auto simp: is_digit_def)

lemma uint_loop_digits: "list_all is_digit ds \<Longrightarrow> uint_loop 10 n ds = Some (digit_fold n ds)"
  by (induction ds arbitrary: n) (auto simp: base_digit_def digit_no_underscore not_le dest: digit_val_lt)

lemma nat_digits_hd: "0 < n \<Longrightarrow> hd (nat_digits n) \<noteq> CHR ''0''"
proof (induction n rule: nat_digits.induct)
  case (1 n)
  show ?case
  proof (cases "n < 10")
    case True
    have "chr (48 + n) \<noteq> CHR ''0''"
    proof
      assume "chr (48 + n) = CHR ''0''"
      then have "code (chr (48 + n)) = 48" by simp
      with of_char_digit [OF True] 1(2) show False by simp
    qed
    with True show ?thesis by (simp add: nat_digits.simps [of n])
  next
    case False
    with 1 nat_digits_ok [of "n div 10"] show ?thesis by (simp add: nat_digits.simps [of n])
  qed
qed

lemma nat_digits_0: "nat_digits 0 = ''0''"
  by (simp add: nat_digits.simps char_of_eq_iff)

lemma base_prefix_digits: "0 < n \<Longrightarrow> base_prefix (nat_digits n) = (10, nat_digits n)"
  using nat_digits_hd [of n] by (auto simp: base_prefix_def split: list.splits)

lemma ParseUint_nat_digits: "n < 2 ^ 64 \<Longrightarrow> ParseUint (nat_digits n) = Some n"
proof (cases "n = 0")
  case True
  then show ?thesis by (simp add: nat_digits_0 ParseUint_def base_prefix_def)
next
  case False
  assume "n < 2 ^ 64"
  moreover have "CHR ''_'' \<notin> set (nat_digits n)" using nat_digits_set digit_no_underscore by blast
  ultimately show ?thesis
    using False nat_digits_ok [of n] by (simp add: ParseUint_def base_prefix_digits uint_loop_digits digit_fold_nat_digits)
qed

lemma ParseInt_Itoa:
  assumes "- (2 ^ 63) \<le> i" "i < 2 ^ 63"
  shows "ParseInt (Itoa i) = Some i"
proof (cases "i < 0")
  case True
  with assms ParseUint_nat_digits [of "nat (- i)"] show ?thesis
    by (simp add: ParseInt_def Itoa_def nat_less_iff nat_le_iff)
next
  case False
  obtain c cs where d: "nat_digits (nat i) = c # cs" "is_digit c" using nat_digits_cases by blast
  with False assms ParseUint_nat_digits [of "nat i"] show ?thesis
    using digit_not_sign [OF d(2)] by (simp add: ParseInt_def Itoa_def nat_less_iff Let_def)
qed

lemma digit_fold_ge: "n \<le> digit_fold n ds"
proof (induction ds arbitrary: n)
  case (Cons c ds)
  from Cons.IH [of "n * 10 + digit_val c"] show ?case by simp
qed simp

lemma leadingInt_digits:
  assumes "list_all is_digit ds" "digit_fold x ds \<le> 2 ^ 63" "rest = [] \<or> \<not> is_digit (hd rest)"
  shows "leadingInt x (ds @ rest) = Some (digit_fold x ds, rest)"
  using assms
proof (induction ds arbitrary: x)
  case Nil
  then show ?case by (cases rest) simp_all
next
  case (Cons c ds)
  have le: "x * 10 + digit_val c \<le> 2 ^ 63" using Cons.prems(2) digit_fold_ge [of "x * 10 + digit_val c" ds] by simp
  then have "\<not> 2 ^ 63 div 10 < x" by simp
  with le Cons show ?case by (simp add: Let_def not_less)
qed

lemma ParseDuration_ns:
  assumes "0 \<le> n" "n < 2 ^ 63"
  shows "ParseDuration (Itoa n @ ''ns'') = Some n"
proof -
  let ?d = "nat_digits (nat n)"
  obtain c cs where d: "?d = c # cs" "is_digit c" using nat_digits_cases by blast
  have li: "leadingInt 0 (?d @ ''ns'') = Some (nat n, ''ns'')"
    using leadingInt_digits [of ?d 0 "''ns''"] nat_digits_ok [of "nat n"] assms
    by (simp add: digit_fold_nat_digits nat_le_iff is_digit_def)
  have part: "duration_part (?d @ ''ns'') = Some (nat n, [])"
  proof -
    have "is_digit ((?d @ ''ns'') ! 0)" "\<not> 2 ^ 63 < nat n" "length ''ns'' \<noteq> length (?d @ ''ns'')"
      using d assms by (simp_all add: not_less nat_le_iff)
    moreover have "takeWhile (\<lambda>c. \<not> (c = CHR ''.'' \<or> is_digit c)) ''ns'' = ''ns''" by (simp add: is_digit_def)
    moreover have "unitMap ''ns'' = Some 1" by (simp add: unitMap_def)
    ultimately show ?thesis unfolding duration_part_def li by (simp add: Let_def)
  qed
  have "duration_loop 0 (?d @ ''ns'') = Some (nat n)"
    using part assms
    by (simp add: duration_loop.simps [of 0] duration_loop.simps [of _ "[]"] Let_def not_less nat_less_iff nat_le_iff)
  with assms d digit_not_sign [OF d(2)] show ?thesis
    by (simp add: ParseDuration_def Itoa_def Let_def nat_le_iff not_less)
qed

text \<open>An argument \<open>--name=value\<close>.\<close>

lemma FlagSet_Parse_eq:
  assumes "name \<noteq> []" "hd name \<noteq> CHR ''-''" "CHR ''='' \<notin> set name" "map_of flags name = Some f" "flag_Set f v c = Some c'"
  shows "FlagSet_Parse flags c actual ((''--'' @ name @ CHR ''='' # v) # args) =
    FlagSet_Parse flags c' (List.insert name actual) args"
proof -
  obtain a as where n: "name = a # as" using assms(1) by (cases name) auto
  have "split_name (name @ CHR ''='' # v) = (name, Some v)"
    using assms(3) IndexByte_None_iff [of as "CHR ''=''"] by (simp add: split_name_def n IndexByte_append)
  with assms show ?thesis by (auto simp: flag_name_def n Let_def)
qed

end
