(* ===== verification/ConfigParse.thy ===== *)
theory ConfigParse
  imports Config GoFlag
begin

text \<open>
  \<^verbatim>\<open>src/internal/config/config.go\<close>, \<open>Parse\<close>: the flags of the program, their defaults, and the
  configuration a command line gives. The state of the flag set is the configuration and the local
  variable \<open>serversCSV\<close>. The specification side is a printer of command lines, \<open>config_args\<close>.
\<close>

section \<open>Flags and defaults\<close>

datatype parse_error = PFlag flag_error | Positional "string list"

text \<open>\<open>time.Second\<close> in nanoseconds.\<close>

definition Second :: int where
  "Second = 1000000000"

definition default_config :: Config where
  "default_config =
     \<lparr>Listen = ''127.0.0.1:6443'', Servers = [], Balance = ''round-robin'', HealthCheckMode = ''readyz'',
      HealthInterval = 3 * Second, HealthTimeout = 3 * Second, Fall = 2, Rise = 2, DialTimeout = 3 * Second,
      CAFile = [], InsecureSkipVerify = True, KeepalivePeriod = 30 * Second, MetricsListen = [],
      LogLevel = ''info'', LogFormat = ''text'', AllowNonLoopback = False, ShutdownGrace = 10 * Second,
      ShowVersion = False, DiscoveryKubeconfig = [], DiscoveryInterval = 30 * Second, StateFile = [], explicit = []\<rparr>"

definition Parse_flags :: "(string \<times> (Config \<times> string) flag) list" where
  "Parse_flags =
     [(''listen'', StringVar (\<lambda>v. apfst (Listen_update (\<lambda>_. v)))),
      (''servers'', StringVar (\<lambda>v. apsnd (\<lambda>_. v))),
      (''balance'', StringVar (\<lambda>v. apfst (Balance_update (\<lambda>_. v)))),
      (''health-check-mode'', StringVar (\<lambda>v. apfst (HealthCheckMode_update (\<lambda>_. v)))),
      (''health-interval'', DurationVar (\<lambda>v. apfst (HealthInterval_update (\<lambda>_. v)))),
      (''health-timeout'', DurationVar (\<lambda>v. apfst (HealthTimeout_update (\<lambda>_. v)))),
      (''fall'', IntVar (\<lambda>v. apfst (Fall_update (\<lambda>_. v)))),
      (''rise'', IntVar (\<lambda>v. apfst (Rise_update (\<lambda>_. v)))),
      (''dial-timeout'', DurationVar (\<lambda>v. apfst (DialTimeout_update (\<lambda>_. v)))),
      (''ca-file'', StringVar (\<lambda>v. apfst (CAFile_update (\<lambda>_. v)))),
      (''insecure-skip-verify'', BoolVar (\<lambda>v. apfst (InsecureSkipVerify_update (\<lambda>_. v)))),
      (''keepalive-period'', DurationVar (\<lambda>v. apfst (KeepalivePeriod_update (\<lambda>_. v)))),
      (''metrics-listen'', StringVar (\<lambda>v. apfst (MetricsListen_update (\<lambda>_. v)))),
      (''log-level'', StringVar (\<lambda>v. apfst (LogLevel_update (\<lambda>_. v)))),
      (''log-format'', StringVar (\<lambda>v. apfst (LogFormat_update (\<lambda>_. v)))),
      (''allow-non-loopback'', BoolVar (\<lambda>v. apfst (AllowNonLoopback_update (\<lambda>_. v)))),
      (''shutdown-grace'', DurationVar (\<lambda>v. apfst (ShutdownGrace_update (\<lambda>_. v)))),
      (''version'', BoolVar (\<lambda>v. apfst (ShowVersion_update (\<lambda>_. v)))),
      (''discovery-kubeconfig'', StringVar (\<lambda>v. apfst (DiscoveryKubeconfig_update (\<lambda>_. v)))),
      (''discovery-interval'', DurationVar (\<lambda>v. apfst (DiscoveryInterval_update (\<lambda>_. v)))),
      (''state-file'', StringVar (\<lambda>v. apfst (StateFile_update (\<lambda>_. v))))]"

definition Parse :: "string list \<Rightarrow> (parse_error, Config) res" where
  "Parse args =
     (case FlagSet_Parse Parse_flags (default_config, []) [] args of
        Inl e \<Rightarrow> Inl (PFlag e)
      | Inr ((cfg, serversCSV), actual, rest) \<Rightarrow>
          if length rest > 0 then Inl (Positional rest)
          else
            let cfg = cfg\<lparr>explicit := actual\<rparr> in
            Inr (if serversCSV \<noteq> [] then cfg\<lparr>Servers := splitServers serversCSV\<rparr> else cfg))"


section \<open>Printing a configuration\<close>

fun join_commas :: "string list \<Rightarrow> string" where
  "join_commas [] = []"
| "join_commas [s] = s"
| "join_commas (s # s' # ss) = s @ CHR '','' # join_commas (s' # ss)"

definition show_duration :: "int \<Rightarrow> string" where
  "show_duration d = Itoa d @ ''ns''"

definition show_bool :: "bool \<Rightarrow> string" where
  "show_bool b = (if b then ''true'' else ''false'')"

definition flag_values :: "Config \<Rightarrow> (string \<times> string) list" where
  "flag_values c =
     [(''listen'', Listen c), (''servers'', join_commas (Servers c)), (''balance'', Balance c),
      (''health-check-mode'', HealthCheckMode c), (''health-interval'', show_duration (HealthInterval c)),
      (''health-timeout'', show_duration (HealthTimeout c)), (''fall'', Itoa (Fall c)), (''rise'', Itoa (Rise c)),
      (''dial-timeout'', show_duration (DialTimeout c)), (''ca-file'', CAFile c),
      (''insecure-skip-verify'', show_bool (InsecureSkipVerify c)), (''keepalive-period'', show_duration (KeepalivePeriod c)),
      (''metrics-listen'', MetricsListen c), (''log-level'', LogLevel c), (''log-format'', LogFormat c),
      (''allow-non-loopback'', show_bool (AllowNonLoopback c)), (''shutdown-grace'', show_duration (ShutdownGrace c)),
      (''version'', show_bool (ShowVersion c)), (''discovery-kubeconfig'', DiscoveryKubeconfig c),
      (''discovery-interval'', show_duration (DiscoveryInterval c)), (''state-file'', StateFile c)]"

definition config_args :: "Config \<Rightarrow> string list" where
  "config_args c = map (\<lambda>(n, v). ''--'' @ n @ CHR ''='' # v) (flag_values c)"

text \<open>Values a command line can express: 64-bit numbers, durations that are not negative, server entries
  without commas and without white space around them.\<close>

definition expressible :: "Config \<Rightarrow> bool" where
  "expressible c \<longleftrightarrow>
     (\<forall>d \<in> {HealthInterval c, HealthTimeout c, DialTimeout c, KeepalivePeriod c, ShutdownGrace c, DiscoveryInterval c}.
        0 \<le> d \<and> d < 2 ^ 63) \<and>
     (\<forall>n \<in> {Fall c, Rise c}. - (2 ^ 63) \<le> n \<and> n < 2 ^ 63) \<and>
     (\<forall>s \<in> set (Servers c). s \<noteq> [] \<and> CHR '','' \<notin> set s \<and> TrimSpace s = s)"


section \<open>Lemmas\<close>

lemma Split_join_commas:
  "ss \<noteq> [] \<Longrightarrow> \<forall>s \<in> set ss. CHR '','' \<notin> set s \<Longrightarrow> Split (join_commas ss) CHR '','' = ss"
  by (induction ss rule: join_commas.induct) (simp_all add: Split_no_sep Split_append)

lemma splitServers_join:
  assumes "\<forall>s \<in> set ss. s \<noteq> [] \<and> CHR '','' \<notin> set s \<and> TrimSpace s = s" "ss \<noteq> []"
  shows "splitServers (join_commas ss) = ss" "join_commas ss \<noteq> []"
proof -
  have "map TrimSpace ss = ss" using assms(1) by (simp add: map_idI)
  moreover have "filter (\<lambda>s. s \<noteq> []) ss = ss" using assms(1) by simp
  ultimately show "splitServers (join_commas ss) = ss"
    using assms Split_join_commas [of ss] by (simp add: splitServers_def)
  show "join_commas ss \<noteq> []" using assms by (cases ss rule: join_commas.cases) auto
qed

text \<open>A list of settings is applied from left to right.\<close>

fun settings :: "(string \<times> 'c flag) list \<Rightarrow> (string \<times> string) list \<Rightarrow> 'c \<Rightarrow> 'c option" where
  "settings flags [] c = Some c"
| "settings flags ((n, v) # vs) c =
     (case map_of flags n of None \<Rightarrow> None | Some f \<Rightarrow> (case flag_Set f v c of None \<Rightarrow> None | Some c' \<Rightarrow> settings flags vs c'))"

definition plain_name :: "string \<Rightarrow> bool" where
  "plain_name n \<longleftrightarrow> n \<noteq> [] \<and> hd n \<noteq> CHR ''-'' \<and> CHR ''='' \<notin> set n"

lemma FlagSet_Parse_settings:
  assumes "\<forall>(n, v) \<in> set vs. plain_name n" "settings flags vs c = Some c'"
  shows "FlagSet_Parse flags c actual (map (\<lambda>(n, v). ''--'' @ n @ CHR ''='' # v) vs) =
    Inr (c', fold (\<lambda>(n, v). List.insert n) vs actual, [])"
  using assms
proof (induction vs arbitrary: c actual)
  case (Cons nv vs)
  obtain n v where nv: "nv = (n, v)" by force
  from Cons.prems nv obtain f d where f: "map_of flags n = Some f" "flag_Set f v c = Some d" "settings flags vs d = Some c'"
    by (auto split: option.splits)
  have "FlagSet_Parse flags c actual ((''--'' @ n @ CHR ''='' # v) # map (\<lambda>(n, v). ''--'' @ n @ CHR ''='' # v) vs) =
      FlagSet_Parse flags d (List.insert n actual) (map (\<lambda>(n, v). ''--'' @ n @ CHR ''='' # v) vs)"
    using Cons.prems nv f by (intro FlagSet_Parse_eq) (auto simp: plain_name_def)
  with Cons.IH [OF _ f(3)] Cons.prems nv show ?case by (simp del: FlagSet_Parse.simps)
qed simp

lemma ParseBool_show: "ParseBool (show_bool b) = Some b"
  by (simp add: show_bool_def ParseBool_def)

lemma settings_config:
  assumes "expressible c"
  shows "settings Parse_flags (flag_values c) (default_config, []) = Some (c\<lparr>Servers := [], explicit := []\<rparr>, join_commas (Servers c))"
  using assms
  by (simp add: expressible_def flag_values_def Parse_flags_def flag_Set_def show_duration_def ParseDuration_ns ParseInt_Itoa
      ParseBool_show default_config_def)


section \<open>Properties\<close>

text \<open>C36: a configuration written out as one flag per field is parsed back to that configuration, with every
  flag recorded as set on the command line.\<close>

theorem Parse_roundtrip:
  assumes "expressible c"
  shows "\<exists>e. Parse (config_args c) = Inr (c\<lparr>explicit := e\<rparr>) \<and> set e = fst ` set (flag_values c)"
proof -
  let ?e = "fold (\<lambda>(n, v). List.insert n) (flag_values c) []"
  have names: "\<forall>(n, v) \<in> set (flag_values c). plain_name n" by (simp add: flag_values_def plain_name_def)
  have "set (fold (\<lambda>(n, v). List.insert n) vs actual) = fst ` set vs \<union> set actual" for vs :: "(string \<times> string) list" and actual
    by (induction vs arbitrary: actual) auto
  then have e: "set ?e = fst ` set (flag_values c)" by simp
  have p: "FlagSet_Parse Parse_flags (default_config, []) [] (config_args c) =
      Inr ((c\<lparr>Servers := [], explicit := []\<rparr>, join_commas (Servers c)), ?e, [])"
    unfolding config_args_def by (rule FlagSet_Parse_settings [OF names settings_config [OF assms]])
  have "Parse (config_args c) = Inr (c\<lparr>explicit := ?e\<rparr>)"
  proof (cases "Servers c = []")
    case True
    then show ?thesis unfolding Parse_def p by (simp add: Let_def)
  next
    case False
    with assms splitServers_join [OF _ False] show ?thesis
      unfolding Parse_def p by (simp add: Let_def expressible_def)
  qed
  with e show ?thesis by blast
qed

theorem Parse_roundtrip_witness:
  "\<exists>e. Parse (config_args (default_config\<lparr>Servers := [''10.0.0.11:6443'', ''10.0.0.12:6443'']\<rparr>)) =
     Inr (default_config\<lparr>Servers := [''10.0.0.11:6443'', ''10.0.0.12:6443''], explicit := e\<rparr>)"
proof -
  have "TrimSpace ''10.0.0.11:6443'' = ''10.0.0.11:6443''" "TrimSpace ''10.0.0.12:6443'' = ''10.0.0.12:6443''"
    by (code_simp, code_simp)
  then have "expressible (default_config\<lparr>Servers := [''10.0.0.11:6443'', ''10.0.0.12:6443'']\<rparr>)"
    by (simp add: expressible_def default_config_def Second_def)
  from Parse_roundtrip [OF this] show ?thesis by auto
qed

text \<open>what \<open>Parse\<close> leaves alone: without arguments it returns the defaults with nothing recorded as
  explicit, and anything that is not a flag, a flag that is not defined, and a request for help are
  errors.\<close>

theorem Parse_defaults_and_errors:
  "Parse [] = Inr default_config \<and>
   Parse [''extra''] = Inl (Positional [''extra'']) \<and>
   Parse [''--no-such-flag''] = Inl (PFlag (NotDefined ''no-such-flag'')) \<and>
   Parse [''-h''] = Inl (PFlag HelpRequested) \<and>
   Parse [''--servers''] = Inl (PFlag (NeedsArgument ''servers''))"
  by (simp add: Parse_def Parse_flags_def default_config_def flag_name_def split_name_def is_BoolVar_def Let_def)

end
