(* ===== verification/Startup.thy ===== *)
theory Startup
  imports Checker Discovery ProxySockets Metrics ConfigParse
begin

text \<open>
  \<^verbatim>\<open>src/cmd/local-apiserver-lb/main.go\<close>, \<open>run\<close> up to the start of the goroutines, with \<open>newLogger\<close>, and
  \<^verbatim>\<open>src/internal/version/version.go\<close>.

  \<open>run_start\<close> either ends with an exit code or yields the program that is then running: the pool, the
  prober, the options handed to the health checker, the proxy and discovery, and the address of the
  metrics server. What the resolver, the file system and \<open>net.Listen\<close> answer is the record \<open>run_env\<close>.
  The variables of the version package are set by the linker, so they are a record too.
\<close>

section \<open>Version and logger\<close>

record build_info =
  Version :: string
  Commit :: string
  BuildDate :: string

definition build_defaults :: build_info where
  "build_defaults = \<lparr>Version = ''dev'', Commit = ''unknown'', BuildDate = ''unknown''\<rparr>"

definition version_String :: "build_info \<Rightarrow> string" where
  "version_String bi =
     ''local-apiserver-lb '' @ Version bi @ '' (commit '' @ Commit bi @ '', built '' @ BuildDate bi @ '')''"

record logger =
  log_level :: int \<comment> \<open>the values of \<open>slog.Level\<close>\<close>
  log_json :: bool

text \<open>A key that is missing from the map of levels gives the zero value, \<open>slog.LevelInfo\<close>.\<close>

definition newLogger :: "Config \<Rightarrow> logger" where
  "newLogger cfg =
     (let levels = [''debug'' \<mapsto> -4, ''info'' \<mapsto> 0, ''warn'' \<mapsto> 4, ''error'' \<mapsto> (8 :: int)] in
      \<lparr>log_level = (case levels (LogLevel cfg) of Some l \<Rightarrow> l | None \<Rightarrow> 0), log_json = (LogFormat cfg = ''json'')\<rparr>)"


section \<open>Environment and outcome\<close>

record run_env =
  sys_lookup :: lookup_fn
  sys_Open :: "string \<Rightarrow> string option" \<comment> \<open>the error of opening the CA file\<close>
  sys_ReadFile :: "string \<Rightarrow> (read_error, string) res"
  sys_probe :: probe_env
  sys_Listen :: "string \<Rightarrow> string option" \<comment> \<open>the error of \<open>net.Listen\<close>\<close>

datatype message =
    PrintArgs parse_error
  | PrintVersion string
  | PrintConfig config_error
  | LogStarting string Config
  | LogStateInvalid server_error
  | LogStateRestored "string list"
  | LogStateAbsent
  | LogStateUnreadable load_error
  | LogPoolFailed pool_error
  | LogProberFailed prober_error
  | LogListenFailed string
  | LogDiscoveryEnabled string
  | LogRunning "string list"

record program =
  pr_cfg :: Config
  pr_logger :: logger
  pr_world :: world
  pr_pool :: Pool
  pr_prober :: Prober
  pr_checker :: Options
  pr_discovery :: "disc_options option"
  pr_proxy :: proxy_options
  pr_metrics :: "string option"
  pr_out :: "message list"


section \<open>Operations\<close>

text \<open>Which servers to start from: the state file, when it can be read and its list is valid, supersedes
  the list of the command line.\<close>

definition choose_servers :: "run_env \<Rightarrow> Config \<Rightarrow> string list \<times> message list" where
  "choose_servers env cfg =
     (if StateFile cfg \<noteq> [] then
        (case LoadState (sys_ReadFile env) (StateFile cfg) of
           Inr restored \<Rightarrow>
             (case ValidateServers restored (Listen cfg) (sys_lookup env) of
                Inl verr \<Rightarrow> (Servers cfg, [LogStateInvalid verr])
              | Inr _ \<Rightarrow> (restored, [LogStateRestored restored]))
         | Inl err \<Rightarrow>
             if err = LSRead NotExist then (Servers cfg, [LogStateAbsent])
             else (Servers cfg, [LogStateUnreadable err]))
      else (Servers cfg, []))"

definition checker_options :: "Config \<Rightarrow> Options" where
  "checker_options cfg =
     \<lparr>Interval = HealthInterval cfg, Timeout = HealthTimeout cfg, OFall = Fall cfg, ORise = Rise cfg\<rparr>"

definition discovery_options :: "Config \<Rightarrow> disc_options" where
  "discovery_options cfg = \<lparr>KubeconfigPath = DiscoveryKubeconfig cfg, StatePath = StateFile cfg\<rparr>"

definition server_options :: "Config \<Rightarrow> proxy_options" where
  "server_options cfg = \<lparr>ProxyDialTimeout = DialTimeout cfg, ProxyKeepalivePeriod = KeepalivePeriod cfg\<rparr>"

text \<open>\<open>run\<close> from the validated configuration on; \<open>servers\<close> is the list chosen above.\<close>

definition launch :: "run_env \<Rightarrow> Config \<Rightarrow> string list \<Rightarrow> message list \<Rightarrow> (int \<times> message list, program) res" where
  "launch env cfg servers out =
     (case NewPool servers (Balance cfg) empty_world of
        Inl e \<Rightarrow> Inl (1, out @ [LogPoolFailed e])
      | Inr (w, pool) \<Rightarrow>
          (case NewProber (sys_probe env) (HealthCheckMode cfg) (CAFile cfg) of
             Inl e \<Rightarrow> Inl (1, out @ [LogProberFailed e])
           | Inr prober \<Rightarrow>
               (case sys_Listen env (Listen cfg) of
                  Some e \<Rightarrow> Inl (1, out @ [LogListenFailed e])
                | None \<Rightarrow>
                    let discovery = DiscoveryKubeconfig cfg \<noteq> [] in
                    Inr \<lparr>pr_cfg = cfg, pr_logger = newLogger cfg, pr_world = w, pr_pool = pool, pr_prober = prober,
                      pr_checker = checker_options cfg,
                      pr_discovery = (if discovery then Some (discovery_options cfg) else None),
                      pr_proxy = server_options cfg,
                      pr_metrics = (if MetricsListen cfg \<noteq> [] then Some (MetricsListen cfg) else None),
                      pr_out = out @ (if discovery then [LogDiscoveryEnabled (DiscoveryKubeconfig cfg)] else []) @
                        [LogRunning (Servers cfg)]\<rparr>)))"

definition run_start :: "build_info \<Rightarrow> run_env \<Rightarrow> string list \<Rightarrow> (int \<times> message list, program) res" where
  "run_start bi env args =
     (case Parse args of
        Inl e \<Rightarrow> Inl (2, [PrintArgs e])
      | Inr cfg \<Rightarrow>
          if ShowVersion cfg then Inl (0, [PrintVersion (version_String bi)])
          else
            (case Validate (sys_lookup env) (sys_Open env) cfg of
               Inl e \<Rightarrow> Inl (1, [PrintConfig e])
             | Inr cfg \<Rightarrow>
                 let (servers, out) = choose_servers env cfg
                 in launch env cfg servers (LogStarting (version_String bi) cfg # out)))"


section \<open>Lemmas\<close>

text \<open>Whatever the state file holds, the chosen list satisfies what validation demands.\<close>

lemma choose_servers_ok:
  assumes "config_ok lookup open_err cfg" "sys_lookup env = lookup"
  shows "ValidateServers (fst (choose_servers env cfg)) (Listen cfg) lookup = Inr ()"
proof -
  have "ValidateServers (Servers cfg) (Listen cfg) lookup = Inr ()"
    using assms(1) by (auto simp: config_ok_def ValidateServers_Inr_iff)
  then show ?thesis using assms(2) by (auto simp: choose_servers_def split: sum.splits)
qed

lemma NewPool_known:
  assumes "Balance cfg \<in> {''round-robin'', ''least-conn''}"
  obtains pk where "NewPool servers (Balance cfg) empty_world =
    Inr (\<lparr>bheap = map backend_New servers, theap = [], sheap = []\<rparr>, \<lparr>backends = [0..<length servers], pool_picker = pk\<rparr>)"
  using assms that alloc_backends_result [of servers empty_world]
  by (auto simp: NewPool_def newPicker_def empty_world_def)

lemma fresh_pool:
  fixes servers
  defines "w \<equiv> \<lparr>bheap = map backend_New servers, theap = [], sheap = []\<rparr>"
  shows "pool_addrs w \<lparr>backends = [0..<length servers], pool_picker = pk\<rparr> = servers" "wf_world w"
    "b < length servers \<Longrightarrow> Healthy (bheap w ! b)"
  by (auto simp: w_def pool_addrs_def Addr_def backend_New_def wf_world_def Healthy_def intro!: nth_equalityI)

lemma launch_Inr_iff:
  "launch env cfg servers out = Inr prog \<longleftrightarrow>
    (\<exists>prober w pool. NewPool servers (Balance cfg) empty_world = Inr (w, pool) \<and>
      NewProber (sys_probe env) (HealthCheckMode cfg) (CAFile cfg) = Inr prober \<and>
      sys_Listen env (Listen cfg) = None \<and>
      prog = \<lparr>pr_cfg = cfg, pr_logger = newLogger cfg, pr_world = w, pr_pool = pool, pr_prober = prober,
        pr_checker = checker_options cfg,
        pr_discovery = (if DiscoveryKubeconfig cfg \<noteq> [] then Some (discovery_options cfg) else None),
        pr_proxy = server_options cfg,
        pr_metrics = (if MetricsListen cfg \<noteq> [] then Some (MetricsListen cfg) else None),
        pr_out = out @ (if DiscoveryKubeconfig cfg \<noteq> [] then [LogDiscoveryEnabled (DiscoveryKubeconfig cfg)] else []) @
          [LogRunning (Servers cfg)]\<rparr>)"
  unfolding launch_def Let_def by (auto split: sum.splits option.splits)


lemma launch_Inl:
  assumes "Balance cfg \<in> {''round-robin'', ''least-conn''}" "launch env cfg servers out = Inl (n, out')"
  shows "n = 1 \<and> LogPoolFailed e \<notin> set out' - set out"
proof -
  obtain pk where "NewPool servers (Balance cfg) empty_world =
      Inr (\<lparr>bheap = map backend_New servers, theap = [], sheap = []\<rparr>, \<lparr>backends = [0..<length servers], pool_picker = pk\<rparr>)"
    by (rule NewPool_known [OF assms(1)])
  with assms(2) show ?thesis by (auto simp: launch_def Let_def split: sum.splits option.splits)
qed

lemma choose_servers_log: "LogPoolFailed e \<notin> set (snd (choose_servers env cfg))"
  by (auto simp: choose_servers_def split: sum.splits)

lemma run_start_Inr_iff:
  "run_start bi env args = Inr prog \<longleftrightarrow>
     (\<exists>c. Parse args = Inr c \<and> \<not> ShowVersion c \<and> config_ok (sys_lookup env) (sys_Open env) c \<and>
        launch env (effective c) (fst (choose_servers env (effective c)))
          (LogStarting (version_String bi) (effective c) # snd (choose_servers env (effective c))) = Inr prog)"
  unfolding run_start_def case_sum_Inr_iff guard_Inr_iff Validate_Inr_iff split_beta Let_def by auto

text \<open>The program that starts, in terms of its configuration and the chosen servers.\<close>

lemma started:
  assumes "run_start bi env args = Inr prog"
  obtains c pk prober where "Parse args = Inr c" "\<not> ShowVersion c" "pr_cfg prog = effective c"
    "config_ok (sys_lookup env) (sys_Open env) (effective c)"
    "pr_pool prog = \<lparr>backends = [0..<length (fst (choose_servers env (effective c)))], pool_picker = pk\<rparr>"
    "pr_world prog = \<lparr>bheap = map backend_New (fst (choose_servers env (effective c))), theap = [], sheap = []\<rparr>"
    "pr_checker prog = checker_options (effective c)"
    "set (snd (choose_servers env (effective c))) \<subseteq> set (pr_out prog)"
    "NewPool (fst (choose_servers env (effective c))) (Balance (effective c)) empty_world = Inr (pr_world prog, pr_pool prog)"
proof -
  from assms obtain c where c: "Parse args = Inr c" "\<not> ShowVersion c" "config_ok (sys_lookup env) (sys_Open env) c"
    and l: "launch env (effective c) (fst (choose_servers env (effective c)))
          (LogStarting (version_String bi) (effective c) # snd (choose_servers env (effective c))) = Inr prog"
    by (auto simp: run_start_Inr_iff)
  have ok: "config_ok (sys_lookup env) (sys_Open env) (effective c)" by (rule config_ok_effective [OF c(3)])
  then have "Balance (effective c) \<in> {''round-robin'', ''least-conn''}" by (simp add: config_ok_def options_ok_def)
  then obtain pk where "NewPool (fst (choose_servers env (effective c))) (Balance (effective c)) empty_world =
      Inr (\<lparr>bheap = map backend_New (fst (choose_servers env (effective c))), theap = [], sheap = []\<rparr>,
           \<lparr>backends = [0..<length (fst (choose_servers env (effective c)))], pool_picker = pk\<rparr>)"
    by (rule NewPool_known)
  with l c ok show ?thesis by (intro that [of c]) (auto simp: launch_Inr_iff)
qed

text \<open>The components start in states that satisfy their invariants.\<close>

lemma started_sound:
  assumes "run_start bi env args = Inr prog" and "length (backends (pr_pool prog)) < 2 ^ 63"
  shows "config_ok (sys_lookup env) (sys_Open env) (pr_cfg prog) \<and>
    ValidateServers (pool_addrs (pr_world prog) (pr_pool prog)) (Listen (pr_cfg prog)) (sys_lookup env) = Inr () \<and>
    HealthyCount (pr_world prog) (pr_pool prog) = length (backends (pr_pool prog)) \<and>
    hinv (pr_checker prog) (hinit (pr_world prog) (pr_pool prog)) \<and>
    pinv (pinit (bheap (pr_world prog)) (pr_pool prog)) \<and> srv_inv (pinit (bheap (pr_world prog)) (pr_pool prog)) \<and>
    disc_inv \<lparr>dw = pr_world prog, dpool = pr_pool prog, poller = NewPoller, dfs = f, dlog = []\<rparr>"
proof (rule started [OF assms(1)])
  fix c pk
  let ?ss = "fst (choose_servers env (effective c))"
  assume cfg: "pr_cfg prog = effective c" and ok: "config_ok (sys_lookup env) (sys_Open env) (effective c)"
    and pool: "pr_pool prog = \<lparr>backends = [0..<length ?ss], pool_picker = pk\<rparr>"
    and w: "pr_world prog = \<lparr>bheap = map backend_New ?ss, theap = [], sheap = []\<rparr>"
    and ck: "pr_checker prog = checker_options (effective c)"
    and new: "NewPool ?ss (Balance (effective c)) empty_world = Inr (pr_world prog, pr_pool prog)"
  have valid: "ValidateServers ?ss (Listen (effective c)) (sys_lookup env) = Inr ()"
    by (rule choose_servers_ok [OF ok refl])
  then have ss: "?ss \<noteq> []" "distinct ?ss" by (auto simp: ValidateServers_Inr_iff servers_ok_def)
  have addrs: "pool_addrs (pr_world prog) (pr_pool prog) = ?ss" unfolding pool w by (rule fresh_pool)
  have pinv: "pinv (pinit (bheap (pr_world prog)) (pr_pool prog))" "srv_inv (pinit (bheap (pr_world prog)) (pr_pool prog))"
    using pinit_inv [OF new ss(2)] assms(2) by (simp_all add: pool)
  have inv: "wf_world (pr_world prog)" "pool_inv (pr_world prog) (pr_pool prog)"
    using fresh_pool(2) [of ?ss] ss(2) addrs by (simp_all add: w pool pool_inv_def lessThan_atLeast0)
  have "1 \<le> Fall (effective c)" "1 \<le> Rise (effective c)" using ok by (simp_all add: config_ok_def options_ok_def)
  then have hinv: "hinv (pr_checker prog) (hinit (pr_world prog) (pr_pool prog))"
    using inv by (intro hinv_hinit) (auto simp: ck checker_options_def world_ok_def w backend_New_def health_inv_def)
  have count: "HealthyCount (pr_world prog) (pr_pool prog) = length (backends (pr_pool prog))"
    by (simp add: HealthyCount_def Backends_def pool w Healthy_def backend_New_def)
  show ?thesis
    unfolding addrs using cfg ok valid count hinv pinv inv ss by (simp add: disc_inv_def pool)
qed

text \<open>A start with discovery and a state file, on a host without a resolver.\<close>

definition example_args :: "string list" where
  "example_args = [''--servers=10.0.0.1:6443'', ''--health-check-mode=tcp'', ''--discovery-kubeconfig=/k'', ''--state-file=/s'']"

definition example_run_env :: "fs \<Rightarrow> run_env" where
  "example_run_env f = \<lparr>sys_lookup = (\<lambda>_. Inl []), sys_Open = (\<lambda>_. None), sys_ReadFile = fs_read f,
     sys_probe = example_env, sys_Listen = (\<lambda>_. None)\<rparr>"

definition example_parsed :: Config where
  "example_parsed = default_config\<lparr>Servers := [''10.0.0.1:6443''], HealthCheckMode := ''tcp'', DiscoveryKubeconfig := ''/k'',
     StateFile := ''/s'', explicit := [''state-file'', ''discovery-kubeconfig'', ''health-check-mode'', ''servers'']\<rparr>"

lemma example_Parse: "Parse example_args = Inr example_parsed"
proof -
  have "splitServers ''10.0.0.1:6443'' = [''10.0.0.1:6443'']" by code_simp
  then show ?thesis
    by (simp add: Parse_def Parse_flags_def default_config_def flag_name_def split_name_def is_BoolVar_def Let_def
        example_args_def example_parsed_def flag_Set_def List.insert_def)
qed

lemma example_valid: "config_ok (\<lambda>_. Inl []) (\<lambda>_. None) example_parsed" "effective example_parsed = example_parsed"
proof -
  have "Validate (\<lambda>_. Inl []) (\<lambda>_. None) example_parsed = Inr example_parsed" by code_simp
  then show "config_ok (\<lambda>_. Inl []) (\<lambda>_. None) example_parsed" "effective example_parsed = example_parsed"
    by (simp_all add: Validate_Inr_iff)
qed

lemma example_started:
  obtains prog where "run_start bi (example_run_env f) example_args = Inr prog" "pr_cfg prog = example_parsed"
    "length (backends (pr_pool prog)) = length (fst (choose_servers (example_run_env f) example_parsed))"
proof -
  have "Balance example_parsed \<in> {''round-robin'', ''least-conn''}"
    using example_valid(1) by (simp add: config_ok_def options_ok_def)
  then obtain pk where "NewPool (fst (choose_servers (example_run_env f) example_parsed)) (Balance example_parsed) empty_world =
    Inr (\<lparr>bheap = map backend_New (fst (choose_servers (example_run_env f) example_parsed)), theap = [], sheap = []\<rparr>,
      \<lparr>backends = [0..<length (fst (choose_servers (example_run_env f) example_parsed))], pool_picker = pk\<rparr>)"
    by (rule NewPool_known)
  moreover have "\<not> ShowVersion example_parsed" "NewProber e (HealthCheckMode example_parsed) ca = Inr NewTCPProber" for e ca
    by (simp_all add: example_parsed_def default_config_def NewProber_def)
  ultimately show ?thesis using example_Parse example_valid
    by (intro that) (auto simp: run_start_Inr_iff launch_Inr_iff example_run_env_def)
qed


section \<open>Properties\<close>

text \<open>what \<open>run\<close> starts is sound: the configuration is valid, the pool holds a valid list of servers
  whatever the state file contained, every backend starts healthy, and the invariants of the health
  checker, the proxy and discovery hold in the states they start in.\<close>

theorem run_start_sound:
  assumes "run_start bi env args = Inr prog" and "length (backends (pr_pool prog)) < 2 ^ 63"
  shows "config_ok (sys_lookup env) (sys_Open env) (pr_cfg prog) \<and>
    ValidateServers (pool_addrs (pr_world prog) (pr_pool prog)) (Listen (pr_cfg prog)) (sys_lookup env) = Inr () \<and>
    HealthyCount (pr_world prog) (pr_pool prog) = length (backends (pr_pool prog)) \<and>
    hinv (pr_checker prog) (hinit (pr_world prog) (pr_pool prog)) \<and>
    pinv (pinit (bheap (pr_world prog)) (pr_pool prog)) \<and> srv_inv (pinit (bheap (pr_world prog)) (pr_pool prog)) \<and>
    disc_inv \<lparr>dw = pr_world prog, dpool = pr_pool prog, poller = NewPoller, dfs = f, dlog = []\<rparr>"
  by (rule started_sound [OF assms])

theorem run_start_sound_witness:
  "\<exists>prog. run_start build_defaults (example_run_env Map.empty) example_args = Inr prog \<and>
     pinv (pinit (bheap (pr_world prog)) (pr_pool prog)) \<and> srv_inv (pinit (bheap (pr_world prog)) (pr_pool prog))"
proof -
  obtain prog where r: "run_start build_defaults (example_run_env Map.empty) example_args = Inr prog"
    and n: "length (backends (pr_pool prog)) = length (fst (choose_servers (example_run_env Map.empty) example_parsed))"
    by (rule example_started)
  have "choose_servers (example_run_env Map.empty) example_parsed = ([''10.0.0.1:6443''], [LogStateAbsent])"
    by (simp add: choose_servers_def example_parsed_def default_config_def example_run_env_def LoadState_def fs_read_def)
  with n run_start_sound [OF r] r show ?thesis by simp
qed

text \<open>C37: the exit code tells what went wrong: 2 exactly for a command line that does not parse, 0 before
  anything is started exactly for \<open>--version\<close>, 1 for everything else; and the program starts exactly when the
  configuration is valid, the prober can be built and the address can be listened on. Building the pool cannot
  fail after validation.\<close>

theorem run_exit_codes:
  "((\<exists>out. run_start bi env args = Inl (2, out)) \<longleftrightarrow> (\<exists>e. Parse args = Inl e)) \<and>
   ((\<exists>out. run_start bi env args = Inl (0, out)) \<longleftrightarrow> (\<exists>c. Parse args = Inr c \<and> ShowVersion c)) \<and>
   ((\<exists>prog. run_start bi env args = Inr prog) \<longleftrightarrow>
      (\<exists>c. Parse args = Inr c \<and> \<not> ShowVersion c \<and> config_ok (sys_lookup env) (sys_Open env) c \<and>
         is_ok (NewProber (sys_probe env) (HealthCheckMode c) (CAFile c)) \<and> sys_Listen env (Listen c) = None)) \<and>
   (case run_start bi env args of
      Inl (n, out) \<Rightarrow> n \<in> {0, 1, 2} \<and> (\<forall>e. LogPoolFailed e \<notin> set out)
    | Inr prog \<Rightarrow> True)"
proof (cases "\<exists>c. Parse args = Inr c \<and> \<not> ShowVersion c \<and> config_ok (sys_lookup env) (sys_Open env) c")
  case False
  then consider e where "Parse args = Inl e" | c where "Parse args = Inr c" "ShowVersion c"
    | c e where "Parse args = Inr c" "\<not> ShowVersion c" "Validate (sys_lookup env) (sys_Open env) c = Inl e"
    by (metis Validate_Inr_iff sumE)
  then show ?thesis
    by cases (use False in \<open>auto simp: run_start_def\<close>)
next
  case True
  then obtain c where c: "Parse args = Inr c" "\<not> ShowVersion c" "config_ok (sys_lookup env) (sys_Open env) c" by blast
  let ?c = "effective c" and ?ss = "fst (choose_servers env (effective c))"
  let ?out = "LogStarting (version_String bi) ?c # snd (choose_servers env ?c)"
  have run: "run_start bi env args = launch env ?c ?ss ?out"
    using c Validate_Inr_iff [of "sys_lookup env" "sys_Open env" c ?c] by (simp add: run_start_def split_beta)
  have bal: "Balance ?c \<in> {''round-robin'', ''least-conn''}"
    using config_ok_effective [OF c(3)] by (simp add: config_ok_def options_ok_def)
  then obtain w pool where "NewPool ?ss (Balance ?c) empty_world = Inr (w, pool)" by (rule NewPool_known)
  then have started: "(\<exists>prog. launch env ?c ?ss ?out = Inr prog) \<longleftrightarrow>
      is_ok (NewProber (sys_probe env) (HealthCheckMode c) (CAFile c)) \<and> sys_Listen env (Listen c) = None"
    by (auto simp: launch_Inr_iff is_ok_iff effective_def)
  have "n = 1 \<and> (\<forall>e. LogPoolFailed e \<notin> set o')" if "launch env ?c ?ss ?out = Inl (n, o')" for n o'
    using launch_Inl [OF bal that] choose_servers_log by auto
  then show ?thesis unfolding run started using c by (auto split: sum.splits)
qed

text \<open>C18: a restart resumes the discovered cluster: when discovery has applied a list and saved it, a program
  started afterwards on that file system, with the same listen address and a resolver that still accepts the list,
  starts with exactly the pool discovery left behind, whatever \<open>--servers\<close> says.\<close>

theorem restart_resumes:
  assumes inv: "disc_inv s" and s': "s' = poll_apply (\<lambda>ss. ValidateServers ss (Listen cfg) lookup) (discovery_options cfg) calls addrs s"
    and new: "addrs \<noteq> []" "\<not> sameAddrs (dw s) addrs (Backends (dpool s))" "\<forall>a \<in> set addrs. ascii a"
    and saved: "StateFile cfg \<noteq> []" "fresh_temp calls (StateFile cfg) (dfs s)"
      "snd (saveState calls (StateFile cfg) addrs (dfs s)) = None"
    and run: "run_start bi env args = Inr prog" "pr_cfg prog = cfg" "sys_ReadFile env = fs_read (dfs s')"
    and valid: "ValidateServers addrs (Listen cfg) lookup = Inr ()" "ValidateServers addrs (Listen cfg) (sys_lookup env) = Inr ()"
  shows "pool_addrs (pr_world prog) (pr_pool prog) = pool_addrs (dw s') (dpool s') \<and>
    pool_addrs (dw s') (dpool s') = addrs \<and> LogStateRestored addrs \<in> set (pr_out prog)"
proof -
  have dist: "distinct addrs" by (rule vet.vet_distinct [OF valid(1)])
  from apply_update [where validate = "\<lambda>ss. ValidateServers ss (Listen cfg) lookup", OF inv new(1) dist new(2) valid(1)]
  have pool: "pool_addrs (dw s') (dpool s') = addrs"
    and fs: "dfs s' = fst (persist (discovery_options cfg) calls addrs (dfs s))"
    unfolding s' by blast+
  obtain trace where tr: "saveState calls (StateFile cfg) addrs (dfs s) = (trace, None)" using saved(3) by (metis prod.collapse)
  from saveState_trace [OF saved(2) tr] have "dfs s' (StateFile cfg) = Some (Marshal_state \<lparr>st_Servers = addrs\<rparr>)"
    using saved(1) by (simp add: fs persist_def tr discovery_options_def)
  then have "LoadState (sys_ReadFile env) (StateFile cfg) = Inr addrs"
    using new by (intro LoadState_Marshal) (simp_all add: run(3) fs_read_def)
  then have chosen: "choose_servers env cfg = (addrs, [LogStateRestored addrs])"
    using saved(1) valid(2) by (simp add: choose_servers_def)
  show ?thesis
  proof (rule started [OF run(1)])
    fix c pk
    assume "pr_cfg prog = effective c"
      and p: "pr_pool prog = \<lparr>backends = [0..<length (fst (choose_servers env (effective c)))], pool_picker = pk\<rparr>"
        "pr_world prog = \<lparr>bheap = map backend_New (fst (choose_servers env (effective c))), theap = [], sheap = []\<rparr>"
      and out: "set (snd (choose_servers env (effective c))) \<subseteq> set (pr_out prog)"
    with run(2) have "cfg = effective c" by simp
    with p out chosen pool fresh_pool(1) [of addrs pk] show ?thesis by simp
  qed
qed

theorem restart_resumes_witness:
  "\<exists>(s' :: dstate) prog. run_start build_defaults (example_run_env (dfs s')) example_args = Inr prog \<and>
     pool_addrs (pr_world prog) (pr_pool prog) = [''10.0.0.12:6443'', ''10.0.0.13:6443'']"
proof -
  let ?as = "[''10.0.0.12:6443'', ''10.0.0.13:6443'']"
  let ?s' = "poll_apply (\<lambda>ss. ValidateServers ss (Listen example_parsed) (\<lambda>_. Inl [])) (discovery_options example_parsed) io_ok ?as example_dstate"
  obtain prog where r: "run_start build_defaults (example_run_env (dfs ?s')) example_args = Inr prog" "pr_cfg prog = example_parsed"
    by (rule example_started)
  have cfg: "Listen example_parsed = ''127.0.0.1:6443''" "StateFile example_parsed = ''/s''"
    by (simp_all add: example_parsed_def default_config_def)
  have "snd (saveState io_ok (StateFile example_parsed) ?as (dfs example_dstate)) = None"
    by (simp add: saveState_def io_ok_def Let_def)
  moreover have "fresh_temp io_ok (StateFile example_parsed) (dfs example_dstate)"
    by (simp add: cfg fresh_temp_def io_ok_def example_dstate_def)
  moreover have "\<forall>a \<in> set ?as. ascii a" by (simp add: ascii_def)
  ultimately have "pool_addrs (pr_world prog) (pr_pool prog) = ?as"
    using restart_resumes [where calls = io_ok and lookup = "\<lambda>_. Inl []",
        OF example_dstate_inv refl _ not_same_example _ _ _ _ r] vet_example r
    by (simp add: cfg example_run_env_def)
  with r show ?thesis by blast
qed

text \<open>The line "load balancer is running" reports the servers of the command line, also when the program
  runs with the restored ones.\<close>

theorem running_line_reports_seed:
  assumes "run_start bi env args = Inr prog"
  shows "LogRunning ss \<in> set (pr_out prog) \<longleftrightarrow> ss = Servers (pr_cfg prog)"
proof -
  have "LogRunning ss \<notin> set (snd (choose_servers env cfg))" for cfg
    by (auto simp: choose_servers_def split: sum.splits)
  with assms show ?thesis by (auto simp: run_start_Inr_iff launch_Inr_iff)
qed

end
