(* ===== verification/PollerRun.thy ===== *)
theory PollerRun
  imports Discovery
begin

text \<open>
  \<^verbatim>\<open>src/internal/discovery/discovery.go\<close>, \<open>Run\<close>: the loop of the poller, cut where another goroutine can
  run: after the candidates were asked, after the pool was replaced, and between the drains of the
  removed backends. \<open>poll_fetch\<close>, \<open>poll_set\<close> and \<open>poll_drain\<close> are the pieces of \<open>pollOnce\<close>; asking the
  candidates is one piece because the requests touch nothing shared, and comparing, validating and
  replacing the list is one because no other goroutine changes the members of the pool.
\<close>

section \<open>Pieces of a round\<close>

datatype poll_pc =
    PStart
  | PApply "string list"
  | PDrain "bid list"
  | PWait \<comment> \<open>in \<open>select\<close>\<close>
  | PStopped

definition poll_fetch :: "disc_options \<Rightarrow> kube_env \<Rightarrow> disc_net \<Rightarrow> dstate \<Rightarrow> dstate \<times> poll_pc" where
  "poll_fetch opts env net s0 =
     (let (s, ready) =
        (case p_auth (poller s0) of
           Some a \<Rightarrow> (s0, Some a)
         | None \<Rightarrow>
             (case Load env (KubeconfigPath opts) of
                Inl e \<Rightarrow>
                  (if \<not> loggedWaiting (poller s0)
                   then s0\<lparr>poller := (poller s0)\<lparr>loggedWaiting := True\<rparr>, dlog := dlog s0 @ [LogWaiting e]\<rparr> else s0, None)
              | Inr a \<Rightarrow> (s0\<lparr>poller := (poller s0)\<lparr>p_auth := Some a\<rparr>, dlog := dlog s0 @ [LogActivated]\<rparr>, Some a)))
      in
      case ready of
        None \<Rightarrow> (s, PWait)
      | Some auth \<Rightarrow>
          let (pool, r) = fetch env net auth (dw s) (dpool s); s = s\<lparr>dpool := pool\<rparr> in
          (case r of
             Inl e \<Rightarrow> (s\<lparr>dlog := dlog s @ [LogFetchFailed]\<rparr>, PWait)
           | Inr addrs \<Rightarrow> (s, PApply addrs)))"

definition poll_set ::
  "(string list \<Rightarrow> ('e, unit) res) \<Rightarrow> disc_options \<Rightarrow> io \<Rightarrow> string list \<Rightarrow> dstate \<Rightarrow> dstate \<times> poll_pc" where
  "poll_set validate opts calls addrs s =
     (if length addrs = 0 then
        (if \<not> loggedEmpty (poller s) then s\<lparr>poller := (poller s)\<lparr>loggedEmpty := True\<rparr>, dlog := dlog s @ [LogEmptyList]\<rparr> else s, PWait)
      else
        let s = s\<lparr>poller := (poller s)\<lparr>loggedEmpty := False\<rparr>\<rparr> in
        if sameAddrs (dw s) addrs (Backends (dpool s)) then (s, PWait)
        else
          (case validate addrs of
             Inl e \<Rightarrow> (s\<lparr>dlog := dlog s @ [LogRejected addrs]\<rparr>, PWait)
           | Inr _ \<Rightarrow>
               let (w, pool, added, removed) = SetAddrs addrs (dw s) (dpool s);
                   (f, l1) = persist opts calls addrs (dfs s);
                   l2 = map (\<lambda>b. LogAdded (Addr (bheap w ! b))) added
               in (s\<lparr>dw := w, dpool := pool, dfs := f, dlog := dlog s @ [LogUpdated addrs] @ l1 @ l2\<rparr>, PDrain removed)))"

definition poll_drain :: "bid \<Rightarrow> dstate \<Rightarrow> dstate" where
  "poll_drain b s =
     (let (w, drained) = DrainAll b (dw s) in s\<lparr>dw := w, dlog := dlog s @ [LogRemoved (Addr (bheap w ! b)) drained]\<rparr>)"


section \<open>The loop\<close>

datatype poll_act =
    PAFetch kube_env disc_net
  | PASet io
  | PADrain
  | PATick
  | PAStop

text \<open>One action of the poller; \<open>ctx_done\<close> is whether the root context is done. A Go slice has less than
  \<open>2^63\<close> elements.\<close>

definition poll_exec ::
  "(string list \<Rightarrow> ('e, unit) res) \<Rightarrow> disc_options \<Rightarrow> bool \<Rightarrow> poll_act \<Rightarrow> dstate \<times> poll_pc \<Rightarrow> (dstate \<times> poll_pc) option" where
  "poll_exec validate opts ctx_done a sp =
     (let s = fst sp in
      case (a, snd sp) of
        (PAFetch env net, PStart) \<Rightarrow> Some (poll_fetch opts env net s)
      | (PASet calls, PApply addrs) \<Rightarrow>
          if length addrs < 2 ^ 63 then Some (poll_set validate opts calls addrs s) else None
      | (PADrain, PDrain bs) \<Rightarrow>
          (case bs of [] \<Rightarrow> Some (s, PWait) | b # bs' \<Rightarrow> Some (poll_drain b s, PDrain bs'))
      | (PATick, PWait) \<Rightarrow> Some (s, PStart)
      | (PAStop, PWait) \<Rightarrow> if ctx_done then Some (s, PStopped) else None
      | _ \<Rightarrow> None)"


section \<open>Lemmas\<close>

lemma poll_drains: "fold poll_drain bs s = s\<lparr>dw := fst (drain_removed bs (dw s)), dlog := dlog s @ snd (drain_removed bs (dw s))\<rparr>"
proof (induction bs arbitrary: s)
  case (Cons b bs)
  then show ?case by (simp add: poll_drain_def split_beta Let_def)
qed simp

text \<open>A round that asks the network only moves the rotation of the balancer.\<close>

lemma poll_fetch_frame:
  assumes "length (backends (dpool s)) < 2 ^ 63"
  shows "dw (fst (poll_fetch opts env net s)) = dw s" "backends (dpool (fst (poll_fetch opts env net s))) = backends (dpool s)"
    "snd (poll_fetch opts env net s) \<noteq> PDrain bs"
proof -
  have "backends (fst (fetch env net auth (dw s) (dpool s))) = backends (dpool s)" for auth
    by (rule Candidates_cases [OF assms, of "dw s"]) (simp add: fetch_def)
  then show "dw (fst (poll_fetch opts env net s)) = dw s" "backends (dpool (fst (poll_fetch opts env net s))) = backends (dpool s)"
    "snd (poll_fetch opts env net s) \<noteq> PDrain bs"
    by (auto simp: poll_fetch_def Let_def split_beta split: option.splits sum.splits)
qed

text \<open>Applying a list leaves backends and pool alone or replaces the pool by a list that was accepted.\<close>

lemma poll_set_cases:
  obtains (kept) "dw (fst (poll_set validate opts calls addrs s)) = dw s"
      "dpool (fst (poll_set validate opts calls addrs s)) = dpool s" "snd (poll_set validate opts calls addrs s) = PWait"
  | (replaced) w p added removed where "SetAddrs addrs (dw s) (dpool s) = (w, p, added, removed)"
      "dw (fst (poll_set validate opts calls addrs s)) = w" "dpool (fst (poll_set validate opts calls addrs s)) = p"
      "snd (poll_set validate opts calls addrs s) = PDrain removed" "addrs \<noteq> []" "is_ok (validate addrs)"
proof -
  obtain w p added removed where e: "SetAddrs addrs (dw s) (dpool s) = (w, p, added, removed)" by (metis prod_cases4)
  show thesis
  proof (cases "addrs = [] \<or> sameAddrs (dw s) addrs (Backends (dpool s)) \<or> \<not> is_ok (validate addrs)")
    case True
    then show thesis by (intro kept) (auto simp: poll_set_def Let_def is_ok_iff split: sum.splits)
  next
    case False
    with e show thesis by (intro replaced [OF e]) (auto simp: poll_set_def Let_def split_beta is_ok_iff)
  qed
qed


section \<open>The loop and \<open>pollOnce\<close>\<close>

text \<open>The pieces are the code: run without interruption they compute exactly what \<open>pollOnce\<close> does, log
  and state file included.\<close>

lemma pollOnce_steps:
  "pollOnce validate opts env net calls s =
     (case poll_fetch opts env net s of
        (t, PApply addrs) \<Rightarrow>
          (case poll_set validate opts calls addrs t of (u, PDrain removed) \<Rightarrow> fold poll_drain removed u | (u, _) \<Rightarrow> u)
      | (t, _) \<Rightarrow> t)"
proof -
  have set: "poll_apply validate opts calls addrs t =
      (case poll_set validate opts calls addrs t of (u, PDrain removed) \<Rightarrow> fold poll_drain removed u | (u, _) \<Rightarrow> u)" for addrs t
    by (auto simp: poll_apply_def poll_set_def Let_def split_beta poll_drains split: sum.splits)
  have "pollOnce validate opts env net calls s =
      (case poll_fetch opts env net s of (t, PApply addrs) \<Rightarrow> poll_apply validate opts calls addrs t | (t, _) \<Rightarrow> t)"
    unfolding pollOnce_def poll_fetch_def Let_def
    by (auto simp: split_beta split: option.splits sum.splits)
  then show ?thesis unfolding set .
qed

end
