(* ===== verification/LoadBalancer.thy ===== *)
theory LoadBalancer
  imports Startup PollerRun
begin

text \<open>
  The running program, \<^verbatim>\<open>src/cmd/local-apiserver-lb/main.go\<close> from the start of the goroutines on: health
  checker, proxy and discovery over one set of backends and one pool, the final \<open>select\<close> of \<open>run\<close>,
  shutdown and the exit code.

  \<open>sys\<close> holds the shared world and pool and the private state of each component; a component sees the
  shared part through its view (\<open>hview\<close>, \<open>pview\<close>, \<open>dview\<close>). \<open>sexec\<close> executes one action of one
  component. The steps by which the theories of the components model their environment are not
  used: that every action of one component is such a step of the others is what
  \<open>proxy_guarantee\<close>, \<open>checker_guarantee\<close> and \<open>poll_guarantee\<close> show, so the invariants of the components
  hold together. The metrics server only reads.
\<close>

section \<open>State\<close>

datatype main_pc = MSelect | MShutdown | MExit int

record sys =
  sy_w :: world
  sy_pool :: Pool
  sy_h :: hstate
  sy_p :: pstate
  sy_d :: dstate
  sy_poll :: "poll_pc option" \<comment> \<open>none when discovery is off\<close>
  sy_main :: main_pc
  sy_metrics :: bool \<comment> \<open>the metrics server is up\<close>

definition hview :: "sys \<Rightarrow> hstate" where
  "hview s = (sy_h s)\<lparr>hw := sy_w s, hpool := sy_pool s\<rparr>"

definition pview :: "sys \<Rightarrow> pstate" where
  "pview s = (sy_p s)\<lparr>pw := sy_w s, ppool := sy_pool s\<rparr>"

definition dview :: "sys \<Rightarrow> dstate" where
  "dview s = (sy_d s)\<lparr>dw := sy_w s, dpool := sy_pool s\<rparr>"

definition put_h :: "hstate \<Rightarrow> sys \<Rightarrow> sys" where
  "put_h h s = s\<lparr>sy_h := h, sy_w := hw h, sy_pool := hpool h\<rparr>"

definition put_p :: "pstate \<Rightarrow> sys \<Rightarrow> sys" where
  "put_p p s = s\<lparr>sy_p := p, sy_w := pw p, sy_pool := ppool p\<rparr>"

definition put_d :: "dstate \<times> poll_pc \<Rightarrow> sys \<Rightarrow> sys" where
  "put_d dp s = s\<lparr>sy_d := fst dp, sy_poll := Some (snd dp), sy_w := dw (fst dp), sy_pool := dpool (fst dp)\<rparr>"


section \<open>Steps\<close>

datatype sact =
    SChecker hact
  | SProxy pact
  | SPoll lookup_fn poll_act \<comment> \<open>with the resolver's present answers\<close>
  | SSignal \<comment> \<open>SIGTERM or SIGINT cancels the root context\<close>
  | SHup \<comment> \<open>SIGHUP is logged and ignored\<close>
  | SDone \<comment> \<open>\<open>case <-ctx.Done()\<close>\<close>
  | SServeErr \<comment> \<open>\<open>case err := <-serveErr\<close>\<close>
  | SShutdownReturned

text \<open>The actions a component performs itself; \<open>main\<close> calls \<open>Shutdown\<close> after the \<open>select\<close>.\<close>

definition own_h :: "hact \<Rightarrow> bool" where
  "own_h a = (case a of ACancel \<Rightarrow> False | ADiscover _ \<Rightarrow> False | _ \<Rightarrow> True)"

definition own_p :: "main_pc \<Rightarrow> pact \<Rightarrow> bool" where
  "own_p m a =
     (case a of
        AReport _ _ _ _ \<Rightarrow> False | ADrain _ \<Rightarrow> False | ASetAddrs _ \<Rightarrow> False
      | AShut \<Rightarrow> m = MShutdown | AWaitDone \<Rightarrow> m = MShutdown | AExpire \<Rightarrow> m = MShutdown | AReturn \<Rightarrow> m = MShutdown
      | _ \<Rightarrow> True)"

definition exited :: "sys \<Rightarrow> bool" where
  "exited s = (case sy_main s of MExit _ \<Rightarrow> True | _ \<Rightarrow> False)"

text \<open>\<open>Shutdown\<close> always returns \<open>nil\<close>, so the branch "shutdown failed" is dead and is not an action.\<close>

definition sexec :: "program \<Rightarrow> sact \<Rightarrow> sys \<Rightarrow> sys option" where
  "sexec prog a s =
     (if exited s then None
      else
        (case a of
           SChecker a \<Rightarrow>
             if own_h a then map_option (\<lambda>h. put_h h s) (hexec (pr_checker prog) a (hview s)) else None
         | SProxy a \<Rightarrow>
             if own_p (sy_main s) a then map_option (\<lambda>p. put_p p s) (pexec (pr_proxy prog) a (pview s)) else None
         | SPoll lookup a \<Rightarrow>
             (case (pr_discovery prog, sy_poll s) of
                (Some opts, Some pc) \<Rightarrow>
                  map_option (\<lambda>dp. put_d dp s)
                    (poll_exec (\<lambda>ss. ValidateServers ss (Listen (pr_cfg prog)) lookup) opts (root_done (sy_h s)) a (dview s, pc))
              | _ \<Rightarrow> None)
         | SSignal \<Rightarrow> Some (s\<lparr>sy_h := (sy_h s)\<lparr>root_done := True\<rparr>\<rparr>)
         | SHup \<Rightarrow> Some s
         | SDone \<Rightarrow> if sy_main s = MSelect \<and> root_done (sy_h s) then Some (s\<lparr>sy_main := MShutdown\<rparr>) else None
         | SServeErr \<Rightarrow>
             (case (sy_main s, serve (sy_p s)) of
                (MSelect, ServeReturned e) \<Rightarrow> Some (s\<lparr>sy_main := MExit 1\<rparr>)
              | _ \<Rightarrow> None)
         | SShutdownReturned \<Rightarrow>
             if sy_main s = MShutdown \<and> shut (sy_p s) = ShReturned
             then Some (s\<lparr>sy_main := MExit 0, sy_metrics := False\<rparr>) else None))"

inductive sstep :: "program \<Rightarrow> sys \<Rightarrow> sys \<Rightarrow> bool" for prog where
  act: "sexec prog a s = Some t \<Longrightarrow> sstep prog s t"

fun sexecs :: "program \<Rightarrow> sact list \<Rightarrow> sys \<Rightarrow> sys option" where
  "sexecs prog [] s = Some s"
| "sexecs prog (a # as) s = (case sexec prog a s of None \<Rightarrow> None | Some t \<Rightarrow> sexecs prog as t)"

text \<open>The state after the goroutines were started, on the file system \<open>f\<close>.\<close>

definition sys_init :: "program \<Rightarrow> fs \<Rightarrow> sys" where
  "sys_init prog f =
     \<lparr>sy_w = pr_world prog, sy_pool = pr_pool prog, sy_h = hinit (pr_world prog) (pr_pool prog),
      sy_p = pinit (bheap (pr_world prog)) (pr_pool prog),
      sy_d = \<lparr>dw = pr_world prog, dpool = pr_pool prog, poller = NewPoller, dfs = f, dlog = []\<rparr>,
      sy_poll = (if pr_discovery prog = None then None else Some PStart),
      sy_main = MSelect, sy_metrics = (pr_metrics prog \<noteq> None)\<rparr>"


section \<open>Invariant\<close>

text \<open>Why \<open>run\<close> is where it is.\<close>

definition main_ok :: "sys \<Rightarrow> bool" where
  "main_ok s =
     (case sy_main s of
        MSelect \<Rightarrow> shut (sy_p s) = ShIdle \<and> \<not> shuttingDown (srv (sy_p s)) \<and> serve (sy_p s) \<noteq> ServeReturned None
      | MShutdown \<Rightarrow> root_done (sy_h s)
      | MExit n \<Rightarrow>
          if n = 0 then shut (sy_p s) = ShReturned \<and> root_done (sy_h s)
          else n = 1 \<and> shut (sy_p s) = ShIdle \<and> \<not> shuttingDown (srv (sy_p s)) \<and> (\<exists>e. serve (sy_p s) = ServeReturned (Some e)))"

definition sys_inv :: "program \<Rightarrow> sys \<Rightarrow> bool" where
  "sys_inv prog s \<longleftrightarrow>
     hinv (pr_checker prog) (hview s) \<and> pinv (pview s) \<and> srv_inv (pview s) \<and>
     (\<exists>lookup. ValidateServers (pool_addrs (sy_w s) (sy_pool s)) (Listen (pr_cfg prog)) lookup = Inr ()) \<and>
     (\<forall>bs. sy_poll s = Some (PDrain bs) \<longrightarrow> set bs \<subseteq> {..<length (bheap (sy_w s))}) \<and>
     main_ok s"


section \<open>What each component guarantees to the others\<close>

definition backend_views :: "world \<Rightarrow> (string \<times> bool \<times> int \<times> int \<times> u64) list" where
  "backend_views w = map (\<lambda>b. (addr b, health_view b)) (bheap w)"

lemma traffic_iff: "traffic w w' \<longleftrightarrow> wf_world w' \<and> backend_views w' = backend_views w"
  by (auto simp: traffic_def backend_views_def list_eq_iff_nth_eq)

lemma views_upd: "(\<And>b. addr (f b) = addr b \<and> health_view (f b) = health_view b) \<Longrightarrow> backend_views (upd_backend b f w) = backend_views w"
  by (auto simp: backend_views_def upd_backend_def list_eq_iff_nth_eq nth_update_lt)

lemma views_Track: "b < length (bheap w) \<Longrightarrow> backend_views (fst (Track b c w)) = backend_views w"
  by (auto simp: backend_views_def Track_simps list_eq_iff_nth_eq nth_update_lt add_ConnTotal_def health_view_def)

lemma views_Close: "wf_world w \<Longrightarrow> tc < length (theap w) \<Longrightarrow> backend_views (fst (Close tc w)) = backend_views w"
  by (auto simp: backend_views_def Close_closed_world list_eq_iff_nth_eq health_view_def)

lemma views_sheap [simp]: "backend_views (w\<lparr>sheap := x\<rparr>) = backend_views w" "backend_views (fst (dialed w)) = backend_views w"
  "backend_views (fst (sock_Close c w)) = backend_views w" "backend_views (fst (sock_CloseWrite c w)) = backend_views w"
  by (simp_all add: backend_views_def dialed_def sock_Close_def sock_CloseWrite_def split: if_splits)

lemma views_close_clients [simp]: "backend_views (close_clients cs w) = backend_views w"
  by (induction cs arbitrary: w) simp_all

lemma views_copy: "dir_exec a sd c tc w d = Some (w', d') \<Longrightarrow> backend_views w' = backend_views w"
  by (erule dir_exec_cases) (auto simp: close_write_def CloseWrite_def sock_read_def sock_write_def split: side.splits)

lemma handler_piping:
  assumes "sock_inv s" "i < length (handlers s)"
  shows "h_pc (handlers s ! i) = HPiping tc db dc \<Longrightarrow> tc < length (theap (pw s))"
    "h_pc (handlers s ! i) = HConnected b bc \<Longrightarrow> b < length (bheap (pw s))"
  using assms by (force simp: sock_inv_def handler_ok_def Let_def dest: nth_mem)+

lemma views_handler_next:
  assumes "sock_inv s" "i < length (handlers s)" "handler_next opts i s = Some t"
  shows "backend_views (pw t) = backend_views (pw s)"
proof -
  have "wf_world (pw s)" using assms(1) by (simp add: sock_inv_def)
  with assms handler_piping [OF assms(1,2)] show ?thesis
    by (cases "h_pc (handlers s ! i)")
      (auto simp: handler_next_def Let_def split_beta views_Track views_Close split: if_splits sum.splits)
qed

lemma proxy_guarantee:
  assumes inv: "pinv s" and a: "pexec opts a s = Some t" and own: "own_p m a"
  shows "traffic (pw s) (pw t)" "backends (ppool t) = backends (ppool s)"
proof -
  have s: "sock_inv s" "length (backends (ppool s)) < 2 ^ 63" using inv by (simp_all add: pinv_def)
  have "wf_world (pw t)" using pinv_exec [OF inv a] by (simp add: pinv_def sock_inv_def)
  moreover have "backend_views (pw t) = backend_views (pw s) \<and> backends (ppool t) = backends (ppool s)"
  proof (cases a)
    case (AHandler i)
    with a have t: "handler_next opts i s = Some t" "i < length (handlers s)" by (auto simp: pexec_def split: if_splits)
    with views_handler_next [OF s(1) t(2,1)] backends_next [OF t(1) s(2)] show ?thesis by simp
  next
    case (ADial i ok)
    have "backend_views (dial_failed b w) = backend_views w" for b w
      unfolding dial_failed_def by (rule views_upd) (simp add: add_DialError_def health_view_def)
    with ADial a show ?thesis
      by (auto simp: pexec_def handler_dial_def split_beta Let_def split: if_splits hpc.splits list.splits)
  next
    case (ACopy i sd d)
    with a show ?thesis
      by (auto simp: pexec_def handler_copy_def Let_def split: if_splits hpc.splits option.splits dest: views_copy)
  qed (use a own in \<open>auto simp: pexec_def own_p_def serve_start_def serve_accept_def serve_error_def serve_spawn_def shut_next_def
      shut_wait_done_def shut_expire_def shut_return_def Let_def split_beta split: if_splits serve_pc.splits shut_pc.splits\<close>)
  ultimately show "traffic (pw s) (pw t)" "backends (ppool t) = backends (ppool s)" by (simp_all add: traffic_iff)
qed


lemma upd_report_eq:
  "upd_backend b (\<lambda>_. fst (ReportHealth ok f r (bheap w ! b))) w = upd_backend b (\<lambda>x. fst (ReportHealth ok f r x)) w"
  by (simp add: upd_backend_def)

lemma checker_world:
  assumes "hexec opts a h = Some h'" "own_h a"
  obtains (same) "hw h' = hw h" "hpool h' = hpool h" "root_done h' = root_done h"
  | (report) b ok f r where "hw h' = upd_backend b (\<lambda>x. fst (ReportHealth ok f r x)) (hw h)" "hpool h' = hpool h" "root_done h' = root_done h"
  | (drain) i where "i < length (mons h)" "hw h' = fst (DrainAll (m_b (mons h ! i)) (hw h))" "hpool h' = hpool h" "root_done h' = root_done h"
proof (cases a)
  case (AMon i err)
  with assms(1) have i: "i < length (mons h)" "mon_next opts i err h = Some h'" by (auto simp: hexec_def split: if_splits)
  show thesis
  proof (cases "m_pc (mons h ! i)")
    case (Checked e)
    with i show thesis
      by (intro report [of "m_b (mons h ! i)" "e = None" "OFall opts" "ORise opts"])
        (auto simp: mon_next_def reports_def Let_def split_beta upd_report_eq)
  next
    case Draining
    with i show thesis by (intro drain [of i]) (auto simp: mon_next_def drains_def Let_def split_beta)
  qed (use i in \<open>auto intro!: same simp: mon_next_def checks_def reads_def counts_def writes_def Let_def split_beta split: if_splits\<close>)
qed (use assms in \<open>auto intro!: same simp: hexec_def own_h_def reconcile_with_def Run_stop_def split: if_splits option.splits\<close>)

text \<open>The proxy's invariant survives what the others do, because its environment actions cover them.\<close>

lemma pinv_report:
  assumes "pinv p" shows "pinv (p\<lparr>pw := upd_backend b (\<lambda>x. fst (ReportHealth ok f r x)) (pw p)\<rparr>)"
  using pinv_exec [OF assms, of opts "AReport b ok f r"] by (simp add: pexec_def env_report_def)

lemma pinv_drain:
  assumes "pinv p" "b < length (bheap (pw p))" shows "pinv (p\<lparr>pw := fst (DrainAll b (pw p))\<rparr>)"
  using pinv_exec [OF assms(1), of opts "ADrain b"] assms(2) by (simp add: pexec_def env_drain_def)

lemma pinv_addrs:
  assumes "pinv p" "distinct addrs" "length addrs < 2 ^ 63" "SetAddrs addrs (pw p) (ppool p) = (w, pool, added, removed)"
  shows "pinv (p\<lparr>pw := w, ppool := pool\<rparr>)"
  using pinv_exec [OF assms(1), of opts "ASetAddrs addrs"] assms(2-4) by (simp add: pexec_def env_addrs_def)

text \<open>Addresses of existing backends never change.\<close>

definition addrs_kept :: "world \<Rightarrow> world \<Rightarrow> bool" where
  "addrs_kept w w' \<longleftrightarrow> length (bheap w') = length (bheap w) \<and> (\<forall>b < length (bheap w). Addr (bheap w' ! b) = Addr (bheap w ! b))"

lemma pool_addrs_kept:
  assumes "addrs_kept w w'" "pool_inv w p" "backends p' = backends p"
  shows "pool_addrs w' p' = pool_addrs w p"
  using assms by (auto simp: pool_addrs_def addrs_kept_def pool_inv_def)

lemma addrs_kept_intros:
  "addrs_kept w w" "addrs_kept w (upd_backend b (\<lambda>x. fst (ReportHealth ok f r x)) w)"
  "wf_world w \<Longrightarrow> b < length (bheap w) \<Longrightarrow> addrs_kept w (fst (DrainAll b w))"
  "traffic w w' \<Longrightarrow> addrs_kept w w'"
  by (auto simp: addrs_kept_def Addr_def upd_backend_def nth_update_lt ReportHealth_frame DrainAll_bheap add_Drained_def traffic_def)

lemma checker_guarantee:
  assumes inv: "hinv opts h" and a: "hexec opts a h = Some h'" "own_h a" and p: "pinv p" "pw p = hw h" "ppool p = hpool h"
  shows "pinv (p\<lparr>pw := hw h', ppool := hpool h'\<rparr>)" "addrs_kept (hw h) (hw h')" "hpool h' = hpool h" "root_done h' = root_done h"
proof -
  have wf: "wf_world (hw h)" using hinv_parts(1) [OF inv] by (simp add: world_ok_def)
  have eq: "p\<lparr>pw := w, ppool := hpool h\<rparr> = p\<lparr>pw := w\<rparr>" for w using p(3) by simp
  have "pinv (p\<lparr>pw := hw h', ppool := hpool h'\<rparr>) \<and> addrs_kept (hw h) (hw h') \<and> hpool h' = hpool h \<and> root_done h' = root_done h"
  proof (cases rule: checker_world [OF a, case_names same report drain])
    case same
    have "p\<lparr>pw := hw h, ppool := hpool h\<rparr> = p" unfolding p(2,3) [symmetric] by simp
    with same p(1) show ?thesis by (simp add: addrs_kept_intros(1))
  next
    case (report b ok f r)
    with pinv_report [OF p(1), of b ok f r] p(2) show ?thesis by (simp add: eq addrs_kept_intros(2))
  next
    case (drain i)
    with pinv_drain [OF p(1), of "m_b (mons h ! i)"] p(2) wf hinv_monitor_bound [OF inv, of i] show ?thesis
      by (simp add: eq addrs_kept_intros(3))
  qed
  then show "pinv (p\<lparr>pw := hw h', ppool := hpool h'\<rparr>)" "addrs_kept (hw h) (hw h')" "hpool h' = hpool h" "root_done h' = root_done h"
    by blast+
qed


lemma hinv_Drain:
  assumes "hinv opts h" "b < length (bheap (hw h))"
  shows "hinv opts (h\<lparr>hw := fst (DrainAll b (hw h))\<rparr>)"
  by (rule hsm.inv_step [OF assms(1) hstep.h_drain_removed [OF assms(2)]])

lemma hinv_picker: "hinv opts h \<Longrightarrow> backends p = backends (hpool h) \<Longrightarrow> hinv opts (h\<lparr>hpool := p\<rparr>)"
  by (simp add: hinv_def pool_inv_def pool_addrs_def sup_inv_def mon_ids_def mon_inv_def)

lemma pinv_picker: "pinv s \<Longrightarrow> backends p = backends (ppool s) \<Longrightarrow> pinv (s\<lparr>ppool := p\<rparr>)"
  by (simp add: pinv_def sock_inv_def pool_inv_def pool_addrs_def raw_socks_def piped_def pending_def)

text \<open>What a round of discovery does to backends and pool: nothing but the rotation, a new list that was
  accepted, or a drain.\<close>

lemma poll_world:
  assumes "poll_exec validate opts c a (d, pc) = Some (d', pc')" "length (backends (dpool d)) < 2 ^ 63"
  obtains (same) "dw d' = dw d" "backends (dpool d') = backends (dpool d)" "\<And>bs. pc' = PDrain bs \<Longrightarrow> False"
  | (replaced) addrs w p added removed where "SetAddrs addrs (dw d) (dpool d) = (w, p, added, removed)" "dw d' = w" "dpool d' = p"
      "pc' = PDrain removed" "is_ok (validate addrs)" "length addrs < 2 ^ 63" "addrs \<noteq> []"
  | (drain) b bs where "pc = PDrain (b # bs)" "pc' = PDrain bs" "dw d' = fst (DrainAll b (dw d))" "dpool d' = dpool d"
proof (cases a)
  case (PAFetch env net)
  with assms(1) have "(d', pc') = poll_fetch opts env net d" by (auto simp: poll_exec_def split: poll_pc.splits)
  with poll_fetch_frame [OF assms(2), of opts env net] show thesis by (intro same) (metis fst_conv snd_conv)+
next
  case (PASet calls)
  with assms(1) obtain addrs where s: "poll_set validate opts calls addrs d = (d', pc')" "length addrs < 2 ^ 63"
    by (auto simp: poll_exec_def split: poll_pc.splits if_splits)
  then have d': "d' = fst (poll_set validate opts calls addrs d)" "pc' = snd (poll_set validate opts calls addrs d)"
    by simp_all
  show thesis
  proof (rule poll_set_cases [of validate opts calls addrs d])
    assume "dw (fst (poll_set validate opts calls addrs d)) = dw d"
      "dpool (fst (poll_set validate opts calls addrs d)) = dpool d" "snd (poll_set validate opts calls addrs d) = PWait"
    then show thesis by (intro same) (simp_all add: d')
  next
    fix w p added removed
    assume "SetAddrs addrs (dw d) (dpool d) = (w, p, added, removed)"
      "dw (fst (poll_set validate opts calls addrs d)) = w" "dpool (fst (poll_set validate opts calls addrs d)) = p"
      "snd (poll_set validate opts calls addrs d) = PDrain removed" "addrs \<noteq> []" "is_ok (validate addrs)"
    with s(2) show thesis by (intro replaced) (simp_all add: d')
  qed
next
  case PADrain
  then obtain bs where bs: "pc = PDrain bs" using assms(1) by (cases pc) (auto simp: poll_exec_def)
  show thesis
  proof (cases bs)
    case Nil
    with PADrain bs assms(1) show thesis by (intro same) (auto simp: poll_exec_def)
  next
    case (Cons b bs')
    with PADrain bs assms(1) show thesis
      by (intro drain [of b bs']) (auto simp: poll_exec_def poll_drain_def split_beta Let_def)
  qed
qed (use assms(1) in \<open>auto intro!: same simp: poll_exec_def split: poll_pc.splits if_splits\<close>)



section \<open>The invariant of the running program\<close>

lemma views [simp]:
  "hview (put_h h s) = h" "pview (put_p p s) = p" "dview (put_d dp s) = fst dp"
  "pview (put_h h s) = (pview s)\<lparr>pw := hw h, ppool := hpool h\<rparr>"
  "hview (put_p p s) = (hview s)\<lparr>hw := pw p, hpool := ppool p\<rparr>"
  "pview (put_d dp s) = (pview s)\<lparr>pw := dw (fst dp), ppool := dpool (fst dp)\<rparr>"
  "hview (put_d dp s) = (hview s)\<lparr>hw := dw (fst dp), hpool := dpool (fst dp)\<rparr>"
  by (simp_all add: hview_def pview_def dview_def put_h_def put_p_def put_d_def)

lemma view_fields [simp]:
  "hw (hview s) = sy_w s" "hpool (hview s) = sy_pool s" "pw (pview s) = sy_w s" "ppool (pview s) = sy_pool s"
  "dw (dview s) = sy_w s" "dpool (dview s) = sy_pool s"
  "shut (pview s) = shut (sy_p s)" "serve (pview s) = serve (sy_p s)" "srv (pview s) = srv (sy_p s)"
  "root_done (hview s) = root_done (sy_h s)"
  by (simp_all add: hview_def pview_def dview_def)

lemma view_upds:
  "(hview s)\<lparr>hw := w, hpool := sy_pool s\<rparr> = (hview s)\<lparr>hw := w\<rparr>" "(pview s)\<lparr>pw := w, ppool := sy_pool s\<rparr> = (pview s)\<lparr>pw := w\<rparr>"
  "(hview s)\<lparr>hw := sy_w s, hpool := p\<rparr> = (hview s)\<lparr>hpool := p\<rparr>" "(pview s)\<lparr>pw := sy_w s, ppool := p\<rparr> = (pview s)\<lparr>ppool := p\<rparr>"
  "hview (s\<lparr>sy_h := (sy_h s)\<lparr>root_done := r\<rparr>\<rparr>) = (hview s)\<lparr>root_done := r\<rparr>"
  by (cases "sy_h s"; simp add: hview_def pview_def)+

lemma put_fields [simp]:
  "sy_w (put_h h s) = hw h" "sy_pool (put_h h s) = hpool h" "sy_h (put_h h s) = h" "sy_p (put_h h s) = sy_p s"
  "sy_poll (put_h h s) = sy_poll s" "sy_main (put_h h s) = sy_main s"
  "sy_w (put_p p s) = pw p" "sy_pool (put_p p s) = ppool p" "sy_p (put_p p s) = p" "sy_h (put_p p s) = sy_h s"
  "sy_poll (put_p p s) = sy_poll s" "sy_main (put_p p s) = sy_main s"
  "sy_w (put_d dp s) = dw (fst dp)" "sy_pool (put_d dp s) = dpool (fst dp)" "sy_p (put_d dp s) = sy_p s"
  "sy_h (put_d dp s) = sy_h s" "sy_poll (put_d dp s) = Some (snd dp)" "sy_main (put_d dp s) = sy_main s"
  by (simp_all add: put_h_def put_p_def put_d_def)

lemma srv_inv_frame [simp]: "srv_inv (s\<lparr>pw := w\<rparr>) = srv_inv s" "srv_inv (s\<lparr>ppool := p\<rparr>) = srv_inv s"
  by (cases "shut s"; simp add: srv_inv_def in_flight_def pending_def)+

lemma main_ok_same [simp]:
  "root_done h = root_done (sy_h s) \<Longrightarrow> main_ok (put_h h s) = main_ok s" "main_ok (put_d dp s) = main_ok s"
  by (cases "sy_main s"; simp add: main_ok_def)+

text \<open>\<open>Serve\<close> cannot return without an error before \<open>Shutdown\<close> is called.\<close>

lemma serving_proxy:
  assumes "pexec opts a p = Some p'" "own_p MSelect a"
    and "shut p = ShIdle" "\<not> shuttingDown (srv p)" "serve p \<noteq> ServeReturned None"
  shows "shut p' = ShIdle \<and> \<not> shuttingDown (srv p') \<and> serve p' \<noteq> ServeReturned None"
proof (cases a)
  case (AHandler i)
  with assms show ?thesis
    by (auto simp: pexec_def handler_next_def trackClient_def Let_def split_beta split: if_splits hpc.splits sum.splits)
next
  case (ADial i ok)
  with assms show ?thesis
    by (auto simp: pexec_def handler_dial_def split_beta Let_def split: if_splits hpc.splits list.splits)
next
  case (ACopy i sd d)
  with assms show ?thesis
    by (auto simp: pexec_def handler_copy_def Let_def split: if_splits hpc.splits option.splits)
qed (use assms in \<open>auto simp: pexec_def own_p_def serve_start_def serve_accept_def serve_error_def serve_spawn_def Let_def split_beta
    split: if_splits serve_pc.splits\<close>)

lemma sys_inv_checker:
  assumes inv: "sys_inv prog s" and a: "hexec (pr_checker prog) a (hview s) = Some h" "own_h a"
  shows "sys_inv prog (put_h h s)"
proof -
  have h: "hinv (pr_checker prog) (hview s)" "pinv (pview s)" using inv by (simp_all add: sys_inv_def)
  note g = checker_guarantee [OF h(1) a h(2), simplified]
  have "pool_inv (sy_w s) (sy_pool s)" using hinv_parts(2) [OF h(1)] by simp
  then have "pool_addrs (hw h) (hpool h) = pool_addrs (sy_w s) (sy_pool s)" using g by (intro pool_addrs_kept) simp_all
  moreover have "hinv (pr_checker prog) h" by (rule hsm.inv_step [OF h(1) hexec_hstep [OF a(1)]])
  ultimately show ?thesis using inv g by (simp add: sys_inv_def addrs_kept_def)
qed

lemma sys_inv_proxy:
  assumes inv: "sys_inv prog s" and a: "pexec (pr_proxy prog) a (pview s) = Some p" "own_p (sy_main s) a" "\<not> exited s"
  shows "sys_inv prog (put_p p s)"
proof -
  have h: "hinv (pr_checker prog) (hview s)" "pinv (pview s)" "srv_inv (pview s)" using inv by (simp_all add: sys_inv_def)
  note g = proxy_guarantee [OF h(2) a(1,2), simplified]
  have pi: "pool_inv (sy_w s) (sy_pool s)" using hinv_parts(2) [OF h(1)] by simp
  note kept = addrs_kept_intros(4) [OF g(1)]
  have "pool_addrs (pw p) (ppool p) = pool_addrs (sy_w s) (sy_pool s)" by (rule pool_addrs_kept [OF kept pi g(2)])
  moreover have "hinv (pr_checker prog) ((hview s)\<lparr>hw := pw p, hpool := ppool p\<rparr>)"
    by (rule hinv_traffic [OF h(1)]) (simp_all add: g)
  moreover have "pinv p" "srv_inv p"
    using pinv_exec [OF h(2) a(1)] psrv.inv_step [OF h(3) pstep.act [OF a(1)]] by simp_all
  moreover have "main_ok (put_p p s)"
    using inv a serving_proxy [OF a(1)] by (auto simp: sys_inv_def main_ok_def exited_def split: main_pc.splits)
  ultimately show ?thesis using inv kept by (simp add: sys_inv_def addrs_kept_def)
qed


lemma sys_inv_poll:
  assumes inv: "sys_inv prog s" and pc: "sy_poll s = Some pc"
    and a: "poll_exec (\<lambda>ss. ValidateServers ss (Listen (pr_cfg prog)) lookup) opts c a (dview s, pc) = Some (d, pc')"
  shows "sys_inv prog (put_d (d, pc') s)"
proof -
  have h: "hinv (pr_checker prog) (hview s)" "pinv (pview s)" "srv_inv (pview s)" "main_ok s"
    and bs: "pc = PDrain bs \<Longrightarrow> set bs \<subseteq> {..<length (bheap (sy_w s))}" for bs
    using inv pc by (simp_all add: sys_inv_def)
  have pi: "pool_inv (sy_w s) (sy_pool s)" and wf: "wf_world (sy_w s)"
    using hinv_parts(1,2) [OF h(1)] by (simp_all add: world_ok_def)
  have "length (backends (dpool (dview s))) < 2 ^ 63" using h(2) by (simp add: pinv_def)
  from a this show ?thesis
  proof (cases rule: poll_world [case_names same replaced drain])
    case same
    from same h inv hinv_picker [OF h(1), of "dpool d"] pinv_picker [OF h(2), of "dpool d"] show ?thesis
      by (auto simp: sys_inv_def pool_addrs_def view_upds)
  next
    case (replaced addrs w p added removed)
    then have ok: "ValidateServers addrs (Listen (pr_cfg prog)) lookup = Inr ()" by (auto simp: is_ok_iff)
    note dist = vet.vet_distinct [OF ok]
    have set: "SetAddrs addrs (sy_w s) (sy_pool s) = (w, p, added, removed)" using replaced(1) by simp
    note spec = SetAddrs_spec [OF pi dist set]
    have "hinv (pr_checker prog) ((hview s)\<lparr>hw := w, hpool := p\<rparr>)"
      using hinv_discover [OF h(1) dist] set by (simp add: discovery_sets_def)
    moreover have "pinv ((pview s)\<lparr>pw := w, ppool := p\<rparr>)"
      using pinv_addrs [OF h(2) dist replaced(6)] set by simp
    moreover have "set removed \<subseteq> {..<length (bheap w)}" using spec pi by (auto simp: pool_inv_def)
    ultimately show ?thesis using replaced h ok spec(2) by (auto simp: sys_inv_def)
  next
    case (drain b bs')
    then have b: "b < length (bheap (sy_w s))" using bs by simp
    note kept = addrs_kept_intros(3) [OF wf b]
    have "pool_addrs (fst (DrainAll b (sy_w s))) (sy_pool s) = pool_addrs (sy_w s) (sy_pool s)"
      by (rule pool_addrs_kept [OF kept pi refl])
    then show ?thesis
      using drain inv h bs kept hinv_Drain [OF h(1)] pinv_drain [OF h(2)] b by (auto simp: sys_inv_def addrs_kept_def view_upds)
  qed
qed


lemma sys_inv_main:
  assumes "sys_inv prog s" "\<not> exited s"
  shows "sys_inv prog (s\<lparr>sy_h := (sy_h s)\<lparr>root_done := True\<rparr>\<rparr>)"
    "sy_main s = MSelect \<Longrightarrow> root_done (sy_h s) \<Longrightarrow> sys_inv prog (s\<lparr>sy_main := MShutdown\<rparr>)"
    "sy_main s = MSelect \<Longrightarrow> serve (sy_p s) = ServeReturned e \<Longrightarrow> sys_inv prog (s\<lparr>sy_main := MExit 1\<rparr>)"
    "sy_main s = MShutdown \<Longrightarrow> shut (sy_p s) = ShReturned \<Longrightarrow> sys_inv prog (s\<lparr>sy_main := MExit 0, sy_metrics := m\<rparr>)"
proof -
  have "hinv (pr_checker prog) ((hview s)\<lparr>root_done := True\<rparr>)"
    using assms(1) hsm.inv_step [OF _ hstep.h_cancel] by (auto simp: sys_inv_def)
  with assms show "sys_inv prog (s\<lparr>sy_h := (sy_h s)\<lparr>root_done := True\<rparr>\<rparr>)"
    by (auto simp: sys_inv_def main_ok_def view_upds pview_def exited_def split: main_pc.splits)
  show "sy_main s = MSelect \<Longrightarrow> root_done (sy_h s) \<Longrightarrow> sys_inv prog (s\<lparr>sy_main := MShutdown\<rparr>)"
    "sy_main s = MSelect \<Longrightarrow> serve (sy_p s) = ServeReturned e \<Longrightarrow> sys_inv prog (s\<lparr>sy_main := MExit 1\<rparr>)"
    "sy_main s = MShutdown \<Longrightarrow> shut (sy_p s) = ShReturned \<Longrightarrow> sys_inv prog (s\<lparr>sy_main := MExit 0, sy_metrics := m\<rparr>)"
    using assms(1) by (auto simp: sys_inv_def main_ok_def hview_def pview_def)
qed

lemma sys_inv_exec:
  assumes "sys_inv prog s" "sexec prog a s = Some t"
  shows "sys_inv prog t"
proof -
  have n: "\<not> exited s" using assms(2) by (auto simp: sexec_def split: if_splits)
  show ?thesis
  proof (cases a)
    case (SPoll lookup p)
    with assms n obtain opts pc dp where e: "sy_poll s = Some pc" "t = put_d dp s"
      "poll_exec (\<lambda>ss. ValidateServers ss (Listen (pr_cfg prog)) lookup) opts (root_done (sy_h s)) p (dview s, pc) = Some dp"
      by (auto simp: sexec_def split: option.splits)
    with sys_inv_poll [OF assms(1) e(1)] show ?thesis by (cases dp) auto
  qed (use assms n sys_inv_checker sys_inv_proxy sys_inv_main [OF assms(1) n] in
      \<open>auto simp: sexec_def split: if_splits main_pc.splits serve_pc.splits\<close>)
qed

interpretation lb: inductive_invariant "sstep prog" "sys_inv prog" for prog
  by unfold_locales (auto elim!: sstep.cases intro: sys_inv_exec)

lemma sexecs_reaches: "sexecs prog as s = Some t \<Longrightarrow> reaches (sstep prog) s t"
proof (induction "as" arbitrary: s)
  case (Cons a as)
  then obtain u where "sexec prog a s = Some u" "sexecs prog as u = Some t" by (auto split: option.splits)
  with Cons.IH show ?case by (meson sstep.act reaches_step reaches_trans)
qed (simp add: reaches.here)


lemma sys_init_inv:
  assumes "run_start bi env args = Inr prog" and "length (backends (pr_pool prog)) < 2 ^ 63"
  shows "sys_inv prog (sys_init prog f)"
proof -
  note sound = started_sound [OF assms, of f]
  have w: "pr_world prog = \<lparr>bheap = bheap (pr_world prog), theap = [], sheap = []\<rparr>"
    by (rule started [OF assms(1)]) simp
  have "pview (sys_init prog f) = pinit (bheap (pr_world prog)) (pr_pool prog)"
    using w by (simp add: pview_def sys_init_def pinit_def)
  moreover have "hview (sys_init prog f) = hinit (pr_world prog) (pr_pool prog)"
    by (simp add: hview_def sys_init_def hinit_def)
  moreover have "main_ok (sys_init prog f)" by (simp add: main_ok_def sys_init_def pinit_def Server_New_def)
  ultimately show ?thesis using sound by (auto simp: sys_inv_def sys_init_def)
qed

text \<open>A program that is stopped before the first connection.\<close>

definition stopped_early :: "sact list" where
  "stopped_early = [SChecker ASnapshot, SChecker AReconcile, SHup, SSignal, SDone, SProxy AShut, SProxy AShut,
     SProxy AWaitDone, SProxy AReturn, SShutdownReturned]"

lemma stopped_early_run:
  assumes "backends (pr_pool prog) = [0]" "length (bheap (pr_world prog)) = 1"
  obtains s where "sexecs prog stopped_early (sys_init prog f) = Some s" "sy_main s = MExit 0" "map m_b (mons (sy_h s)) = [0]"
  using assms that
  by (auto simp: stopped_early_def sexec_def exited_def own_h_def own_p_def hexec_def sys_init_def hview_def pview_def hinit_def
      pinit_def put_h_def put_p_def reconcile_with_def stop_gone_def start_monitor_def NewChecker_def Backends_def Let_def
      pexec_def shut_next_def shut_wait_done_def shut_return_def waiting_def Server_New_def)


lemma example_stopped:
  obtains prog s where "run_start build_defaults (example_run_env Map.empty) example_args = Inr prog"
    "length (backends (pr_pool prog)) < 2 ^ 63" "reaches (sstep prog) (sys_init prog Map.empty) s"
    "sy_main s = MExit 0" "map m_b (mons (sy_h s)) = [0]"
proof -
  obtain prog where r: "run_start build_defaults (example_run_env Map.empty) example_args = Inr prog"
    and n: "length (backends (pr_pool prog)) = length (fst (choose_servers (example_run_env Map.empty) example_parsed))"
    by (rule example_started)
  have "choose_servers (example_run_env Map.empty) example_parsed = ([''10.0.0.1:6443''], [LogStateAbsent])"
    by (simp add: choose_servers_def example_parsed_def default_config_def example_run_env_def LoadState_def fs_read_def)
  with n have one: "length (backends (pr_pool prog)) = 1" by simp
  have "backends (pr_pool prog) = [0]" "length (bheap (pr_world prog)) = 1"
    by (rule started [OF r], use one in simp)+
  then obtain s where "sexecs prog stopped_early (sys_init prog Map.empty) = Some s" "sy_main s = MExit 0" "map m_b (mons (sy_h s)) = [0]"
    by (rule stopped_early_run)
  with that [OF r _ sexecs_reaches] one show thesis by simp
qed

end
