(* ===== verification/Spec2Isabelle.thy ===== *)
theory Spec2Isabelle
  imports LoadBalancer
begin

text \<open>
  A verification development of \<^verbatim>\<open>local-apiserver-lb\<close>, the node-local TCP load balancer for Kubernetes
  apiservers.

  \<^bold>\<open>The program.\<close> Worker components connect to a local address; the proxy (\<^verbatim>\<open>src/internal/proxy\<close>) forwards
  each connection to a healthy control plane node chosen by the pool (\<^verbatim>\<open>src/internal/backend\<close>). The health
  checker (\<^verbatim>\<open>src/internal/health\<close>) probes every member, takes failing ones out of service and closes their
  connections. Discovery (\<^verbatim>\<open>src/internal/discovery\<close>, with \<^verbatim>\<open>src/internal/kubeconfig\<close>) replaces the members by
  the addresses of the cluster's Endpoints object and saves them to a state file. Command line and
  validation are \<^verbatim>\<open>src/internal/config\<close>, the HTTP endpoints \<^verbatim>\<open>src/internal/metrics\<close>, and
  \<^verbatim>\<open>src/cmd/local-apiserver-lb/main.go\<close> puts everything together. Backends are shared by all of them: the
  model keeps them, the tracked connections and the sockets in one explicit heap, the record \<open>world\<close>,
  and the pool is a list of pointers into it.

  \<^bold>\<open>Theories\<close>, in the order of their imports, with the source they model:
  \<^item> \<^verbatim>\<open>Prelude\<close>: results as sums, the locale \<open>inductive_invariant\<close> that every state machine interprets,
    streaks in histories, list lemmas.
  \<^item> \<^verbatim>\<open>Backend\<close> (backend.go): one backend's health state machine, connection registry and draining. The
    fall/rise counters refine a specification over the history of probe results; draining closes exactly
    the tracked connections.
  \<^item> \<^verbatim>\<open>Pool\<close> (pool.go): round robin with its 64-bit counter, least connections, candidates, \<open>SetAddrs\<close>.
    Both pickers interpret one contract; fairness, stability of the sort, and reconciliation keeping the
    state of retained backends.
  \<^item> \<^verbatim>\<open>Pipe\<close>, \<^verbatim>\<open>Proxy\<close>, \<^verbatim>\<open>ProxySockets\<close> (proxy.go): one direction of a connection; \<open>Serve\<close>, \<open>handle\<close> and
    \<open>Shutdown\<close> as a transition function with one action per call that another goroutine can interleave
    with; the ownership of every socket. A socket records the bytes received from it and sent to it. Bytes
    pass unchanged, half-closed connections are served to their end, nothing leaks, shutdown drains.
  \<^item> \<^verbatim>\<open>Prober\<close>, \<^verbatim>\<open>Checker\<close> (prober.go, checker.go): the probes and their TLS verification; the supervisor
    and its monitors, as functions and as an interleaving. Exactly one live monitor per registered
    backend, a backend that fails is drained, no health change after cancellation.
  \<^item> \<^verbatim>\<open>GoStrings\<close>, \<^verbatim>\<open>GoNet\<close>, \<^verbatim>\<open>GoJson\<close>, \<^verbatim>\<open>GoFlag\<close>: what the source uses of Go's \<open>strings\<close>, \<open>strconv\<close>, \<open>net\<close>,
    \<open>encoding/json\<close>, \<open>flag\<close> and \<open>time\<close>.
  \<^item> \<^verbatim>\<open>Config\<close>, \<^verbatim>\<open>ConfigParse\<close>, \<^verbatim>\<open>Validate\<close> (config.go, validate.go): the configuration, the flags, and what
    validation accepts, as a declarative predicate and with the error reported first.
  \<^item> \<^verbatim>\<open>Yaml\<close>, \<^verbatim>\<open>Kubeconfig\<close> (yaml.go, kubeconfig.go): lexer, block and flow parser, credentials. Printed trees
    parse back; exactly one credential is selected.
  \<^item> \<^verbatim>\<open>StateFile\<close>, \<^verbatim>\<open>Discovery\<close>, \<^verbatim>\<open>PollerRun\<close> (state.go, discovery.go): atomic saving with every failing call
    and crash point; one discovery round; the loop cut into the pieces other goroutines can see.
  \<^item> \<^verbatim>\<open>Metrics\<close> (metrics.go): the endpoints; a reader of the text format recovers the values.
  \<^item> \<^verbatim>\<open>Startup\<close> (main.go up to the goroutines, version.go): exit codes, the choice between state file and
    command line, the components that are built.
  \<^item> \<^verbatim>\<open>LoadBalancer\<close> (main.go from the goroutines on): health checker, proxy, discovery and the final \<open>select\<close>
    over one shared heap. Each component's environment assumptions are discharged by the guarantees of
    the others, so all invariants hold of the running program.

  \<^bold>\<open>Conventions.\<close> A Go struct is a record, an error a value of a sum type, a panic a value of \<open>go_panic\<close>.
  \<open>uint64\<close> counters are 64-bit words; durations and Go's \<open>int\<close> are \<open>int\<close>, with the bounds stated where
  they matter. What the network, the resolver, the file system, \<open>crypto/x509\<close> and the TLS client answer
  is an argument of the operation that asks. Concurrency is an interleaving of actions, each a lock
  region or a call; a schedule is a list of actions, executed by \<open>pexecs\<close>, \<open>hexecs\<close> and \<open>sexecs\<close>.

  \<^bold>\<open>Bounds and fuel.\<close> The YAML parser recurses on fuel that starts above twice the bytes of its input;
  \<open>parse_terminates\<close> shows it is never used up. The duration parser has a termination proof. Lists of
  backends are shorter than \<open>2^63\<close>, as Go slices are; it is a hypothesis where the rotation arithmetic
  needs it. \<open>io.Copy\<close> moves chunks of at most 32 KiB.

  \<^bold>\<open>Not modelled.\<close> \<open>Candidates\<close>, \<open>HealthyCount\<close> and \<open>DrainAll\<close> are single actions of the interleavings although
  they take one lock per backend or connection. Time is not: a tick or the end of the grace period may
  come at any moment. The file system keeps the effects of system calls in their order: \<open>saveState\<close> does
  not call \<open>fsync\<close>, so crash means a crash of the process, not of the machine. Debug messages, \<open>http.Server\<close> and its timeouts, the HTTP and TLS transports, and
  the wording of error messages are left out. The deployment files, the \<^verbatim>\<open>Makefile\<close> and the tests hold no
  program logic.
\<close>

section \<open>Properties\<close>

text \<open>C1: the components work together: in every state the running program can reach, however health checker, proxy,
  discovery, signals and \<open>main\<close> interleave, each backend has at most one monitor, none is leaked, the health
  counters are within their thresholds, the pool is a list of servers that passed validation, every connection
  counted by a backend is piped by a handler, and the wait group counts the live handlers.\<close>

theorem system_invariant:
  assumes "run_start bi env args = Inr prog" and "length (backends (pr_pool prog)) < 2 ^ 63"
    and "reaches (sstep prog) (sys_init prog f) s"
  shows "distinct (map m_b (mons (sy_h s))) \<and>
    (\<forall>m \<in> set (mons (sy_h s)). monitors (chk (sy_h s)) (m_b m) = Some (m_ctx m) \<or>
       monitors (chk (sy_h s)) (m_b m) = None \<and> cancelled (sy_h s) ! m_ctx m) \<and>
    (\<forall>b < length (bheap (sy_w s)). health_inv (Fall (pr_cfg prog)) (Rise (pr_cfg prog)) (bheap (sy_w s) ! b) \<and>
       set (conns (bheap (sy_w s) ! b)) \<subseteq> set (piped (sy_p s))) \<and>
    (\<exists>lookup. ValidateServers (pool_addrs (sy_w s) (sy_pool s)) (Listen (pr_cfg prog)) lookup = Inr ()) \<and>
    wg (srv (sy_p s)) = length (filter alive (handlers (sy_p s)))"
proof -
  have inv: "sys_inv prog s" using lb.reaches_inv [OF assms(3) sys_init_inv [OF assms(1,2)]] .
  then have h: "hinv (pr_checker prog) (hview s)" "sock_inv (pview s)" "srv_inv (pview s)"
    by (simp_all add: sys_inv_def pinv_def)
  have ck: "pr_checker prog = checker_options (pr_cfg prog)" by (rule started [OF assms(1)]) simp
  have mons: "mons (hview s) = mons (sy_h s)" "chk (hview s) = chk (sy_h s)" "cancelled (hview s) = cancelled (sy_h s)"
    by (simp_all add: hview_def)
  have piped: "piped (pview s) = piped (sy_p s)" "handlers (pview s) = handlers (sy_p s)" by (simp_all add: piped_def pview_def)
  have "(m_ctx m, m_b m) \<in> set (mon_ids (hview s))" if "m \<in> set (mons (sy_h s))" for m
    using that by (force simp: mon_ids_def mons)
  then have "distinct (map m_b (mons (sy_h s)))"
    "\<forall>m \<in> set (mons (sy_h s)). monitors (chk (sy_h s)) (m_b m) = Some (m_ctx m) \<or>
       monitors (chk (sy_h s)) (m_b m) = None \<and> cancelled (sy_h s) ! m_ctx m"
    using hinv_parts(3) [OF h(1)] by (auto simp: sup_inv_def mon_inv_def mon_ids_def mons comp_def)
  moreover have "health_inv (Fall (pr_cfg prog)) (Rise (pr_cfg prog)) (bheap (sy_w s) ! b)" if "b < length (bheap (sy_w s))" for b
    using hinv_parts(1) [OF h(1)] that by (simp add: world_ok_def ck checker_options_def)
  moreover have "set (conns (bheap (sy_w s) ! b)) \<subseteq> set (piped (sy_p s))" if "b < length (bheap (sy_w s))" for b
    using h(2) that wf_conns_iff [of "sy_w s" b] by (auto simp: sock_inv_def piped)
  moreover have "wg (srv (sy_p s)) = length (filter alive (handlers (sy_p s)))" using h(3) by (simp add: srv_inv_def piped)
  ultimately show ?thesis using inv by (simp add: sys_inv_def)
qed

theorem system_invariant_witness:
  "\<exists>prog s. run_start build_defaults (example_run_env Map.empty) example_args = Inr prog \<and>
     reaches (sstep prog) (sys_init prog Map.empty) s \<and> sy_main s = MExit 0 \<and>
     wg (srv (sy_p s)) = length (filter alive (handlers (sy_p s)))"
proof -
  obtain prog s where *: "run_start build_defaults (example_run_env Map.empty) example_args = Inr prog"
    "length (backends (pr_pool prog)) < 2 ^ 63" "reaches (sstep prog) (sys_init prog Map.empty) s" "sy_main s = MExit 0"
    by (rule example_stopped)
  from * system_invariant [OF *(1-3)] show ?thesis by blast
qed

text \<open>C16: what the exit code of the running program means: 0 only after a signal and a \<open>Shutdown\<close> that returned with at
  most one connection still handled; 1 only because \<open>Accept\<close> failed while nobody had asked for a shutdown.\<close>

theorem exit_code_meaning:
  assumes "run_start bi env args = Inr prog" and "length (backends (pr_pool prog)) < 2 ^ 63"
    and "reaches (sstep prog) (sys_init prog f) s" and "sy_main s = MExit n"
  shows "if n = 0 then root_done (sy_h s) \<and> shut (sy_p s) = ShReturned \<and> in_flight (sy_p s) \<le> 1
    else n = 1 \<and> shut (sy_p s) = ShIdle \<and> (\<exists>e. serve (sy_p s) = ServeReturned (Some e))"
proof -
  have inv: "sys_inv prog s" using lb.reaches_inv [OF assms(3) sys_init_inv [OF assms(1,2)]] .
  have "in_flight (pview s) \<le> 1" if "shut (sy_p s) = ShReturned"
    using inv that by (simp add: sys_inv_def srv_inv_def)
  moreover have "in_flight (pview s) = in_flight (sy_p s)" by (simp add: in_flight_def pending_def pview_def)
  ultimately show ?thesis using inv assms(4) by (auto simp: sys_inv_def main_ok_def split: if_splits)
qed

theorem exit_code_meaning_witness:
  "\<exists>prog s. run_start build_defaults (example_run_env Map.empty) example_args = Inr prog \<and>
     reaches (sstep prog) (sys_init prog Map.empty) s \<and> sy_main s = MExit 0 \<and> shut (sy_p s) = ShReturned"
proof -
  obtain prog s where *: "run_start build_defaults (example_run_env Map.empty) example_args = Inr prog"
    "length (backends (pr_pool prog)) < 2 ^ 63" "reaches (sstep prog) (sys_init prog Map.empty) s" "sy_main s = MExit 0"
    by (rule example_stopped)
  from * exit_code_meaning [OF *] show ?thesis by auto
qed

text \<open>C17: shutdown completes: once a signal was received and no connection is in flight any more, \<open>main\<close> reaches
  exit code 0 by its own steps alone, at most five of them, whatever the other goroutines are doing.\<close>

theorem shutdown_completes:
  assumes "run_start bi env args = Inr prog" and "length (backends (pr_pool prog)) < 2 ^ 63"
    and "reaches (sstep prog) (sys_init prog f) s" and "sy_main s = MShutdown" and "in_flight (sy_p s) = 0"
  shows "\<exists>as t. sexecs prog as s = Some t \<and> sy_main t = MExit 0 \<and> length as \<le> 5 \<and>
    set as \<subseteq> {SProxy AShut, SProxy AWaitDone, SProxy AReturn, SShutdownReturned}"
proof -
  have inv: "sys_inv prog s" using lb.reaches_inv [OF assms(3) sys_init_inv [OF assms(1,2)]] .
  then have "wg (srv (sy_p s)) = 0"
    using assms(5) by (simp add: sys_inv_def srv_inv_def in_flight_def pview_def)
  note steps = this assms(4) sexec_def exited_def own_p_def pexec_def pview_def put_p_def shut_next_def shut_wait_done_def
    shut_return_def waiting_def
  show ?thesis
  proof (cases "shut (sy_p s)")
    case ShIdle
    then show ?thesis
      by (intro exI [of _ "[SProxy AShut, SProxy AShut, SProxy AWaitDone, SProxy AReturn, SShutdownReturned]"]) (simp add: steps)
  next
    case (ShMarked l)
    then show ?thesis
      by (intro exI [of _ "[SProxy AShut, SProxy AWaitDone, SProxy AReturn, SShutdownReturned]"]) (simp add: steps)
  next
    case ShReturned
    then show ?thesis by (intro exI [of _ "[SShutdownReturned]"]) (simp add: steps)
  qed (intro exI [of _ "[SProxy AWaitDone, SProxy AReturn, SShutdownReturned]"], simp add: steps)+
qed

theorem shutdown_completes_witness:
  "\<exists>prog s as t. reaches (sstep prog) (sys_init prog Map.empty) s \<and> sy_main s = MShutdown \<and>
     sexecs prog as s = Some t \<and> sy_main t = MExit 0"
proof -
  obtain prog where r: "run_start build_defaults (example_run_env Map.empty) example_args = Inr prog"
    "length (backends (pr_pool prog)) < 2 ^ 63"
    by (rule example_stopped)
  obtain s where s: "sexecs prog [SSignal, SDone] (sys_init prog Map.empty) = Some s" "sy_main s = MShutdown" "in_flight (sy_p s) = 0"
    by (auto simp: sexec_def exited_def sys_init_def hinit_def pinit_def in_flight_def pending_def)
  from shutdown_completes [OF r sexecs_reaches [OF s(1)] s(2,3)] s sexecs_reaches [OF s(1)] show ?thesis by blast
qed

end
